(* ===== verification/PyPrelude.thy ===== *)
theory PyPrelude
  imports Main "HOL-Library.Word" "HOL-Library.Char_ord" "HOL-Library.List_Lexorder"
    "HOL-Library.Product_Lexorder" "HOL-Library.Multiset" "HOL-Library.Sublist"
begin

text \<open>
  The part of Python the modelled scripts share: byte strings and \<open>struct\<close>, slices and py_slice
  assignment, exceptions as values, and the text methods (\<open>split\<close>, \<open>strip\<close>, \<open>partition\<close>,
  \<open>int(s, base)\<close>, \<open>%d\<close> and \<open>%x\<close>).  Python's \<open>str\<close> is modelled by HOL's \<open>string\<close>, whose
  characters are the code points 0 to 255 (Latin-1); text outside that range is not modelled.
  Sizes, offsets and addresses that the code never makes negative are \<open>nat\<close>; a Python integer
  that can be negative is \<open>int\<close>.
\<close>

named_theorems bytes_simps
named_theorems res_simps

section \<open>Exceptions as values\<close>

text \<open>
  A computation that may raise is a value of \<open>py_error + 'a\<close>.  \<open>SystemExit\<close> carries the
  process's exit status: \<open>sys.exit(n)\<close> exits with \<open>n\<close>, and \<open>raise SystemExit("...")\<close> or
  \<open>sys.exit("...")\<close> prints its message and exits with 1.
\<close>

datatype py_error =
    IndexError
  | KeyError
  | ValueError
  | TypeError
  | StructError
  | OverflowError
  | AssertionError
  | EOFError
  | OSError
  | RecursionError
  | DecodeError
  | SystemExit nat

type_synonym 'a res = "py_error + 'a"

definition res_bind :: "'a res \<Rightarrow> ('a \<Rightarrow> 'b res) \<Rightarrow> 'b res" where
  "res_bind m f = (case m of Inl e \<Rightarrow> Inl e | Inr a \<Rightarrow> f a)"

lemma res_bind_simps [simp, res_simps]:
  "res_bind (Inl e) f = Inl e"
  "res_bind (Inr a) f = f a"
  by (simp_all add: res_bind_def)

lemma res_bind_eq_Inr [simp]:
  "res_bind m f = Inr b \<longleftrightarrow> (\<exists>a. m = Inr a \<and> f a = Inr b)"
  by (cases m) auto

lemma res_bind_cong [fundef_cong]:
  "m = m' \<Longrightarrow> (\<And>a. m' = Inr a \<Longrightarrow> f a = f' a) \<Longrightarrow> res_bind m f = res_bind m' f'"
  by (cases m') auto

definition require :: "bool \<Rightarrow> py_error \<Rightarrow> unit res" where
  "require b e = (if b then Inr () else Inl e)"

lemma require_eq_Inr [simp]: "require b e = Inr u \<longleftrightarrow> b"
  by (simp add: require_def)

lemma require_simps [simp, res_simps]:
  "require True e = Inr ()"
  "require False e = Inl e"
  by (simp_all add: require_def)

text \<open>A loop that collects results and stops at the first exception.\<close>

fun res_map :: "('a \<Rightarrow> 'b res) \<Rightarrow> 'a list \<Rightarrow> 'b list res" where
  "res_map f [] = Inr []"
| "res_map f (x # xs) = res_bind (f x) (\<lambda>y. res_bind (res_map f xs) (\<lambda>ys. Inr (y # ys)))"

lemma res_map_Inr [simp]: "res_map (\<lambda>x. Inr (f x)) xs = Inr (map f xs)"
  by (induction xs) auto

lemma res_map_length: "res_map f xs = Inr ys \<Longrightarrow> length ys = length xs"
  by (induction xs arbitrary: ys) auto

lemma res_map_nth:
  "res_map f xs = Inr ys \<Longrightarrow> i < length xs \<Longrightarrow> f (xs ! i) = Inr (ys ! i)"
proof (induction xs arbitrary: ys i)
  case (Cons x xs)
  then show ?case by (cases i) auto
qed simp

lemma res_map_set: "res_map f xs = Inr ys \<Longrightarrow> y \<in> set ys \<Longrightarrow> \<exists>x \<in> set xs. f x = Inr y"
  by (induction xs arbitrary: ys) auto

lemma res_map_all: "(\<And>x. x \<in> set xs \<Longrightarrow> f x = Inr (g x)) \<Longrightarrow> res_map f xs = Inr (map g xs)"
  by (induction xs) auto

section \<open>Byte strings\<close>

type_synonym byte = "8 word"
type_synonym bytes = "byte list"

abbreviation zeros :: "nat \<Rightarrow> bytes" where
  "zeros n \<equiv> replicate n 0"

text \<open>Little-endian and big-endian readings of a byte string, \<open>int.from_bytes\<close>.\<close>

fun le_nat :: "bytes \<Rightarrow> nat" where
  "le_nat [] = 0"
| "le_nat (b # bs) = unat b + 256 * le_nat bs"

fun le_bytes :: "nat \<Rightarrow> nat \<Rightarrow> bytes" where
  "le_bytes 0 v = []"
| "le_bytes (Suc n) v = of_nat (v mod 256) # le_bytes n (v div 256)"

definition be_nat :: "bytes \<Rightarrow> nat" where
  "be_nat bs = le_nat (rev bs)"

definition be_bytes :: "nat \<Rightarrow> nat \<Rightarrow> bytes" where
  "be_bytes n v = rev (le_bytes n v)"

text \<open>\<open>int.from_bytes(b, 'little', signed=True)\<close>: two's complement over the bytes given.\<close>

definition le_signed :: "bytes \<Rightarrow> int" where
  "le_signed bs =
     (let v = int (le_nat bs); m = 256 ^ length bs
      in if bs \<noteq> [] \<and> m \<le> 2 * v then v - m else v)"

lemma unat_byte_less [simp]: "unat (b :: byte) < 256"
  using unsigned_less [of b] by simp

lemma unat_of_nat_byte [simp]: "unat (of_nat n :: byte) = n mod 256"
  by (simp add: unat_of_nat)

lemma length_le_bytes [simp, bytes_simps]: "length (le_bytes n v) = n"
  by (induction n arbitrary: v) auto

lemma length_be_bytes [simp, bytes_simps]: "length (be_bytes n v) = n"
  by (simp add: be_bytes_def)

lemma le_nat_le_bytes [bytes_simps]: "le_nat (le_bytes n v) = v mod 256 ^ n"
proof (induction n arbitrary: v)
  case (Suc n)
  have "v mod (256 * 256 ^ n) = v mod 256 + 256 * (v div 256 mod 256 ^ n)"
    by (simp add: mod_mult2_eq)
  with Suc show ?case by simp
qed simp

lemma le_bytes_le_nat: "le_bytes (length bs) (le_nat bs) = bs"
proof (induction bs)
  case (Cons b bs)
  have "(unat b + 256 * le_nat bs) div 256 = le_nat bs"
    by (simp add: div_mult_self2)
  moreover have "(unat b + 256 * le_nat bs) mod 256 = unat b"
    by simp
  ultimately show ?case using Cons by simp
qed simp

lemma le_nat_less: "le_nat bs < 256 ^ length bs"
proof (induction bs)
  case (Cons b bs)
  have "unat b < 256" by (rule unat_byte_less)
  with Cons have "unat b + 256 * le_nat bs < 256 * 256 ^ length bs" by linarith
  then show ?case by simp
qed simp

lemma le_nat_append: "le_nat (xs @ ys) = le_nat xs + 256 ^ length xs * le_nat ys"
  by (induction xs) (auto simp: algebra_simps)

lemma le_nat_roundtrip [simp]: "v < 256 ^ n \<Longrightarrow> le_nat (le_bytes n v) = v"
  by (simp add: le_nat_le_bytes)

lemma be_nat_roundtrip [simp]: "v < 256 ^ n \<Longrightarrow> be_nat (be_bytes n v) = v"
  by (simp add: be_nat_def be_bytes_def)

lemma be_nat_less: "be_nat bs < 256 ^ length bs"
  using le_nat_less [of "rev bs"] by (simp add: be_nat_def)

lemma be_bytes_be_nat: "be_bytes (length bs) (be_nat bs) = bs"
  using le_bytes_le_nat [of "rev bs"] by (simp add: be_nat_def be_bytes_def)

section \<open>Slices and slice assignment\<close>

text \<open>
  \<open>xs[i:j]\<close> for \<open>0 \<le> i\<close> and \<open>0 \<le> j\<close>: an end past the sequence is clamped, and \<open>j \<le> i\<close> gives
  the empty slice.  \<open>out[i:j] = ys\<close> on a \<open>bytearray\<close> replaces the clamped slice, growing or
  shrinking the array when the lengths differ.
\<close>

definition py_slice :: "'a list \<Rightarrow> nat \<Rightarrow> nat \<Rightarrow> 'a list" where
  "py_slice xs i j = take (j - i) (drop i xs)"

definition set_slice :: "'a list \<Rightarrow> nat \<Rightarrow> nat \<Rightarrow> 'a list \<Rightarrow> 'a list" where
  "set_slice xs i j ys = take i xs @ ys @ drop (max i j) xs"

text \<open>\<open>xs[-n:]\<close> for \<open>0 < n\<close>.\<close>

definition last_n :: "nat \<Rightarrow> 'a list \<Rightarrow> 'a list" where
  "last_n n xs = drop (length xs - n) xs"

text \<open>\<open>xs[i]\<close> for \<open>0 \<le> i\<close>.\<close>

definition py_nth :: "'a list \<Rightarrow> nat \<Rightarrow> 'a res" where
  "py_nth xs i = (if i < length xs then Inr (xs ! i) else Inl IndexError)"

lemma py_nth_eq_Inr [simp]: "py_nth xs i = Inr x \<longleftrightarrow> i < length xs \<and> x = xs ! i"
  by (auto simp: py_nth_def)

lemma length_slice [simp, bytes_simps]: "length (py_slice xs i j) = min (j - i) (length xs - i)"
  by (simp add: py_slice_def min.commute)

lemma slice_append_left: "j \<le> length xs \<Longrightarrow> py_slice (xs @ ys) i j = py_slice xs i j"
  by (simp add: py_slice_def)

lemma slice_append_right:
  "length xs \<le> i \<Longrightarrow> py_slice (xs @ ys) i j = py_slice ys (i - length xs) (j - length xs)"
  by (simp add: py_slice_def)

lemma slice_all [simp]: "py_slice xs 0 (length xs) = xs"
  by (simp add: py_slice_def)

lemma nth_slice: "k < j - i \<Longrightarrow> i + k < length xs \<Longrightarrow> py_slice xs i j ! k = xs ! (i + k)"
  by (simp add: py_slice_def)

lemma slice_slice: "b \<le> n \<Longrightarrow> py_slice (py_slice xs e (e + n)) a b = py_slice xs (e + a) (e + b)"
  by (simp add: py_slice_def drop_take add.commute min_def)

lemma slice_cong:
  assumes "length xs = length ys \<or> (j \<le> length xs \<and> j \<le> length ys)"
    and "\<And>k. i \<le> k \<Longrightarrow> k < j \<Longrightarrow> k < length xs \<Longrightarrow> xs ! k = ys ! k"
  shows "py_slice xs i j = py_slice ys i j"
proof (rule nth_equalityI)
  show "length (py_slice xs i j) = length (py_slice ys i j)"
    using assms(1) by auto
next
  fix k assume "k < length (py_slice xs i j)"
  then have k: "k < j - i" "i + k < length xs" by auto
  with assms(1) have "i + k < length ys" by auto
  with k assms(2) [of "i + k"] show "py_slice xs i j ! k = py_slice ys i j ! k"
    by (simp add: nth_slice)
qed

lemma length_set_slice [bytes_simps]:
  "j = i + length ys \<Longrightarrow> j \<le> length xs \<Longrightarrow> length (set_slice xs i j ys) = length xs"
  by (simp add: set_slice_def max_def)

lemma nth_set_slice:
  assumes "j = i + length ys" "j \<le> length xs" "k < i \<or> j \<le> k" "k < length xs"
  shows "set_slice xs i j ys ! k = xs ! k"
  using assms by (auto simp: set_slice_def nth_append max_def)

lemma slice_set_slice:
  "j = i + length ys \<Longrightarrow> j \<le> length xs \<Longrightarrow> py_slice (set_slice xs i j ys) i j = ys"
  by (simp add: set_slice_def py_slice_def)

section \<open>The \<open>struct\<close> module\<close>

text \<open>
  \<open>struct.unpack_from\<close> raises \<open>struct.error\<close> when the buffer is too short, \<open>struct.pack\<close> when a
  value does not fit its field.  One field at a time: \<open>n\<close> is its width in bytes.
\<close>

definition unpack_le :: "nat \<Rightarrow> bytes \<Rightarrow> nat \<Rightarrow> nat res" where
  "unpack_le n data off =
     (if off + n \<le> length data then Inr (le_nat (py_slice data off (off + n))) else Inl StructError)"

definition unpack_be :: "nat \<Rightarrow> bytes \<Rightarrow> nat \<Rightarrow> nat res" where
  "unpack_be n data off =
     (if off + n \<le> length data then Inr (be_nat (py_slice data off (off + n))) else Inl StructError)"

definition pack_le :: "nat \<Rightarrow> nat \<Rightarrow> bytes res" where
  "pack_le n v = (if v < 256 ^ n then Inr (le_bytes n v) else Inl StructError)"

definition pack_be :: "nat \<Rightarrow> nat \<Rightarrow> bytes res" where
  "pack_be n v = (if v < 256 ^ n then Inr (be_bytes n v) else Inl StructError)"

definition pack_into_le :: "nat \<Rightarrow> bytes \<Rightarrow> nat \<Rightarrow> nat \<Rightarrow> bytes res" where
  "pack_into_le n out off v =
     (if off + n \<le> length out then res_bind (pack_le n v) (\<lambda>b. Inr (set_slice out off (off + n) b))
      else Inl StructError)"

lemma unpack_le_eq_Inr [simp]:
  "unpack_le n data off = Inr v \<longleftrightarrow>
     off + n \<le> length data \<and> v = le_nat (py_slice data off (off + n))"
  by (auto simp: unpack_le_def)

lemma pack_le_eq_Inr [simp]: "pack_le n v = Inr b \<longleftrightarrow> v < 256 ^ n \<and> b = le_bytes n v"
  by (auto simp: pack_le_def)

lemma pack_into_le_eq_Inr [simp]:
  "pack_into_le n out off v = Inr out' \<longleftrightarrow>
     off + n \<le> length out \<and> v < 256 ^ n \<and> out' = set_slice out off (off + n) (le_bytes n v)"
  by (auto simp: pack_into_le_def)

lemma unpack_le_bound: "unpack_le n data off = Inr v \<Longrightarrow> v < 256 ^ n"
  using le_nat_less [of "py_slice data off (off + n)"] by (simp add: min_def split: if_splits)

text \<open>\<open>str.encode()\<close>: UTF-8 over the code points of the model, one byte below 128 and two above.\<close>

definition utf8_char :: "char \<Rightarrow> bytes" where
  "utf8_char c =
     (let n = of_char c :: nat
      in if n < 128 then [of_nat n] else [of_nat (192 + n div 64), of_nat (128 + n mod 64)])"

definition encode :: "string \<Rightarrow> bytes" where
  "encode s = concat (map utf8_char s)"

text \<open>\<open>bytes.ljust(n, b'\\0')\<close> and the \<open>ns\<close> field of \<open>struct.pack\<close>, which truncates and pads.\<close>

definition ljust0 :: "nat \<Rightarrow> bytes \<Rightarrow> bytes" where
  "ljust0 n b = b @ zeros (n - length b)"

definition pack_s :: "nat \<Rightarrow> bytes \<Rightarrow> bytes" where
  "pack_s n b = take n b @ zeros (n - length b)"

lemma length_pack_s [simp, bytes_simps]: "length (pack_s n b) = n"
  by (simp add: pack_s_def)

lemma pack_s_ljust0: "pack_s n (ljust0 n b) = pack_s n b"
  by (simp add: pack_s_def ljust0_def)

section \<open>The low 32 bits of an integer as four bytes\<close>

lemma unat_of_int_byte: "unat (of_int (x mod 256) :: byte) = nat (x mod 256)"
  by (simp add: unat_eq_nat_uint unsigned_of_int take_bit_eq_mod)

lemma bytes_of_int:
  "int (le_nat [of_int (x mod 256), of_int (x div 256 mod 256), of_int (x div 65536 mod 256),
     of_int (x div 16777216 mod 256)]) = x mod 4294967296"
proof -
  define b c d where "b = x div 256" and "c = b div 256" and "d = c div 256"
  have m: "y mod (256 * n) = 256 * (y div 256 mod n) + y mod 256" if "0 \<le> n" for y n :: int
    using that by (rule zmod_zmult2_eq)
  have "4294967296 = 256 * (16777216 :: int)" "16777216 = 256 * (65536 :: int)" "65536 = 256 * (256 :: int)"
    by simp_all
  then have e: "x mod 4294967296 = 256 * (b mod 16777216) + x mod 256"
    "b mod 16777216 = 256 * (c mod 65536) + b mod 256"
    "c mod 65536 = 256 * (d mod 256) + c mod 256"
    using m [of 16777216 x] m [of 65536 b] m [of 256 c] by (simp_all only: b_def c_def d_def)
  have p: "256 * (256 * (256 * p + q) + r) + s = s + 256 * r + 65536 * q + 16777216 * p" for p q r s :: int
    by simp
  have cd: "x div 65536 = c" "x div 16777216 = d"
    unfolding b_def c_def d_def by (simp_all add: zdiv_zmult2_eq [symmetric])
  have "int (le_nat [of_int (a mod 256), of_int (b mod 256), of_int (c mod 256), of_int (d mod 256)])
      = a mod 256 + 256 * (b mod 256) + 65536 * (c mod 256) + 16777216 * (d mod 256)" for a b c d :: int
    by (simp add: unat_of_int_byte)
  then show ?thesis unfolding cd b_def [symmetric] unfolding e p by (simp only:)
qed

end
