(* ===== verification/MakeUki.thy ===== *)
theory MakeUki
  imports PyPrelude
begin

text \<open>
  \<open>scripts/make-uki.py\<close>: adding the UKI sections \<open>.osrel\<close> and \<open>.cmdline\<close> to a PE/COFF image.
  \<open>add_sections\<close> is the script's function of that name, in its order of reads, checks and writes;
  \<open>place_sections\<close> is its second loop.  \<open>pe_sections\<close> reads a section table back, and \<open>layout\<close> says
  where the new sections must lie; the theorems relate the two.
\<close>

section \<open>The program\<close>

definition align :: "nat \<Rightarrow> nat \<Rightarrow> nat" where
  "align x a = (x + a - 1) div a * a"

record pe_header =
  coff :: nat
  nsec :: nat
  opt :: nat
  sec_table :: nat

text \<open>
  The reads at the head of \<open>add_sections\<close>.  \<open>unpack_from('<HH', data, coff + 2)\<close> reads two words and
  keeps the first, so it also needs the two bytes after it.
\<close>

definition read_header :: "bytes \<Rightarrow> pe_header res" where
  "read_header data =
     res_bind (unpack_le 4 data 60) (\<lambda>pe.
     res_bind (unpack_le 2 data (pe + 4 + 2)) (\<lambda>n.
     res_bind (unpack_le 2 data (pe + 4 + 4)) (\<lambda>_.
     res_bind (unpack_le 2 data (pe + 4 + 16)) (\<lambda>optsz.
       Inr \<lparr>coff = pe + 4, nsec = n, opt = pe + 4 + 20, sec_table = pe + 4 + 20 + optsz\<rparr>))))"

text \<open>
  \<open>min\<close> over the raw pointers of the existing sections; \<open>min\<close> of no values is a \<open>ValueError\<close>.
\<close>

definition raw_first :: "bytes \<Rightarrow> pe_header \<Rightarrow> nat res" where
  "raw_first data h =
     res_bind (res_map (\<lambda>i. unpack_le 4 data (sec_table h + 40 * i + 20)) [0..<nsec h]) (\<lambda>ptrs.
       if ptrs = [] then Inl ValueError else Inr (min_list ptrs))"

definition last_end :: "bytes \<Rightarrow> pe_header \<Rightarrow> nat res" where
  "last_end data h =
     res_bind
       (res_map
         (\<lambda>i. res_bind (unpack_le 4 data (sec_table h + 40 * i + 8)) (\<lambda>vsize.
              res_bind (unpack_le 4 data (sec_table h + 40 * i + 12)) (\<lambda>va. Inr (va + vsize))))
         [0..<nsec h])
       (\<lambda>ends. Inr (fold max ends 0))"

text \<open>The 40-byte section header, with \<open>INITIALIZED_DATA | READ\<close> as its flags.\<close>

definition section_header :: "string \<Rightarrow> nat \<Rightarrow> nat \<Rightarrow> nat \<Rightarrow> nat \<Rightarrow> bytes res" where
  "section_header name vsize va padded raw_ptr =
     res_bind (pack_le 4 vsize) (\<lambda>b_size.
     res_bind (pack_le 4 va) (\<lambda>b_va.
     res_bind (pack_le 4 padded) (\<lambda>b_padded.
     res_bind (pack_le 4 raw_ptr) (\<lambda>b_raw.
       Inr (pack_s 8 (ljust0 8 (encode name)) @ b_size @ b_va @ b_padded @ b_raw
            @ le_bytes 4 0 @ le_bytes 4 0 @ le_bytes 2 0 @ le_bytes 2 0 @ le_bytes 4 1073741888)))))"

fun place_sections ::
    "nat \<Rightarrow> nat \<Rightarrow> (string \<times> bytes) list \<Rightarrow> bytes \<Rightarrow> nat \<Rightarrow> (bytes \<times> nat) res" where
  "place_sections tab n [] out va = Inr (out, va)"
| "place_sections tab n ((name, payload) # ss) out va =
     (let entry = tab + 40 * n;
          raw_ptr = length out;
          vsize = length payload;
          padded = align vsize 512;
          out1 = out @ payload @ zeros (padded - vsize)
      in res_bind (section_header name vsize va padded raw_ptr) (\<lambda>hdr.
           place_sections tab (Suc n) ss (set_slice out1 entry (entry + 40) hdr)
             (align (va + vsize) 4096)))"

definition add_sections :: "bytes \<Rightarrow> (string \<times> bytes) list \<Rightarrow> bytes res" where
  "add_sections data sections =
     res_bind (read_header data) (\<lambda>h.
     res_bind (raw_first data h) (\<lambda>first.
     res_bind (require (sec_table h + 40 * (nsec h + length sections) \<le> first) (SystemExit 1)) (\<lambda>_.
     res_bind (last_end data h) (\<lambda>le.
     let out = data @ zeros (align (length data) 512 - length data)
     in res_bind (place_sections (sec_table h) (nsec h) sections out (align le 4096)) (\<lambda>(out, va).
        res_bind (pack_into_le 2 out (coff h + 2) (nsec h + length sections)) (\<lambda>out.
          pack_into_le 4 out (opt h + 56) va))))))"

text \<open>The command line: \<open>IN.efi OUT.efi OSREL CMDLINE\<close>, with the contents of the three input files.\<close>

definition uki_main :: "bytes \<Rightarrow> bytes \<Rightarrow> bytes \<Rightarrow> bytes res" where
  "uki_main src osrel cmdline = add_sections src [(''.osrel'', osrel), (''.cmdline'', cmdline)]"

section \<open>The specification\<close>

record pe_section =
  s_name :: bytes
  s_vsize :: nat
  s_va :: nat
  s_rsize :: nat
  s_rptr :: nat
  s_flags :: nat

definition section_at :: "bytes \<Rightarrow> nat \<Rightarrow> pe_section" where
  "section_at data e =
     \<lparr>s_name = py_slice data e (e + 8),
      s_vsize = le_nat (py_slice data (e + 8) (e + 12)),
      s_va = le_nat (py_slice data (e + 12) (e + 16)),
      s_rsize = le_nat (py_slice data (e + 16) (e + 20)),
      s_rptr = le_nat (py_slice data (e + 20) (e + 24)),
      s_flags = le_nat (py_slice data (e + 36) (e + 40))\<rparr>"

definition sections_of :: "bytes \<Rightarrow> pe_header \<Rightarrow> pe_section list" where
  "sections_of data h = map (\<lambda>i. section_at data (sec_table h + 40 * i)) [0..<nsec h]"

definition pe_sections :: "bytes \<Rightarrow> pe_section list res" where
  "pe_sections data = res_bind (read_header data) (\<lambda>h. Inr (sections_of data h))"

fun layout :: "nat \<Rightarrow> nat \<Rightarrow> (string \<times> bytes) list \<Rightarrow> pe_section list" where
  "layout va ptr [] = []"
| "layout va ptr ((name, payload) # ss) =
     \<lparr>s_name = pack_s 8 (encode name), s_vsize = length payload, s_va = va,
      s_rsize = align (length payload) 512, s_rptr = ptr, s_flags = 1073741888\<rparr>
     # layout (align (va + length payload) 4096) (ptr + align (length payload) 512) ss"

fun layout_end :: "nat \<Rightarrow> (string \<times> bytes) list \<Rightarrow> nat" where
  "layout_end va [] = va"
| "layout_end va ((name, payload) # ss) = layout_end (align (va + length payload) 4096) ss"

text \<open>
  What the script takes for granted of its input: the PE header lies after the DOS header, the
  optional header reaches past \<open>SizeOfImage\<close>, and the first section's data is inside the file.
\<close>

definition wf_pe :: "bytes \<Rightarrow> bool" where
  "wf_pe data \<longleftrightarrow>
     (case read_header data of
        Inl e \<Rightarrow> False
      | Inr h \<Rightarrow> 64 + 4 \<le> coff h \<and> opt h + 60 \<le> sec_table h \<and>
          (case raw_first data h of Inl e \<Rightarrow> False | Inr p \<Rightarrow> p \<le> length data))"

section \<open>Alignment\<close>

lemma align_decomp: "align x a + (x + a - 1) mod a = x + a - 1"
  by (simp add: align_def)

lemma align_ge: "0 < a \<Longrightarrow> x \<le> align x a"
proof -
  assume a: "0 < a"
  then have "(x + a - 1) mod a < a" by (rule mod_less_divisor)
  with align_decomp [of x a] show ?thesis by linarith
qed

lemma align_dvd: "a dvd align x a"
  by (simp add: align_def)

lemma align_less: "0 < a \<Longrightarrow> align x a < x + a"
  using align_decomp [of x a] by linarith

lemmas align_facts = align_ge [of 512] align_ge [of 4096] align_dvd align_less

section \<open>One section header\<close>

lemma section_header_Inr:
  assumes "section_header name vsize va padded raw_ptr = Inr hdr"
  shows "length hdr = 40"
    and "section_at hdr 0 = \<lparr>s_name = pack_s 8 (encode name), s_vsize = vsize, s_va = va,
           s_rsize = padded, s_rptr = raw_ptr, s_flags = 1073741888\<rparr>"
  using assms
  by (auto simp: section_header_def section_at_def py_slice_def pack_s_ljust0 take_Cons' drop_Cons')

lemma section_at_slice: "section_at data e = section_at (py_slice data e (e + 40)) 0"
  by (simp add: section_at_def slice_slice)

lemma section_at_cong:
  assumes "e + 40 \<le> length xs" "e + 40 \<le> length ys"
    and "\<And>i. e \<le> i \<Longrightarrow> i < e + 40 \<Longrightarrow> xs ! i = ys ! i"
  shows "section_at xs e = section_at ys e"
proof -
  from assms have "py_slice xs e (e + 40) = py_slice ys e (e + 40)"
    by (intro slice_cong) auto
  then show ?thesis using section_at_slice [of xs e] section_at_slice [of ys e] by simp
qed

section \<open>The loop that places the sections\<close>

text \<open>
  One turn of the loop on an array \<open>out\<close>: the header lands in its table entry, the payload after
  the end, and every other byte of \<open>out\<close> stays.
\<close>

lemma place_step:
  assumes hdr: "section_header name (length payload) va padded (length out) = Inr hdr"
    and room: "entry + 40 \<le> length out"
    and out1: "out1 = set_slice (out @ payload @ zeros k) entry (entry + 40) hdr"
  shows "length out1 = length out + length payload + k"
    and "\<And>i. i < length out \<Longrightarrow> i < entry \<or> entry + 40 \<le> i \<Longrightarrow> out1 ! i = out ! i"
    and "section_at out1 entry = \<lparr>s_name = pack_s 8 (encode name), s_vsize = length payload,
           s_va = va, s_rsize = padded, s_rptr = length out, s_flags = 1073741888\<rparr>"
    and "py_slice out1 (length out) (length out + length payload) = payload"
proof -
  let ?big = "out @ payload @ zeros k"
  have l40: "length hdr = 40" by (rule section_header_Inr [OF hdr])
  have j: "entry + 40 = entry + length hdr" and fits: "entry + 40 \<le> length ?big"
    using room l40 by simp_all
  note outside = nth_set_slice [OF j fits]
  show len: "length out1 = length out + length payload + k"
    unfolding out1 length_set_slice [OF j fits] by simp
  show same: "out1 ! i = out ! i" if "i < length out" "i < entry \<or> entry + 40 \<le> i" for i
    using that outside [of i] by (simp add: out1 nth_append)
  have "py_slice out1 entry (entry + 40) = hdr"
    unfolding out1 by (rule slice_set_slice [OF j fits])
  then show "section_at out1 entry = \<lparr>s_name = pack_s 8 (encode name), s_vsize = length payload,
           s_va = va, s_rsize = padded, s_rptr = length out, s_flags = 1073741888\<rparr>"
    using section_at_slice [of out1 entry] section_header_Inr(2) [OF hdr] by simp
  have "py_slice out1 (length out) (length out + length payload)
        = py_slice ?big (length out) (length out + length payload)"
  proof (rule slice_cong)
    show "length out1 = length ?big \<or>
        length out + length payload \<le> length out1 \<and> length out + length payload \<le> length ?big"
      using len by simp
  next
    fix i assume "length out \<le> i" "i < length out + length payload" "i < length out1"
    then show "out1 ! i = ?big ! i" using outside [of i] room len by (simp add: out1)
  qed
  then show "py_slice out1 (length out) (length out + length payload) = payload"
    by (simp add: py_slice_def)
qed

text \<open>The whole loop, on a table that lies inside \<open>out\<close>.\<close>

lemma place_sections_Cons:
  assumes "place_sections tab n ((name, payload) # ss) out va = Inr r"
    and "tab + 40 * Suc n \<le> length out"
  obtains out1 where
    "place_sections tab (Suc n) ss out1 (align (va + length payload) 4096) = Inr r"
    "length out1 = length out + align (length payload) 512"
    "\<And>i. i < length out \<Longrightarrow> i < tab + 40 * n \<or> tab + 40 * Suc n \<le> i \<Longrightarrow> out1 ! i = out ! i"
    "section_at out1 (tab + 40 * n) = hd (layout va (length out) ((name, payload) # ss))"
    "py_slice out1 (length out) (length out + length payload) = payload"
proof -
  let ?e = "tab + 40 * n"
  define k where "k = align (length payload) 512 - length payload"
  from assms(1) obtain hdr where
    hdr: "section_header name (length payload) va (align (length payload) 512) (length out) = Inr hdr" and
    rest: "place_sections tab (Suc n) ss
             (set_slice (out @ payload @ zeros k) ?e (?e + 40) hdr)
             (align (va + length payload) 4096) = Inr r"
    by (auto simp: Let_def k_def)
  have room: "?e + 40 \<le> length out" using assms(2) by simp
  have pad: "length payload + k = align (length payload) 512"
    using align_ge [of 512 "length payload"] by (simp add: k_def)
  define out1 where "out1 = set_slice (out @ payload @ zeros k) ?e (?e + 40) hdr"
  note step = place_step [OF hdr room out1_def]
  show thesis
    by (rule that [OF rest [folded out1_def]]) (use step pad in auto)
qed

lemma place_sections_frame:
  assumes "place_sections tab n ss out va = Inr (out', va')"
    and "tab + 40 * (n + length ss) \<le> length out"
  shows "length out \<le> length out' \<and> va' = layout_end va ss \<and>
         (\<forall>i < length out. i < tab + 40 * n \<or> tab + 40 * (n + length ss) \<le> i \<longrightarrow> out' ! i = out ! i)"
  using assms
proof (induction ss arbitrary: n out va)
  case (Cons s ss)
  obtain name payload where s: "s = (name, payload)" by (cases s)
  have room: "tab + 40 * Suc n \<le> length out" using Cons.prems(2) by simp
  obtain out1 where out1:
    "place_sections tab (Suc n) ss out1 (align (va + length payload) 4096) = Inr (out', va')"
    "length out1 = length out + align (length payload) 512"
    "\<And>i. i < length out \<Longrightarrow> i < tab + 40 * n \<or> tab + 40 * Suc n \<le> i \<Longrightarrow> out1 ! i = out ! i"
    using place_sections_Cons [OF Cons.prems(1) [unfolded s] room] by blast
  have "tab + 40 * (Suc n + length ss) \<le> length out1" using Cons.prems(2) out1(2) by simp
  note ih = Cons.IH [OF out1(1) this]
  show ?case
  proof (intro conjI allI impI)
    show "length out \<le> length out'" using ih out1(2) by simp
    show "va' = layout_end va (s # ss)" using ih s by simp
  next
    fix i assume "i < length out" "i < tab + 40 * n \<or> tab + 40 * (n + length (s # ss)) \<le> i"
    then show "out' ! i = out ! i" using ih out1(2) out1(3) [of i] by auto
  qed
qed simp

definition section_data :: "bytes \<Rightarrow> pe_section \<Rightarrow> bytes" where
  "section_data data s = py_slice data (s_rptr s) (s_rptr s + s_vsize s)"

lemma place_sections_table:
  assumes "place_sections tab n ss out va = Inr (out', va')"
    and "tab + 40 * (n + length ss) \<le> length out"
  shows "map (\<lambda>j. section_at out' (tab + 40 * (n + j))) [0..<length ss] = layout va (length out) ss \<and>
         map (section_data out') (layout va (length out) ss) = map snd ss"
  using assms
proof (induction ss arbitrary: n out va)
  case (Cons s ss)
  obtain name payload where s: "s = (name, payload)" by (cases s)
  have room: "tab + 40 * Suc n \<le> length out" using Cons.prems(2) by simp
  obtain out1 where out1:
    "place_sections tab (Suc n) ss out1 (align (va + length payload) 4096) = Inr (out', va')"
    "length out1 = length out + align (length payload) 512"
    "section_at out1 (tab + 40 * n) = hd (layout va (length out) ((name, payload) # ss))"
    "py_slice out1 (length out) (length out + length payload) = payload"
    using place_sections_Cons [OF Cons.prems(1) [unfolded s] room] by metis
  have room1: "tab + 40 * (Suc n + length ss) \<le> length out1" using Cons.prems(2) out1(2) by simp
  note ih = Cons.IH [OF out1(1) room1]
  note frame = place_sections_frame [OF out1(1) room1]
  have head: "section_at out' (tab + 40 * n) = section_at out1 (tab + 40 * n)"
    using frame room1 by (intro section_at_cong) auto
  have "py_slice out' (length out) (length out + length payload)
        = py_slice out1 (length out) (length out + length payload)"
    using frame out1(2) Cons.prems(2) align_ge [of 512 "length payload"]
    by (intro slice_cong) auto
  then have data: "py_slice out' (length out) (length out + length payload) = payload"
    using out1(4) by simp
  show ?case
    using ih head data out1(2,3) s
    by (simp add: upt_conv_Cons section_data_def map_Suc_upt [symmetric] comp_def ac_simps del: upt_Suc)
qed simp

section \<open>The whole function\<close>

lemma add_sections_cases:
  assumes "add_sections data secs = Inr out" and "wf_pe data"
  obtains h le out1 where
    "read_header data = Inr h" "last_end data h = Inr le"
    "68 \<le> coff h" "opt h = coff h + 20" "opt h + 60 \<le> sec_table h"
    "sec_table h + 40 * (nsec h + length secs) \<le> length data"
    "place_sections (sec_table h) (nsec h) secs
       (data @ zeros (align (length data) 512 - length data)) (align le 4096)
     = Inr (out1, layout_end (align le 4096) secs)"
    "nsec h + length secs < 65536" "layout_end (align le 4096) secs < 4294967296"
    "length data \<le> length out1"
    "out = set_slice
       (set_slice out1 (coff h + 2) (coff h + 4) (le_bytes 2 (nsec h + length secs)))
       (opt h + 56) (opt h + 60) (le_bytes 4 (layout_end (align le 4096) secs))"
proof -
  from assms(1) obtain h first le out1 va out2 where
    h: "read_header data = Inr h" and first: "raw_first data h = Inr first" and
    room: "sec_table h + 40 * (nsec h + length secs) \<le> first" and
    le: "last_end data h = Inr le" and
    pl: "place_sections (sec_table h) (nsec h) secs
           (data @ zeros (align (length data) 512 - length data)) (align le 4096) = Inr (out1, va)" and
    o2: "pack_into_le 2 out1 (coff h + 2) (nsec h + length secs) = Inr out2" and
    o: "pack_into_le 4 out2 (opt h + 56) va = Inr out"
    by (auto simp: add_sections_def Let_def)
  have wf: "68 \<le> coff h" "opt h + 60 \<le> sec_table h" "first \<le> length data"
    using assms(2) h first by (auto simp: wf_pe_def)
  have op: "opt h = coff h + 20" using h by (auto simp: read_header_def)
  have room': "sec_table h + 40 * (nsec h + length secs) \<le> length data" using room wf(3) by simp
  have fr: "length data \<le> length out1" "va = layout_end (align le 4096) secs"
    using place_sections_frame [OF pl] room' by simp_all
  have c: "Suc (Suc (Suc (Suc (coff h)))) = coff h + 4" by simp
  show thesis
    by (rule that [OF h le wf(1) op wf(2) room'])
      (use pl fr o2 o in \<open>simp_all add: add.assoc c\<close>)
qed

text \<open>
  The bytes of the result: those of the loop's array, but for \<open>NumberOfSections\<close> and \<open>SizeOfImage\<close>.
\<close>

lemma two_fields:
  assumes "c + 4 \<le> q" "q + 60 \<le> length xs"
    and "out = set_slice (set_slice xs (c + 2) (c + 4) (le_bytes 2 v)) (q + 56) (q + 60) (le_bytes 4 w)"
  shows "length out = length xs"
    and "\<And>i. i < length xs \<Longrightarrow> i \<notin> {c + 2, c + 3} \<Longrightarrow> i \<notin> {q + 56..<q + 60} \<Longrightarrow> out ! i = xs ! i"
    and "v < 65536 \<Longrightarrow> le_nat (py_slice out (c + 2) (c + 4)) = v"
    and "w < 4294967296 \<Longrightarrow> le_nat (py_slice out (q + 56) (q + 60)) = w"
proof -
  define ys where "ys = set_slice xs (c + 2) (c + 4) (le_bytes 2 v)"
  have j1: "c + 4 = c + 2 + length (le_bytes 2 v)" "c + 4 \<le> length xs" using assms(1,2) by simp_all
  have ly: "length ys = length xs" unfolding ys_def by (rule length_set_slice [OF j1])
  have j2: "q + 60 = q + 56 + length (le_bytes 4 w)" "q + 60 \<le> length ys" using assms(2) ly by simp_all
  have out: "out = set_slice ys (q + 56) (q + 60) (le_bytes 4 w)" using assms(3) ys_def by simp
  show len: "length out = length xs" unfolding out length_set_slice [OF j2] by (rule ly)
  show "out ! i = xs ! i"
    if "i < length xs" "i \<notin> {c + 2, c + 3}" "i \<notin> {q + 56..<q + 60}" for i
  proof -
    have "i < q + 56 \<or> q + 60 \<le> i" "i < c + 2 \<or> c + 4 \<le> i" using that by auto
    then show ?thesis
      using that ly nth_set_slice [OF j2, of i] nth_set_slice [OF j1, of i] by (simp add: out ys_def)
  qed
  have "py_slice out (c + 2) (c + 4) = py_slice ys (c + 2) (c + 4)"
    using len ly assms(1) nth_set_slice [OF j2] by (intro slice_cong) (auto simp: out)
  then show "le_nat (py_slice out (c + 2) (c + 4)) = v" if "v < 65536"
    using that slice_set_slice [OF j1] by (simp add: ys_def)
  show "le_nat (py_slice out (q + 56) (q + 60)) = w" if "w < 4294967296"
    using that slice_set_slice [OF j2] by (simp add: out)
qed

lemma layout_end_ge: "va \<le> layout_end va ss"
proof (induction ss arbitrary: va)
  case (Cons s ss)
  obtain name payload where "s = (name, payload)" by (cases s)
  with Cons [of "align (va + length payload) 4096"] align_ge [of 4096 "va + length payload"]
  show ?case by simp
qed simp

lemma layout_vas:
  assumes "4096 dvd va"
  shows "(\<forall>s \<in> set (layout va ptr ss). 4096 dvd s_va s \<and> va \<le> s_va s \<and>
            s_va s + s_vsize s \<le> layout_end va ss) \<and>
         sorted_wrt (\<lambda>s t. s_va s + s_vsize s \<le> s_va t) (layout va ptr ss)"
  using assms
proof (induction ss arbitrary: va ptr)
  case (Cons s ss)
  obtain name payload where s: "s = (name, payload)" by (cases s)
  let ?va = "align (va + length payload) 4096"
  let ?rest = "layout ?va (ptr + align (length payload) 512) ss"
  note ih = Cons.IH [OF align_dvd, of "va + length payload" "ptr + align (length payload) 512"]
  have ge: "va + length payload \<le> ?va" by (simp add: align_ge)
  moreover have "?va \<le> layout_end ?va ss" by (rule layout_end_ge)
  ultimately have head: "va + length payload \<le> layout_end ?va ss" by linarith
  have tail: "4096 dvd s_va t \<and> va + length payload \<le> s_va t \<and> s_va t + s_vsize t \<le> layout_end ?va ss"
    if "t \<in> set ?rest" for t
    using ih that ge by (meson order_trans)
  then have "\<forall>t \<in> set ?rest. 4096 dvd s_va t \<and> va \<le> s_va t \<and> s_va t + s_vsize t \<le> layout_end ?va ss"
    by (meson add_leD1)
  with head tail ih Cons.prems show ?case by (simp add: s)
qed simp

lemma layout_names: "map s_name (layout va ptr ss) = map (\<lambda>(name, _). pack_s 8 (encode name)) ss"
  by (induction va ptr ss rule: layout.induct) auto

lemma layout_ptr: "t \<in> set (layout va ptr ss) \<Longrightarrow> ptr \<le> s_rptr t"
  by (induction va ptr ss rule: layout.induct) auto

lemma fold_max_ge: "x \<in> insert m (set xs) \<Longrightarrow> (x :: nat) \<le> fold max xs m"
proof (induction xs arbitrary: m x)
  case (Cons a xs)
  have "max a m \<le> fold max xs (max a m)" by (rule Cons.IH) simp
  moreover have "x \<le> max a m" if "x \<notin> set xs" using Cons.prems that by auto
  moreover have "x \<le> fold max xs (max a m)" if "x \<in> set xs" using that by (intro Cons.IH) simp
  ultimately show ?case by (cases "x \<in> set xs") (auto intro: le_trans)
qed simp

lemma last_end_ge:
  assumes "last_end data h = Inr le" and "t \<in> set (sections_of data h)"
  shows "s_va t + s_vsize t \<le> le"
proof -
  let ?f = "\<lambda>i. res_bind (unpack_le 4 data (sec_table h + 40 * i + 8)) (\<lambda>vsize.
              res_bind (unpack_le 4 data (sec_table h + 40 * i + 12)) (\<lambda>va. Inr (va + vsize)))"
  from assms(1) obtain ends where e: "res_map ?f [0..<nsec h] = Inr ends" and le: "le = fold max ends 0"
    by (auto simp: last_end_def)
  from assms(2) obtain i where i: "i < nsec h" and t: "t = section_at data (sec_table h + 40 * i)"
    by (auto simp: sections_of_def)
  from res_map_nth [OF e, of i] i have "?f i = Inr (ends ! i)"
    by (simp del: res_bind_eq_Inr unpack_le_eq_Inr)
  then have "ends ! i = s_va t + s_vsize t" by (auto simp: t section_at_def add.assoc)
  moreover have "ends ! i \<in> set ends" using res_map_length [OF e] i by simp
  ultimately show ?thesis unfolding le using fold_max_ge [of "ends ! i" 0 ends] by simp
qed

definition size_of_image :: "bytes \<Rightarrow> pe_header \<Rightarrow> nat" where
  "size_of_image data h = le_nat (py_slice data (opt h + 56) (opt h + 60))"

lemma add_sections_main:
  assumes "add_sections data secs = Inr out" and "wf_pe data"
  obtains h le where
    "read_header data = Inr h" "last_end data h = Inr le"
    "sec_table h + 40 * (nsec h + length secs) \<le> length data" "opt h = coff h + 20"
    "pe_sections out = Inr (sections_of data h @ layout (align le 4096) (align (length data) 512) secs)"
    "map (section_data out) (layout (align le 4096) (align (length data) 512) secs) = map snd secs"
    "size_of_image out h = layout_end (align le 4096) secs"
    "length data \<le> length out"
    "\<And>i. i < length data \<Longrightarrow> i \<notin> {coff h + 2, coff h + 3} \<Longrightarrow> i \<notin> {opt h + 56..<opt h + 60} \<Longrightarrow>
       i \<notin> {sec_table h + 40 * nsec h..<sec_table h + 40 * (nsec h + length secs)} \<Longrightarrow> out ! i = data ! i"
proof -
  obtain h le out1 where
    h: "read_header data = Inr h" and le: "last_end data h = Inr le" and
    wf: "68 \<le> coff h" "opt h = coff h + 20" "opt h + 60 \<le> sec_table h" and
    room: "sec_table h + 40 * (nsec h + length secs) \<le> length data" and
    pl: "place_sections (sec_table h) (nsec h) secs
       (data @ zeros (align (length data) 512 - length data)) (align le 4096)
       = Inr (out1, layout_end (align le 4096) secs)" and
    small: "nsec h + length secs < 65536" "layout_end (align le 4096) secs < 4294967296" and
    len1: "length data \<le> length out1" and
    out: "out = set_slice
       (set_slice out1 (coff h + 2) (coff h + 4) (le_bytes 2 (nsec h + length secs)))
       (opt h + 56) (opt h + 60) (le_bytes 4 (layout_end (align le 4096) secs))"
    by (rule add_sections_cases [OF assms]) blast
  let ?data = "data @ zeros (align (length data) 512 - length data)"
  let ?n = "nsec h + length secs"
  have ld: "length ?data = align (length data) 512" using align_ge [of 512 "length data"] by simp
  have room': "sec_table h + 40 * ?n \<le> length ?data" using room by simp
  note table = place_sections_table [OF pl room', unfolded ld]
  note frame = place_sections_frame [OF pl room']
  have "coff h + 4 \<le> opt h" "opt h + 60 \<le> length out1" using wf room len1 by simp_all
  note two = two_fields [OF this out]
  have same: "out ! i = out1 ! i"
    if "i < length out1" "i \<notin> {coff h + 2, coff h + 3}" "i \<notin> {opt h + 56..<opt h + 60}" for i
    using two(2) that by blast
  have keep: "out ! i = data ! i"
    if "i < length data" "i \<notin> {coff h + 2, coff h + 3}" "i \<notin> {opt h + 56..<opt h + 60}"
      "i \<notin> {sec_table h + 40 * nsec h..<sec_table h + 40 * ?n}" for i
  proof -
    have "out ! i = out1 ! i" using same [of i] that len1 by simp
    also have "\<dots> = ?data ! i" using frame that ld by auto
    finally show ?thesis using that by (simp add: nth_append)
  qed
  have keep_slice: "py_slice out a b = py_slice data a b"
    if "b \<le> length data" "{a..<b} \<inter> {coff h + 2, coff h + 3} = {}" "{a..<b} \<inter> {opt h + 56..<opt h + 60} = {}"
      "b \<le> sec_table h" for a b
  proof (rule slice_cong)
    fix i assume "a \<le> i" "i < b"
    then show "out ! i = data ! i" using that by (intro keep) auto
  qed (use that len1 two(1) in simp)
  have hdr: "read_header out = Inr (h\<lparr>nsec := ?n\<rparr>)"
  proof -
    define pe where "pe = le_nat (py_slice data 60 64)"
    from h obtain m where p: "h = \<lparr>coff = pe + 4, nsec = m, opt = pe + 24,
        sec_table = pe + 24 + le_nat (py_slice data (pe + 20) (pe + 22))\<rparr>"
      by (auto simp: read_header_def pe_def add.assoc add.commute [of 22])
    then have c: "coff h = pe + 4" by simp
    have "py_slice out 60 64 = py_slice data 60 64"
      using wf room c by (intro keep_slice) auto
    then have "le_nat (py_slice out 60 64) = pe" by (simp add: pe_def)
    moreover have "py_slice out (pe + 20) (pe + 22) = py_slice data (pe + 20) (pe + 22)"
      using wf room c by (intro keep_slice) auto
    moreover have "le_nat (py_slice out (pe + 6) (pe + 8)) = ?n" using two(3) small c by (simp add: add.assoc add.commute [of 6])
    moreover have "pe + 84 \<le> length out" using wf room len1 two(1) c by simp
    ultimately have "read_header out = Inr \<lparr>coff = pe + 4, nsec = ?n, opt = pe + 24,
        sec_table = pe + 24 + le_nat (py_slice data (pe + 20) (pe + 22))\<rparr>"
      using wf c by (simp add: read_header_def unpack_le_def add.assoc add.commute [of 6]
          add.commute [of 8] add.commute [of 22])
    then show ?thesis using p by simp
  qed
  have olds: "map (\<lambda>i. section_at out (sec_table h + 40 * i)) [0..<nsec h] = sections_of data h"
    unfolding sections_of_def
  proof (rule map_cong [OF refl])
    fix i assume "i \<in> set [0..<nsec h]"
    then show "section_at out (sec_table h + 40 * i) = section_at data (sec_table h + 40 * i)"
      using room wf len1 two(1) by (intro section_at_cong keep) auto
  qed
  have news: "map (\<lambda>j. section_at out (sec_table h + 40 * (nsec h + j))) [0..<length secs]
      = layout (align le 4096) (align (length data) 512) secs"
    unfolding conjunct1 [OF table, symmetric]
  proof (rule map_cong [OF refl])
    fix j assume "j \<in> set [0..<length secs]"
    then show "section_at out (sec_table h + 40 * (nsec h + j)) = section_at out1 (sec_table h + 40 * (nsec h + j))"
      using room wf len1 two(1) by (intro section_at_cong same) auto
  qed
  have "pe_sections out = Inr (sections_of data h @ layout (align le 4096) (align (length data) 512) secs)"
  proof -
    have "[nsec h..<?n] = map (\<lambda>j. nsec h + j) [0..<length secs]"
      by (rule nth_equalityI) auto
    then have "[0..<?n] = [0..<nsec h] @ map (\<lambda>j. nsec h + j) [0..<length secs]"
      using upt_add_eq_append [of 0 "nsec h" "length secs"] by (simp only: le0 simp_thms)
    then have "sections_of out (h\<lparr>nsec := ?n\<rparr>)
        = map (\<lambda>i. section_at out (sec_table h + 40 * i)) [0..<nsec h]
          @ map (\<lambda>j. section_at out (sec_table h + 40 * (nsec h + j))) [0..<length secs]"
      unfolding sections_of_def by (simp add: comp_def)
    then show ?thesis unfolding olds news by (simp add: pe_sections_def hdr)
  qed
  moreover have "map (section_data out) (layout (align le 4096) (align (length data) 512) secs) = map snd secs"
    unfolding conjunct2 [OF table, symmetric]
  proof (rule map_cong [OF refl])
    fix t assume "t \<in> set (layout (align le 4096) (align (length data) 512) secs)"
    then have "align (length data) 512 \<le> s_rptr t" by (rule layout_ptr)
    then have "length data \<le> s_rptr t" using align_ge [of 512 "length data"] by simp
    then show "section_data out t = section_data out1 t"
      unfolding section_data_def
      using room wf len1 two(1) by (intro slice_cong same) auto
  qed
  ultimately show thesis
    using that [OF h le room wf(2)] two(1,4) small len1 keep by (simp add: size_of_image_def)
qed

section \<open>Properties\<close>

text \<open>
  C18: \<open>add_sections\<close> on a well-formed image that succeeds leaves the old table entries as they were and
  appends one entry per requested section, under its name (NUL-padded to eight bytes), whose raw data
  in the output file is exactly the payload.
\<close>

theorem add_sections_table:
  assumes "wf_pe data" and "add_sections data secs = Inr out"
  shows "\<exists>olds news. pe_sections data = Inr olds \<and> pe_sections out = Inr (olds @ news) \<and>
           map s_name news = map (\<lambda>(name, _). pack_s 8 (encode name)) secs \<and>
           map (section_data out) news = map snd secs"
proof -
  obtain h le where h: "read_header data = Inr h" and
    t: "pe_sections out = Inr (sections_of data h @ layout (align le 4096) (align (length data) 512) secs)" and
    d: "map (section_data out) (layout (align le 4096) (align (length data) 512) secs) = map snd secs"
    by (rule add_sections_main [OF assms(2,1)]) blast
  have "pe_sections data = Inr (sections_of data h)" by (simp add: pe_sections_def h)
  then show ?thesis using t d layout_names by blast
qed

text \<open>
  C21: the new sections are mapped safely: each starts on a page boundary, at or above the end of every
  section the image already had; they do not overlap one another; and all of them end within the new
  \<open>SizeOfImage\<close>.
\<close>

theorem add_sections_addresses:
  assumes "wf_pe data" and "add_sections data secs = Inr out" and "read_header data = Inr h"
  shows "\<exists>olds news. pe_sections data = Inr olds \<and> pe_sections out = Inr (olds @ news) \<and>
           (\<forall>s \<in> set news. 4096 dvd s_va s \<and> (\<forall>t \<in> set olds. s_va t + s_vsize t \<le> s_va s) \<and>
              s_va s + s_vsize s \<le> size_of_image out h) \<and>
           sorted_wrt (\<lambda>s t. s_va s + s_vsize s \<le> s_va t) news"
proof -
  obtain h' le where h': "read_header data = Inr h'" and le: "last_end data h' = Inr le" and
    t: "pe_sections out = Inr (sections_of data h' @ layout (align le 4096) (align (length data) 512) secs)" and
    z: "size_of_image out h' = layout_end (align le 4096) secs"
    by (rule add_sections_main [OF assms(2,1)]) blast
  have hh: "h' = h" using h' assms(3) by simp
  have old: "pe_sections data = Inr (sections_of data h)" by (simp add: pe_sections_def assms(3))
  define news where "news = layout (align le 4096) (align (length data) 512) secs"
  have v: "(\<forall>s \<in> set news. 4096 dvd s_va s \<and> align le 4096 \<le> s_va s \<and>
        s_va s + s_vsize s \<le> layout_end (align le 4096) secs) \<and>
      sorted_wrt (\<lambda>s t. s_va s + s_vsize s \<le> s_va t) news"
    unfolding news_def by (rule layout_vas [OF align_dvd])
  have above: "s_va t + s_vsize t \<le> s_va s" if "s \<in> set news" "t \<in> set (sections_of data h)" for s t
  proof -
    have "s_va t + s_vsize t \<le> le" using last_end_ge [OF le, of t] that(2) hh by simp
    also have "\<dots> \<le> align le 4096" by (simp add: align_ge)
    also have "\<dots> \<le> s_va s" using v that(1) by blast
    finally show ?thesis .
  qed
  have new: "pe_sections out = Inr (sections_of data h @ news)" using t hh by (simp add: news_def)
  have z': "size_of_image out h = layout_end (align le 4096) secs" using z hh by simp
  show ?thesis
    by (rule exI [of _ "sections_of data h"], rule exI [of _ news])
      (use old new v above z' in auto)
qed

text \<open>
  C23: the rest of the file is not touched: every byte of the input keeps its value and its offset,
  except the two bytes of \<open>NumberOfSections\<close>, the four of \<open>SizeOfImage\<close> and the free header bytes
  the new entries take.
\<close>

theorem add_sections_frame:
  assumes "wf_pe data" and "add_sections data secs = Inr out" and "read_header data = Inr h"
    and "i < length data" and "i \<notin> {coff h + 2, coff h + 3}" and "i \<notin> {opt h + 56..<opt h + 60}"
    and "i \<notin> {sec_table h + 40 * nsec h..<sec_table h + 40 * (nsec h + length secs)}"
  shows "i < length out \<and> out ! i = data ! i"
proof -
  obtain h' where h': "read_header data = Inr h'" and len: "length data \<le> length out" and
    keep: "\<And>i. i < length data \<Longrightarrow> i \<notin> {coff h' + 2, coff h' + 3} \<Longrightarrow> i \<notin> {opt h' + 56..<opt h' + 60} \<Longrightarrow>
       i \<notin> {sec_table h' + 40 * nsec h'..<sec_table h' + 40 * (nsec h' + length secs)} \<Longrightarrow> out ! i = data ! i"
    by (rule add_sections_main [OF assms(2,1)]) blast
  have "h' = h" using h' assms(3) by simp
  with keep [of i] len assms(4-7) show ?thesis by simp
qed

text \<open>
  an image with a section that has no data in the file (\<open>PointerToRawData\<close> is 0, as for
  uninitialised data) is always refused with "no room in the header", however much room there is,
  because the 0 takes part in the minimum.
\<close>

lemma add_sections_bss_refused:
  assumes "read_header data = Inr h" and "sec_table h + 40 * nsec h \<le> length data"
    and "t \<in> set (sections_of data h)" and "s_rptr t = 0"
  shows "add_sections data secs = Inl (SystemExit 1)"
proof -
  define ptrs where "ptrs = map (\<lambda>i. s_rptr (section_at data (sec_table h + 40 * i))) [0..<nsec h]"
  have "res_map (\<lambda>i. unpack_le 4 data (sec_table h + 40 * i + 20)) [0..<nsec h] = Inr ptrs"
    unfolding ptrs_def by (rule res_map_all) (use assms(2) in \<open>auto simp: section_at_def add.assoc\<close>)
  moreover have zero: "0 \<in> set ptrs"
    using assms(3,4) by (auto simp: ptrs_def sections_of_def)
  then have "ptrs \<noteq> []" by auto
  moreover have "min_list ptrs = 0"
    using zero \<open>ptrs \<noteq> []\<close> by (metis min_list_Min Min_le finite_set le_zero_eq)
  ultimately have "raw_first data h = Inr 0" by (simp add: raw_first_def)
  moreover have "0 < sec_table h" using assms(1) by (auto simp: read_header_def)
  ultimately show ?thesis by (simp add: add_sections_def assms(1))
qed

subsection \<open>When it succeeds\<close>

definition raw_size :: "(string \<times> bytes) list \<Rightarrow> nat" where
  "raw_size ss = sum_list (map (\<lambda>(_, payload). align (length payload) 512) ss)"

lemma section_header_total:
  assumes "vsize < 4294967296" "va < 4294967296" "padded < 4294967296" "ptr < 4294967296"
  shows "\<exists>hdr. section_header name vsize va padded ptr = Inr hdr"
  using assms by (simp add: section_header_def pack_le_def)

lemma place_sections_total:
  assumes "layout_end va ss < 4294967296" "length out + raw_size ss < 4294967296"
    and "tab + 40 * (n + length ss) \<le> length out"
  shows "\<exists>r. place_sections tab n ss out va = Inr r"
  using assms
proof (induction ss arbitrary: n out va)
  case (Cons s ss)
  obtain name payload where s: "s = (name, payload)" by (cases s)
  let ?pad = "align (length payload) 512"
  have sum: "length out + ?pad + raw_size ss < 4294967296"
    using Cons.prems(2) by (simp add: s raw_size_def)
  have le: "length payload \<le> ?pad" by (simp add: align_ge)
  have "va \<le> align (va + length payload) 4096"
    using align_ge [of 4096 "va + length payload"] by simp
  then have va: "va < 4294967296"
    using Cons.prems(1) layout_end_ge [of "align (va + length payload) 4096" ss] by (simp add: s)
  obtain hdr where hdr: "section_header name (length payload) va ?pad (length out) = Inr hdr"
    using section_header_total [of "length payload" va ?pad "length out"] sum le va by fastforce
  define out1 where "out1 = set_slice (out @ payload @ zeros (?pad - length payload))
      (tab + 40 * n) (tab + 40 * n + 40) hdr"
  have "tab + 40 * n + 40 \<le> length out" using Cons.prems(3) by simp
  then have len: "length out1 = length out + ?pad"
    using place_step(1) [OF hdr _ out1_def] le by simp
  have "\<exists>r. place_sections tab (Suc n) ss out1 (align (va + length payload) 4096) = Inr r"
    by (rule Cons.IH) (use Cons.prems sum len in \<open>simp_all add: s\<close>)
  then show ?case by (simp add: s Let_def hdr out1_def)
qed simp

lemma add_sections_returns:
  assumes "read_header data = Inr h" and "raw_first data h = Inr first" and "last_end data h = Inr le"
    and "opt h + 60 \<le> sec_table h" and "first \<le> length data"
    and "sec_table h + 40 * (nsec h + length secs) \<le> first"
    and "nsec h + length secs < 65536" and "layout_end (align le 4096) secs < 4294967296"
    and "align (length data) 512 + raw_size secs < 4294967296"
  shows "\<exists>out. add_sections data secs = Inr out"
proof -
  let ?data = "data @ zeros (align (length data) 512 - length data)"
  have ld: "length ?data = align (length data) 512" using align_ge [of 512 "length data"] by simp
  have ge: "length data \<le> length ?data" by simp
  have room: "sec_table h + 40 * (nsec h + length secs) \<le> length ?data" using assms(5,6) ge by linarith
  obtain out1 va where
    p: "place_sections (sec_table h) (nsec h) secs ?data (align le 4096) = Inr (out1, va)"
  proof -
    have "length ?data + raw_size secs < 4294967296" unfolding ld by (rule assms(9))
    from place_sections_total [OF assms(8) this room] obtain r where
      "place_sections (sec_table h) (nsec h) secs ?data (align le 4096) = Inr r" ..
    then show thesis by (cases r) (auto intro: that)
  qed
  note fr = place_sections_frame [OF p room]
  have "coff h + 20 = opt h" using assms(1) by (auto simp: read_header_def)
  then have f: "coff h + 4 \<le> length out1" "opt h + 60 \<le> length out1"
    using fr assms(4) room by simp_all
  have j: "coff h + 4 = coff h + 2 + length (le_bytes 2 (nsec h + length secs))" by simp
  have l2: "length (set_slice out1 (coff h + 2) (coff h + 4) (le_bytes 2 (nsec h + length secs))) = length out1"
    by (rule length_set_slice [OF j f(1)])
  have c: "Suc (Suc (Suc (Suc (coff h)))) = coff h + 4" by simp
  let ?out2 = "set_slice out1 (coff h + 2) (coff h + 4) (le_bytes 2 (nsec h + length secs))"
  have two: "pack_into_le 2 out1 (coff h + 2) (nsec h + length secs) = Inr ?out2"
    using f assms(7) by (simp add: c)
  have va: "va < 4294967296" using fr assms(8) by simp
  have "add_sections data secs = pack_into_le 4 ?out2 (opt h + 56) va"
    by (simp only: add_sections_def assms(1,2,3,6) Let_def p two res_bind_simps require_simps prod.case)
  moreover have "opt h + 56 + 4 \<le> length ?out2" using f(2) unfolding l2 by simp
  ultimately show ?thesis using va unfolding pack_into_le_def pack_le_def
    by (simp only: if_True res_bind_simps) simp
qed

text \<open>
  C36: the script returns an image whenever the header has room for its two table entries and the
  counts, addresses and file offsets fit their fields: nothing else can make it fail.
\<close>

theorem uki_main_total:
  assumes "read_header src = Inr h" and "raw_first src h = Inr first" and "last_end src h = Inr le"
    and "opt h + 60 \<le> sec_table h" and "first \<le> length src"
    and "sec_table h + 40 * (nsec h + 2) \<le> first" and "nsec h + 2 < 65536"
    and "align (align (align le 4096 + length osrel) 4096 + length cmdline) 4096 < 4294967296"
    and "align (length src) 512 + align (length osrel) 512 + align (length cmdline) 512 < 4294967296"
  shows "\<exists>out. uki_main src osrel cmdline = Inr out"
  unfolding uki_main_def
  by (rule add_sections_returns [OF assms(1-5)]) (use assms(6-9) in \<open>simp_all add: raw_size_def\<close>)

subsection \<open>A small image\<close>

text \<open>One section of 8 bytes at virtual address 4096, its data at offset 272, after room for two entries.\<close>

definition tiny_pe :: bytes where
  "tiny_pe = zeros 60 @ le_bytes 4 64 @ zeros 6 @ le_bytes 2 1 @ zeros 12 @ le_bytes 2 60 @ zeros 62
     @ zeros 8 @ le_bytes 4 8 @ le_bytes 4 4096 @ le_bytes 4 8 @ le_bytes 4 272 @ zeros 16 @ zeros 92"

definition tiny_h :: pe_header where
  "tiny_h = \<lparr>coff = 68, nsec = 1, opt = 88, sec_table = 148\<rparr>"

lemma tiny_facts:
  "read_header tiny_pe = Inr tiny_h" "raw_first tiny_pe tiny_h = Inr 272"
  "last_end tiny_pe tiny_h = Inr 4104" "wf_pe tiny_pe" "length tiny_pe = 280"
  by (code_simp, code_simp, code_simp, code_simp, code_simp)

definition tiny_secs :: "(string \<times> bytes) list" where
  "tiny_secs = [(''.osrel'', [1, 2, 3]), (''.cmdline'', [4])]"

lemma tiny_returns: "\<exists>out. add_sections tiny_pe tiny_secs = Inr out"
  by (rule add_sections_returns [OF tiny_facts(1,2,3)])
    (simp_all add: tiny_facts tiny_h_def tiny_secs_def raw_size_def align_def)

theorem add_sections_table_witness:
  "\<exists>out olds news. add_sections tiny_pe tiny_secs = Inr out \<and> pe_sections tiny_pe = Inr olds \<and>
     pe_sections out = Inr (olds @ news) \<and> map (section_data out) news = [[1, 2, 3], [4]]"
proof -
  obtain out where out: "add_sections tiny_pe tiny_secs = Inr out" using tiny_returns ..
  from add_sections_table [OF tiny_facts(4) this] out show ?thesis
    by (auto simp: tiny_secs_def)
qed

theorem add_sections_addresses_witness:
  "\<exists>out news. add_sections tiny_pe tiny_secs = Inr out \<and> (\<forall>s \<in> set news. 4096 dvd s_va s) \<and>
     (\<exists>olds. pe_sections out = Inr (olds @ news))"
proof -
  obtain out where out: "add_sections tiny_pe tiny_secs = Inr out" using tiny_returns ..
  from add_sections_addresses [OF tiny_facts(4) this tiny_facts(1)] out show ?thesis by blast
qed

theorem add_sections_frame_witness:
  "\<exists>out. add_sections tiny_pe tiny_secs = Inr out \<and> 275 < length out \<and> out ! 275 = tiny_pe ! 275"
proof -
  obtain out where out: "add_sections tiny_pe tiny_secs = Inr out" using tiny_returns ..
  have "275 < length out \<and> out ! 275 = tiny_pe ! 275"
    by (rule add_sections_frame [OF tiny_facts(4) out tiny_facts(1)])
      (simp_all add: tiny_facts tiny_h_def tiny_secs_def)
  with out show ?thesis by blast
qed

theorem uki_main_total_witness: "\<exists>out. uki_main tiny_pe [65] [66, 67] = Inr out"
  by (rule uki_main_total [OF tiny_facts(1,2,3)]) (simp_all add: tiny_facts tiny_h_def align_def)

text \<open>The same image with its one section's raw pointer set to 0.\<close>

definition bss_pe :: bytes where
  "bss_pe = zeros 60 @ le_bytes 4 64 @ zeros 6 @ le_bytes 2 1 @ zeros 12 @ le_bytes 2 60 @ zeros 62
     @ zeros 8 @ le_bytes 4 8 @ le_bytes 4 4096 @ zeros 24 @ zeros 92"

lemma bss_facts:
  "read_header bss_pe = Inr tiny_h" "length bss_pe = 280"
  "list_ex (\<lambda>t. s_rptr t = 0) (sections_of bss_pe tiny_h)"
  by (code_simp, code_simp, code_simp)

theorem add_sections_bss_refused_witness: "add_sections bss_pe [] = Inl (SystemExit 1)"
proof -
  obtain t where "t \<in> set (sections_of bss_pe tiny_h)" "s_rptr t = 0"
    using bss_facts(3) by (auto simp: list_ex_iff)
  from add_sections_bss_refused [OF bss_facts(1) _ this] show ?thesis
    by (simp add: bss_facts tiny_h_def)
qed

end
