(* ===== verification/PyText.thy ===== *)
theory PyText
  imports PyPrelude "HOL-Library.AList"
begin

text \<open>
  Python's text and container methods, as the scripts use them: \<open>strip\<close>, \<open>split\<close>, iteration over
  the lines of a file, \<open>in\<close> on strings, \<open>join\<close>, \<open>int(s, base)\<close>, \<open>%d\<close>, \<open>%x\<close>, dictionaries as
  association lists in insertion order, and slices with negative bounds.
\<close>

section \<open>Characters\<close>

abbreviation nl :: char where "nl \<equiv> CHR 0x0A"
abbreviation tab :: char where "tab \<equiv> CHR 0x09"
abbreviation dquote :: char where "dquote \<equiv> CHR 0x22"
abbreviation bslash :: char where "bslash \<equiv> CHR 0x5C"

text \<open>\<open>str.isspace\<close> on Latin-1, which is also the class \<open>\s\<close> of \<open>re\<close>.\<close>

definition py_space :: "char \<Rightarrow> bool" where
  "py_space c \<longleftrightarrow> (of_char c :: nat) \<in> set [9, 10, 11, 12, 13, 28, 29, 30, 31, 32, 133, 160]"

definition is_digit :: "char \<Rightarrow> bool" where
  "is_digit c \<longleftrightarrow> 48 \<le> (of_char c :: nat) \<and> (of_char c :: nat) \<le> 57"

section \<open>Stripping and splitting\<close>

definition rstrip_of :: "(char \<Rightarrow> bool) \<Rightarrow> string \<Rightarrow> string" where
  "rstrip_of P s = rev (dropWhile P (rev s))"

definition lstrip_of :: "(char \<Rightarrow> bool) \<Rightarrow> string \<Rightarrow> string" where
  "lstrip_of P s = dropWhile P s"

definition strip :: "string \<Rightarrow> string" where
  "strip s = rstrip_of py_space (lstrip_of py_space s)"

text \<open>\<open>s.split(c)\<close>, \<open>s.split(c, n)\<close>, \<open>s.partition(c)\<close> for a one-character separator.\<close>

fun split_on :: "char \<Rightarrow> string \<Rightarrow> string list" where
  "split_on c [] = [[]]"
| "split_on c (x # xs) =
     (if x = c then [] # split_on c xs
      else (case split_on c xs of [] \<Rightarrow> [[x]] | w # ws \<Rightarrow> (x # w) # ws))"

fun split_max :: "char \<Rightarrow> nat \<Rightarrow> string \<Rightarrow> string list" where
  "split_max c 0 s = [s]"
| "split_max c (Suc n) s =
     (case dropWhile (\<lambda>x. x \<noteq> c) s of
        [] \<Rightarrow> [s]
      | _ # rest \<Rightarrow> takeWhile (\<lambda>x. x \<noteq> c) s # split_max c n rest)"

definition partition_at :: "char \<Rightarrow> string \<Rightarrow> string \<times> bool \<times> string" where
  "partition_at c s =
     (case dropWhile (\<lambda>x. x \<noteq> c) s of
        [] \<Rightarrow> (s, False, [])
      | _ # rest \<Rightarrow> (takeWhile (\<lambda>x. x \<noteq> c) s, True, rest))"

text \<open>\<open>s.split()\<close>: the runs of non-space characters.\<close>

fun split_ws_aux :: "string \<Rightarrow> string \<Rightarrow> string list" where
  "split_ws_aux w [] = (if w = [] then [] else [rev w])"
| "split_ws_aux w (x # xs) =
     (if py_space x then (if w = [] then split_ws_aux [] xs else rev w # split_ws_aux [] xs)
      else split_ws_aux (x # w) xs)"

definition split_ws :: "string \<Rightarrow> string list" where
  "split_ws s = split_ws_aux [] s"

text \<open>\<open>for line in open(f)\<close>: each line with its newline; a last line without one is kept as it is.\<close>

fun file_lines :: "string \<Rightarrow> string list" where
  "file_lines [] = []"
| "file_lines (x # xs) =
     (if x = nl then [nl] # file_lines xs
      else (case file_lines xs of
              [] \<Rightarrow> [[x]]
            | l # ls \<Rightarrow> (x # l) # ls))"

text \<open>\<open>s.splitlines()\<close>: also splits at the other line boundaries; CR LF is one boundary.\<close>

definition line_sep :: "char \<Rightarrow> bool" where
  "line_sep c \<longleftrightarrow> (of_char c :: nat) \<in> set [10, 11, 12, 13, 28, 29, 30, 133]"

fun splitlines_aux :: "string \<Rightarrow> string \<Rightarrow> string list" where
  "splitlines_aux w [] = (if w = [] then [] else [rev w])"
| "splitlines_aux w (x # xs) =
     (if x = CHR 0x0D then
        (case xs of
           y # ys \<Rightarrow> if y = nl then rev w # splitlines_aux [] ys else rev w # splitlines_aux [] xs
         | [] \<Rightarrow> rev w # splitlines_aux [] xs)
      else if line_sep x then rev w # splitlines_aux [] xs
      else splitlines_aux (x # w) xs)"

definition splitlines :: "string \<Rightarrow> string list" where
  "splitlines s = splitlines_aux [] s"

definition starts_with :: "'a list \<Rightarrow> 'a list \<Rightarrow> bool" where
  "starts_with p s \<longleftrightarrow> take (length p) s = p"

text \<open>\<open>p in s\<close> on strings and byte strings.\<close>

fun contains :: "'a list \<Rightarrow> 'a list \<Rightarrow> bool" where
  "contains p [] = (p = [])"
| "contains p (x # xs) = (starts_with p (x # xs) \<or> contains p xs)"

fun join :: "'a list \<Rightarrow> 'a list list \<Rightarrow> 'a list" where
  "join sep [] = []"
| "join sep [x] = x"
| "join sep (x # y # zs) = x @ sep @ join sep (y # zs)"

text \<open>\<open>s.replace(c, r)\<close> for a one-character \<open>c\<close>.\<close>

definition replace_char :: "char \<Rightarrow> string \<Rightarrow> string \<Rightarrow> string" where
  "replace_char c r s = concat (map (\<lambda>x. if x = c then r else [x]) s)"

section \<open>Numbers\<close>

definition digit_val :: "nat \<Rightarrow> char \<Rightarrow> nat option" where
  "digit_val base c =
     (let n = of_char c :: nat;
          d = (if 48 \<le> n \<and> n \<le> 57 then Some (n - 48)
               else if 97 \<le> n \<and> n \<le> 122 then Some (n - 87)
               else if 65 \<le> n \<and> n \<le> 90 then Some (n - 55) else None)
      in case d of None \<Rightarrow> None | Some v \<Rightarrow> if v < base then Some v else None)"

text \<open>Digits with single underscores between them; \<open>ok\<close> says that the last character was a digit.\<close>

fun digits_val :: "nat \<Rightarrow> nat \<Rightarrow> bool \<Rightarrow> string \<Rightarrow> nat option" where
  "digits_val base acc ok [] = (if ok then Some acc else None)"
| "digits_val base acc ok (c # cs) =
     (if c = CHR ''_'' then (if ok then digits_val base acc False cs else None)
      else (case digit_val base c of
              None \<Rightarrow> None
            | Some d \<Rightarrow> digits_val base (acc * base + d) True cs))"

definition parse_nat :: "nat \<Rightarrow> string \<Rightarrow> nat option" where
  "parse_nat base s =
     (if base = 16 \<and> (starts_with ''0x'' s \<or> starts_with ''0X'' s)
      then (case drop 2 s of
              [] \<Rightarrow> None
            | c # cs \<Rightarrow> digits_val base 0 False (if c = CHR ''_'' then cs else c # cs))
      else digits_val base 0 False s)"

text \<open>\<open>int(s, base)\<close> for base 10 and 16; \<open>ValueError\<close> on anything else.\<close>

definition py_int :: "nat \<Rightarrow> string \<Rightarrow> int res" where
  "py_int base s =
     (let t = strip s;
          r = (case t of
                 [] \<Rightarrow> None
               | c # cs \<Rightarrow>
                   if c = CHR ''-'' then map_option (\<lambda>n. - int n) (parse_nat base cs)
                   else if c = CHR ''+'' then map_option int (parse_nat base cs)
                   else map_option int (parse_nat base t))
      in case r of None \<Rightarrow> Inl ValueError | Some v \<Rightarrow> Inr v)"

text \<open>\<open>%d\<close>, \<open>%x\<close> and \<open>%X\<close> of a non-negative number.\<close>

definition digit_char :: "nat \<Rightarrow> nat \<Rightarrow> char" where
  "digit_char alpha d = char_of (if d < 10 then 48 + d else alpha + (d - 10))"

fun digits_of :: "nat \<Rightarrow> nat \<Rightarrow> nat \<Rightarrow> string" where
  "digits_of alpha base n =
     (if base \<le> 1 \<or> n < base then [digit_char alpha n]
      else digits_of alpha base (n div base) @ [digit_char alpha (n mod base)])"

declare digits_of.simps [simp del]

abbreviation dec :: "nat \<Rightarrow> string" where "dec n \<equiv> digits_of 97 10 n"
abbreviation hex :: "nat \<Rightarrow> string" where "hex n \<equiv> digits_of 97 16 n"
abbreviation heX :: "nat \<Rightarrow> string" where "heX n \<equiv> digits_of 65 16 n"

definition dec_int :: "int \<Rightarrow> string" where
  "dec_int i = (if i < 0 then CHR ''-'' # dec (nat (- i)) else dec (nat i))"

section \<open>Dictionaries\<close>

text \<open>
  A dictionary is an association list in insertion order: storing to a present key keeps its place,
  storing to a new key appends.  \<open>map_of\<close> is the lookup.
\<close>

type_synonym ('k, 'v) dict = "('k \<times> 'v) list"

abbreviation dict_put :: "'k \<Rightarrow> 'v \<Rightarrow> ('k, 'v) dict \<Rightarrow> ('k, 'v) dict" where
  "dict_put k v d \<equiv> AList.update k v d"

definition dict_get :: "('k, 'v) dict \<Rightarrow> 'k \<Rightarrow> 'v \<Rightarrow> 'v" where
  "dict_get d k v = (case map_of d k of None \<Rightarrow> v | Some w \<Rightarrow> w)"

definition keys :: "('k, 'v) dict \<Rightarrow> 'k list" where
  "keys d = map fst d"

definition has_key :: "('k, 'v) dict \<Rightarrow> 'k \<Rightarrow> bool" where
  "has_key d k \<longleftrightarrow> k \<in> set (keys d)"

section \<open>Slices with negative bounds\<close>

definition clamp_index :: "nat \<Rightarrow> int \<Rightarrow> nat" where
  "clamp_index n i = (if i < 0 then nat (int n + i) else min (nat i) n)"

definition int_slice :: "'a list \<Rightarrow> int \<Rightarrow> int \<Rightarrow> 'a list" where
  "int_slice xs i j = py_slice xs (clamp_index (length xs) i) (clamp_index (length xs) j)"

lemma int_slice_nat [simp]: "int_slice xs (int i) (int j) = py_slice xs i j"
  by (cases "i \<le> length xs"; cases "j \<le> length xs")
    (simp_all add: int_slice_def clamp_index_def py_slice_def)

section \<open>Lemmas\<close>

lemma map_of_dict_put [simp]: "map_of (dict_put k v d) = (map_of d)(k \<mapsto> v)"
  by (rule ext) (simp add: update_conv')

lemma dict_get_put [simp]: "dict_get (dict_put k v d) k' w = (if k' = k then v else dict_get d k' w)"
  by (simp add: dict_get_def)

lemma dict_put_distinct: "distinct (keys d) \<Longrightarrow> distinct (keys (dict_put k v d))"
  by (simp add: keys_def distinct_update)

lemma keys_dict_put: "set (keys (dict_put k v d)) = insert k (set (keys d))"
  by (auto simp: keys_def update_keys)

lemma dict_put_new: "k \<notin> set (keys d) \<Longrightarrow> dict_put k v d = d @ [(k, v)]"
  by (induction d) (auto simp: keys_def)

lemma has_key_map_of: "has_key d k \<longleftrightarrow> map_of d k \<noteq> None"
  by (simp add: has_key_def keys_def map_of_eq_None_iff)

lemma concat_file_lines: "concat (file_lines s) = s"
  by (induction s rule: file_lines.induct) (auto split: list.splits)

lemma join_split_on: "join [c] (split_on c s) = s"
proof (induction c s rule: split_on.induct)
  case (2 c x xs)
  obtain w ws where "split_on c xs = w # ws"
    by (cases "split_on c xs"; cases xs) (auto split: list.splits if_splits)
  with 2 show ?case by (cases ws) auto
qed simp

lemma split_on_no_sep: "w \<in> set (split_on c s) \<Longrightarrow> c \<notin> set w"
  by (induction c s arbitrary: w rule: split_on.induct) (auto split: list.splits if_splits)

lemma contains_append: "contains p s \<longleftrightarrow> (\<exists>a b. s = a @ p @ b)"
proof (induction s)
  case (Cons x xs)
  have "starts_with p (x # xs) \<longleftrightarrow> (\<exists>b. x # xs = p @ b)"
    unfolding starts_with_def by (metis append_eq_conv_conj append_take_drop_id)
  then show ?case using Cons by (auto simp: Cons_eq_append_conv)
qed simp

lemma contains_prepend: "contains p s \<Longrightarrow> contains p (a @ s @ b)"
  unfolding contains_append by (metis append.assoc)

lemma digit_val_char:
  assumes "d < base" "base \<le> 16" "alpha = 97 \<or> alpha = 65"
  shows "digit_val base (digit_char alpha d) = Some d" and "digit_char alpha d \<noteq> CHR ''_''"
proof -
  have n: "(of_char (digit_char alpha d) :: nat) = (if d < 10 then 48 + d else alpha + (d - 10))"
    using assms by (auto simp: digit_char_def)
  show "digit_val base (digit_char alpha d) = Some d"
    unfolding digit_val_def n using assms by (auto simp: Let_def)
  have "(of_char (digit_char alpha d) :: nat) \<noteq> of_char (CHR ''_'')"
    unfolding n using assms by auto
  then show "digit_char alpha d \<noteq> CHR ''_''" by auto
qed

lemma digits_val_digits_of:
  assumes "2 \<le> base" "base \<le> 16" "alpha = 97 \<or> alpha = 65"
  shows "digits_val base acc ok (digits_of alpha base n @ s)
       = digits_val base (acc * base ^ length (digits_of alpha base n) + n) True s"
  using assms
proof (induction alpha base n arbitrary: acc ok s rule: digits_of.induct)
  case (1 alpha base n)
  show ?case
  proof (cases "n < base")
    case True
    then show ?thesis using "1.prems" digit_val_char [of n base alpha]
      by (simp add: digits_of.simps [of alpha base n])
  next
    case False
    define q where "q = digits_of alpha base (n div base)"
    have q: "digits_of alpha base n = q @ [digit_char alpha (n mod base)]"
      using False "1.prems" by (simp add: digits_of.simps [of alpha base n] q_def)
    have m: "n mod base < base" using "1.prems" by simp
    have "digits_val base acc ok (q @ (digit_char alpha (n mod base) # s))
        = digits_val base (acc * base ^ length q + n div base) True (digit_char alpha (n mod base) # s)"
      unfolding q_def using "1.IH" False "1.prems" by simp
    also have "\<dots> = digits_val base ((acc * base ^ length q + n div base) * base + n mod base) True s"
      using digit_val_char [OF m "1.prems"(2,3)] by simp
    also have "(acc * base ^ length q + n div base) * base + n mod base = acc * base ^ Suc (length q) + n"
      by (simp add: algebra_simps)
    finally show ?thesis by (simp add: q)
  qed
qed

lemma digits_of_inject:
  assumes "2 \<le> base" "base \<le> 16" "alpha = 97 \<or> alpha = 65"
    and "digits_of alpha base m = digits_of alpha base n"
  shows "m = n"
  using digits_val_digits_of [OF assms(1-3), of 0 False m "[]"]
    digits_val_digits_of [OF assms(1-3), of 0 False n "[]"] assms(4) by simp

lemma dec_inject [simp]: "dec m = dec n \<longleftrightarrow> m = n"
  using digits_of_inject [of 10 97 m n] by auto

lemma set_digits_of:
  assumes "2 \<le> base" "base \<le> 16"
  shows "set (digits_of alpha base n) \<subseteq> digit_char alpha ` {..<base}"
  using assms
proof (induction alpha base n rule: digits_of.induct)
  case (1 alpha base n)
  then show ?case by (subst digits_of.simps) auto
qed

lemma is_digit_char: "d < 10 \<Longrightarrow> is_digit (digit_char 97 d)"
  by (auto simp: is_digit_def digit_char_def)

lemma dec_digits: "list_all is_digit (dec n)"
  using set_digits_of [of 10 97 n] is_digit_char by (auto simp: list_all_iff)

lemma dec_not_Nil: "dec n \<noteq> []"
  by (subst digits_of.simps) simp

lemma is_digit_not: "is_digit c \<Longrightarrow> \<not> py_space c" "is_digit c \<Longrightarrow> c \<noteq> nl" "is_digit c \<Longrightarrow> c \<noteq> CHR '' ''"
    "is_digit c \<Longrightarrow> c \<noteq> CHR ''-''" "is_digit c \<Longrightarrow> c \<noteq> CHR ''+''"
  by (auto simp: is_digit_def py_space_def)

lemma strip_id: "s \<noteq> [] \<Longrightarrow> \<not> py_space (hd s) \<Longrightarrow> \<not> py_space (last s) \<Longrightarrow> strip s = s"
proof (cases s rule: rev_cases)
  case (snoc t c)
  assume s: "s \<noteq> []" "\<not> py_space (hd s)" "\<not> py_space (last s)"
  then have "dropWhile py_space s = s" by (cases s) auto
  then show ?thesis using s(3) snoc by (simp add: strip_def rstrip_of_def lstrip_of_def)
qed simp

lemma dec_ends: "is_digit (hd (dec n))" "is_digit (last (dec n))"
  using dec_digits [of n] dec_not_Nil [of n] by (simp_all add: list_all_iff)

lemma py_int_dec_int [simp]: "py_int 10 (dec_int i) = Inr i"
proof -
  have parse: "parse_nat 10 (dec n) = Some n" for n
    using digits_val_digits_of [of 10 97 0 False n "[]"] by (simp add: parse_nat_def)
  have st: "strip (dec_int i) = dec_int i"
    using dec_ends is_digit_not(1) dec_not_Nil by (intro strip_id) (auto simp: dec_int_def py_space_def)
  show ?thesis
  proof (cases "i < 0")
    case True
    then show ?thesis using st parse [of "nat (- i)"] by (simp add: py_int_def dec_int_def)
  next
    case False
    obtain c cs where c: "dec (nat i) = c # cs" using dec_not_Nil by (metis list.exhaust)
    then have "c \<noteq> CHR ''-''" "c \<noteq> CHR ''+''" using dec_ends(1) [of "nat i"] is_digit_not(4,5) by auto
    then show ?thesis using st parse [of "nat i"] False c by (simp add: py_int_def dec_int_def)
  qed
qed

lemma dec_int_chars: "c \<in> set (dec_int i) \<Longrightarrow> c \<noteq> nl \<and> c \<noteq> CHR '' ''"
  using dec_digits is_digit_not(2,3) by (auto simp: dec_int_def list_all_iff split: if_splits)

text \<open>\<open>int(s)\<close> of a non-empty run of digits.\<close>

definition dec_val :: "string \<Rightarrow> nat" where
  "dec_val ds = (case digits_val 10 0 False ds of Some n \<Rightarrow> n | None \<Rightarrow> 0)"

lemma dec_val_dec [simp]: "dec_val (dec n) = n"
  using digits_val_digits_of [of 10 97 0 False n "[]"] by (simp add: dec_val_def)

text \<open>Padding and signs of \<open>%\<close>-formats: \<open>%-40s\<close>, \<open>%7d\<close>, \<open>%+d\<close>.\<close>

definition ljust :: "nat \<Rightarrow> string \<Rightarrow> string" where
  "ljust n s = s @ replicate (n - length s) CHR '' ''"

definition rjust :: "nat \<Rightarrow> string \<Rightarrow> string" where
  "rjust n s = replicate (n - length s) CHR '' '' @ s"

definition plus_int :: "int \<Rightarrow> string" where
  "plus_int i = (if i < 0 then dec_int i else CHR ''+'' # dec_int i)"

text \<open>The definitions that \<open>simp\<close> unfolds to evaluate the text methods on a literal.\<close>

lemmas text_eval =
  py_int_def strip_def rstrip_of_def lstrip_of_def py_space_def parse_nat_def digit_val_def
  starts_with_def

end
