(* ===== verification/SymMap.thy ===== *)
theory SymMap
  imports PyText
begin

text \<open>
  The symbol-map reader that \<open>scripts/fndiff.py\<close> and \<open>scripts/reloproof.py\<close> share: rows
  \<open>vaddr-hex TAB size TAB native-offset TAB name\<close>, comment lines and short lines skipped, rows
  sorted by native offset, and repeated names made unique by an occurrence number.
\<close>

section \<open>Rows\<close>

record sym_row =
  r_size :: int
  r_off :: int
  r_name :: string

definition sym_fields :: "string \<Rightarrow> string list list" where
  "sym_fields text =
     filter (\<lambda>f. 4 \<le> length f)
       (map (\<lambda>ln. split_on tab (rstrip_of (\<lambda>c. c = nl) ln))
         (filter (\<lambda>ln. \<not> starts_with ''#'' ln) (file_lines text)))"

text \<open>\<open>fndiff.load\<close> also reads the address column, so a bad address is an error there only.\<close>

definition sym_row_of :: "bool \<Rightarrow> string list \<Rightarrow> sym_row res" where
  "sym_row_of with_vaddr f =
     res_bind (if with_vaddr then py_int 16 (f ! 0) else Inr 0) (\<lambda>_.
     res_bind (py_int 10 (f ! 1)) (\<lambda>sz.
     res_bind (py_int 10 (f ! 2)) (\<lambda>off.
       Inr \<lparr>r_size = sz, r_off = off, r_name = f ! 3\<rparr>)))"

definition sym_rows :: "bool \<Rightarrow> string \<Rightarrow> sym_row list res" where
  "sym_rows with_vaddr text =
     res_bind (res_map (sym_row_of with_vaddr) (sym_fields text)) (\<lambda>rows.
       Inr (sort_key r_off rows))"

section \<open>Unique names\<close>

text \<open>\<open>key = name if seen[name] == 1 else "%s#%d" % (name, seen[name])\<close>.\<close>

definition dedup_key :: "string \<Rightarrow> nat \<Rightarrow> string" where
  "dedup_key name n = (if n = 1 then name else name @ ''#'' @ dec n)"

fun number_keys :: "(string, nat) dict \<Rightarrow> string list \<Rightarrow> string list" where
  "number_keys seen [] = []"
| "number_keys seen (name # names) =
     (let n = dict_get seen name 0 + 1
      in dedup_key name n # number_keys (dict_put name n seen) names)"

definition row_keys :: "sym_row list \<Rightarrow> string list" where
  "row_keys rows = number_keys [] (map r_name rows)"

text \<open>The loop \<open>out[key] = value\<close> over numbered rows.\<close>

definition put_all :: "('k \<times> 'v) list \<Rightarrow> ('k, 'v) dict \<Rightarrow> ('k, 'v) dict" where
  "put_all kvs d = fold (\<lambda>(k, v) d. dict_put k v d) kvs d"

section \<open>Lemmas\<close>

lemma put_all_Cons [simp]: "put_all ((k, v) # kvs) d = put_all kvs (dict_put k v d)"
  and put_all_Nil [simp]: "put_all [] d = d"
  by (simp_all add: put_all_def)

lemma distinct_put_all: "distinct (keys d) \<Longrightarrow> distinct (keys (put_all kvs d))"
  by (induction kvs arbitrary: d) (auto simp: dict_put_distinct)

lemma set_keys_put_all: "set (keys (put_all kvs d)) = set (keys d) \<union> fst ` set kvs"
proof (induction kvs arbitrary: d)
  case (Cons kv kvs)
  obtain k v where "kv = (k, v)" by (cases kv)
  then show ?case using Cons by (simp add: keys_dict_put)
qed simp

lemma put_all_distinct:
  "distinct (map fst kvs) \<Longrightarrow> set (map fst kvs) \<inter> set (keys d) = {} \<Longrightarrow> put_all kvs d = d @ kvs"
proof (induction kvs arbitrary: d)
  case (Cons kv kvs)
  obtain k v where kv: "kv = (k, v)" by (cases kv)
  have "put_all (kv # kvs) d = put_all kvs (d @ [(k, v)])"
    using Cons.prems(2) by (simp add: kv dict_put_new)
  also have "\<dots> = (d @ [(k, v)]) @ kvs"
    using Cons.prems by (intro Cons.IH) (auto simp: kv keys_def)
  finally show ?case by (simp add: kv)
qed simp

lemma length_number_keys [simp]: "length (number_keys seen names) = length names"
  by (induction seen names rule: number_keys.induct) (auto simp: Let_def)

lemma number_keys_nth: "i < length names \<Longrightarrow> \<exists>n. number_keys seen names ! i = dedup_key (names ! i) n"
proof (induction seen names arbitrary: i rule: number_keys.induct)
  case (2 seen name names)
  then show ?case by (cases i) (auto simp: Let_def)
qed simp

text \<open>Without \<open>#\<close> in the names, an occurrence number can be read off a key.\<close>

lemma dedup_key_inject:
  assumes "CHR ''#'' \<notin> set a" "CHR ''#'' \<notin> set b" "0 < m" "0 < n" "dedup_key a m = dedup_key b n"
  shows "a = b \<and> m = n"
proof -
  have t: "takeWhile (\<lambda>c. c \<noteq> CHR ''#'') (dedup_key x k) = x" if "CHR ''#'' \<notin> set x" for x k
    using that by (cases "k = 1") (auto simp: dedup_key_def takeWhile_append takeWhile_eq_all_conv)
  have "a = b" using t [OF assms(1), of m] t [OF assms(2), of n] assms(5) by simp
  then show ?thesis using assms(5) by (auto simp: dedup_key_def split: if_splits)
qed

lemma number_keys_later:
  "k \<in> set (number_keys seen names) \<Longrightarrow>
     \<exists>name n. name \<in> set names \<and> k = dedup_key name n \<and> dict_get seen name 0 < n"
proof (induction seen names rule: number_keys.induct)
  case (2 seen name names)
  show ?case
  proof (cases "k = dedup_key name (dict_get seen name 0 + 1)")
    case True
    then show ?thesis by (intro exI [of _ name] exI [of _ "dict_get seen name 0 + 1"]) simp
  next
    case False
    with "2.prems" have "k \<in> set (number_keys (dict_put name (dict_get seen name 0 + 1) seen) names)"
      by (simp add: Let_def)
    from "2.IH" [OF refl this] obtain a n where
      "a \<in> set names" "k = dedup_key a n" "dict_get (dict_put name (dict_get seen name 0 + 1) seen) a 0 < n"
      by blast
    then show ?thesis
      by (intro exI [of _ a] exI [of _ n]) (auto split: if_splits)
  qed
qed simp

lemma distinct_number_keys:
  "(\<And>name. name \<in> set names \<Longrightarrow> CHR ''#'' \<notin> set name) \<Longrightarrow> distinct (number_keys seen names)"
proof (induction seen names rule: number_keys.induct)
  case (2 seen name names)
  let ?n = "dict_get seen name 0 + 1"
  have "dedup_key name ?n \<notin> set (number_keys (dict_put name ?n seen) names)"
  proof
    assume "dedup_key name ?n \<in> set (number_keys (dict_put name ?n seen) names)"
    from number_keys_later [OF this] obtain a n where
      a: "a \<in> set names" "dedup_key name ?n = dedup_key a n" "dict_get (dict_put name ?n seen) a 0 < n"
      by blast
    have "name = a \<and> ?n = n"
      by (rule dedup_key_inject) (use a "2.prems" in auto)
    then show False using a(3) by auto
  qed
  then show ?case using "2.IH" [OF refl] "2.prems" by (simp add: Let_def)
qed simp

lemma length_sym_rows: "sym_rows v text = Inr rows \<Longrightarrow> length rows = length (sym_fields text)"
  by (auto simp: sym_rows_def res_map_length)

lemma sorted_sym_rows: "sym_rows v text = Inr rows \<Longrightarrow> sorted (map r_off rows)"
  by (auto simp: sym_rows_def)

end
