(* ===== verification/FnDiff.thy ===== *)
theory FnDiff
  imports SymMap
begin

text \<open>
  \<open>scripts/fndiff.py\<close>: a per-function comparison of the native code of two builds.  \<open>fn_load\<close> is the
  script's \<open>load\<close>, \<open>strip_pad\<close> its function of that name, \<open>fn_compare\<close> the body of \<open>main\<close> as a
  report of the numbers it prints, \<open>fn_lines\<close> the printed lines (but for the two lines that print a
  Python list) and \<open>fn_main\<close> the exit status.
\<close>

section \<open>Loading a build\<close>

type_synonym fn_entry = "int \<times> int \<times> bytes"

definition fn_load :: "string \<Rightarrow> bytes \<Rightarrow> ((string, fn_entry) dict \<times> bytes) res" where
  "fn_load symmap code =
     res_bind (sym_rows True symmap) (\<lambda>rows.
       Inr (put_all (zip (row_keys rows)
              (map (\<lambda>r. (r_off r, r_size r, int_slice code (r_off r) (r_off r + r_size r))) rows)) [],
            code))"

definition fn_get :: "(string, fn_entry) dict \<Rightarrow> string \<Rightarrow> fn_entry" where
  "fn_get d k = dict_get d k (0, 0, [])"

definition fn_size :: "(string, fn_entry) dict \<Rightarrow> string \<Rightarrow> int" where
  "fn_size d k = fst (snd (fn_get d k))"

definition fn_code :: "(string, fn_entry) dict \<Rightarrow> string \<Rightarrow> bytes" where
  "fn_code d k = snd (snd (fn_get d k))"

section \<open>Alignment padding\<close>

definition aa64_nop :: bytes where
  "aa64_nop = [0x1f, 0x20, 0x03, 0xd5]"

function strip_nop :: "bytes \<Rightarrow> bytes" where
  "strip_nop b = (if 4 \<le> length b \<and> last_n 4 b = aa64_nop then strip_nop (take (length b - 4) b) else b)"
  by pat_completeness auto
termination
  by (relation "measure length") auto

function strip_90 :: "bytes \<Rightarrow> bytes" where
  "strip_90 b = (if b \<noteq> [] \<and> last b = 0x90 then strip_90 (butlast b) else b)"
  by pat_completeness auto
termination
  by (relation "measure length") auto

declare strip_nop.simps [simp del] strip_90.simps [simp del]

definition strip_pad :: "bytes \<Rightarrow> string \<Rightarrow> bytes" where
  "strip_pad b arch = (if arch = ''aa64'' then strip_nop b else strip_90 b)"

section \<open>The comparison\<close>

datatype fn_verdict = Same | DifferSymname | Differ

definition fn_classify ::
    "string \<Rightarrow> (string, fn_entry) dict \<Rightarrow> (string, fn_entry) dict \<Rightarrow> string \<Rightarrow> fn_verdict" where
  "fn_classify arch base new k =
     (if strip_pad (fn_code base k) arch = strip_pad (fn_code new k) arch then Same
      else if contains ''SYM-NAME-AUTO'' k \<or> contains ''SYM-NAME'' k then DifferSymname
      else Differ)"

record fn_report =
  f_base :: nat
  f_new :: nat
  f_common :: "string list"
  f_only_base :: "string list"
  f_only_new :: "string list"
  f_same :: nat
  f_symname :: "(string \<times> nat \<times> nat) list"
  f_differ :: "(string \<times> nat \<times> nat) list"
  f_bcode :: nat
  f_ncode :: nat
  f_total_delta :: int
  f_sym_delta :: int
  f_add_new :: int
  f_rm_base :: int
  f_other_delta :: int
  f_acct :: int

definition fn_compare ::
    "string \<Rightarrow> (string, fn_entry) dict \<Rightarrow> bytes \<Rightarrow> (string, fn_entry) dict \<Rightarrow> bytes \<Rightarrow> fn_report" where
  "fn_compare arch base bcode new ncode =
     (let common = sort (filter (has_key new) (keys base));
          only_base = filter (\<lambda>k. \<not> has_key new k) (keys base);
          only_new = filter (\<lambda>k. \<not> has_key base k) (keys new);
          row = (\<lambda>k. (k, length (strip_pad (fn_code base k) arch), length (strip_pad (fn_code new k) arch)));
          symname = map row (filter (\<lambda>k. fn_classify arch base new k = DifferSymname) common);
          differ = map row (filter (\<lambda>k. fn_classify arch base new k = Differ) common);
          sym_delta = sum_list (map (\<lambda>(k, _, _). fn_size new k - fn_size base k) symname);
          add_new = sum_list (map (fn_size new) only_new);
          rm_base = sum_list (map (fn_size base) only_base);
          other_delta = sum_list (map (\<lambda>k. fn_size new k - fn_size base k)
                          (filter (\<lambda>k. k \<notin> set (map fst symname)) common))
      in \<lparr>f_base = length (keys base), f_new = length (keys new), f_common = common,
          f_only_base = only_base, f_only_new = only_new,
          f_same = length (filter (\<lambda>k. fn_classify arch base new k = Same) common),
          f_symname = symname, f_differ = differ,
          f_bcode = length bcode, f_ncode = length ncode,
          f_total_delta = int (length ncode) - int (length bcode),
          f_sym_delta = sym_delta, f_add_new = add_new, f_rm_base = rm_base,
          f_other_delta = other_delta, f_acct = sym_delta + add_new - rm_base + other_delta\<rparr>)"

definition fn_row_line :: "string \<Rightarrow> nat \<Rightarrow> string \<times> nat \<times> nat \<Rightarrow> string" where
  "fn_row_line pre w row =
     (case row of (k, la, lb) \<Rightarrow>
        pre @ ljust w k @ '' '' @ rjust 7 (dec la) @ '' -> '' @ rjust 7 (dec lb)
        @ ''  ('' @ plus_int (int lb - int la) @ '')'')"

definition fn_lines :: "string \<Rightarrow> fn_report \<Rightarrow> string list" where
  "fn_lines arch r =
     [''=== per-function native comparison ('' @ arch @ '') ==='',
      ''  functions in baseline : '' @ dec (f_base r),
      ''  functions in new      : '' @ dec (f_new r),
      ''  common                : '' @ dec (length (f_common r)),
      ''  IDENTICAL             : '' @ dec (f_same r),
      ''  differ (sym-name tbl) : '' @ dec (length (f_symname r))
        @ ''   <- EXPECTED (content is the token list)'',
      ''  differ (OTHER)        : '' @ dec (length (f_differ r)) @ ''   <- must be 0'',
      ''  only in baseline      : '' @ dec (length (f_only_base r)),
      ''  only in new           : '' @ dec (length (f_only_new r))]
     @ map (fn_row_line ''    symname '' 34) (f_symname r)
     @ (if f_differ r = [] then []
        else ''  *** NON-SYMNAME DIFFERENCES ***'' # map (fn_row_line ''    '' 40) (take 40 (f_differ r)))
     @ [[], ''=== byte accounting ==='',
        ''  baseline native total : '' @ dec (f_bcode r),
        ''  new native total      : '' @ dec (f_ncode r),
        ''  TOTAL DELTA           : '' @ plus_int (f_total_delta r),
        ''    sym-name fns resized : '' @ plus_int (f_sym_delta r),
        ''    functions only in new: '' @ plus_int (f_add_new r) @ '' ('' @ dec (length (f_only_new r)) @ '' fns)'',
        ''    functions only in base: '' @ plus_int (- f_rm_base r) @ '' ('' @ dec (length (f_only_base r)) @ '' fns)'',
        ''    all other fns (incl. alignment padding): '' @ plus_int (f_other_delta r),
        ''  ACCOUNTED             : '' @ plus_int (f_acct r) @ ''   (unexplained: ''
          @ plus_int (f_total_delta r - f_acct r) @ '')'']"

definition fn_main :: "string \<Rightarrow> string \<Rightarrow> bytes \<Rightarrow> string \<Rightarrow> bytes \<Rightarrow> (fn_report \<times> nat) res" where
  "fn_main arch bs bn ns nn =
     res_bind (fn_load bs bn) (\<lambda>(base, bcode).
     res_bind (fn_load ns nn) (\<lambda>(new, ncode).
     let r = fn_compare arch base bcode new ncode
     in Inr (r, if f_differ r = [] then 0 else 1)))"

section \<open>Padding lemmas\<close>

definition pad_unit :: "string \<Rightarrow> bytes" where
  "pad_unit arch = (if arch = ''aa64'' then aa64_nop else [0x90])"

definition pads :: "string \<Rightarrow> nat \<Rightarrow> bytes" where
  "pads arch n = concat (replicate n (pad_unit arch))"

lemma strip_pad_pad: "strip_pad (b @ pad_unit arch) arch = strip_pad b arch"
proof (cases "arch = ''aa64''")
  case True
  have "strip_nop (b @ aa64_nop) = strip_nop b"
    by (subst strip_nop.simps) (simp add: last_n_def aa64_nop_def)
  then show ?thesis using True by (simp add: strip_pad_def pad_unit_def)
next
  case False
  have "strip_90 (b @ [0x90]) = strip_90 b"
    by (subst strip_90.simps) simp
  then show ?thesis using False by (simp add: strip_pad_def pad_unit_def)
qed

lemma strip_pad_pads: "strip_pad (b @ pads arch n) arch = strip_pad b arch"
proof (induction n)
  case (Suc n)
  have "pads arch (Suc n) = pads arch n @ pad_unit arch"
    by (simp add: pads_def replicate_append_same [symmetric])
  then show ?case using Suc strip_pad_pad [of "b @ pads arch n" arch] by simp
qed (simp add: pads_def)

lemma strip_nop_decomp: "\<exists>n. b = strip_nop b @ concat (replicate n aa64_nop)"
proof (induction b rule: strip_nop.induct)
  case (1 b)
  show ?case
  proof (cases "4 \<le> length b \<and> last_n 4 b = aa64_nop")
    case True
    then obtain n where n: "take (length b - 4) b =
        strip_nop (take (length b - 4) b) @ concat (replicate n aa64_nop)"
      using "1.IH" by blast
    have "b = take (length b - 4) b @ aa64_nop"
      using True by (metis append_take_drop_id last_n_def)
    also have "\<dots> = strip_nop b @ concat (replicate (Suc n) aa64_nop)"
      using n True by (subst strip_nop.simps)
        (simp add: replicate_append_same [symmetric] del: append_assoc add: append_assoc [symmetric])
    finally show ?thesis by blast
  next
    case False
    then show ?thesis by (intro exI [of _ 0]) (subst strip_nop.simps, auto)
  qed
qed

lemma strip_90_decomp: "\<exists>n. b = strip_90 b @ concat (replicate n [0x90])"
proof (induction b rule: strip_90.induct)
  case (1 b)
  show ?case
  proof (cases "b \<noteq> [] \<and> last b = 0x90")
    case True
    then obtain n where n: "butlast b = strip_90 (butlast b) @ concat (replicate n [0x90])"
      using "1.IH" by blast
    have "b = butlast b @ [0x90]" using True by (metis append_butlast_last_id)
    also have "\<dots> = strip_90 b @ concat (replicate (Suc n) [0x90])"
      using n True by (subst strip_90.simps)
        (simp add: replicate_append_same [symmetric] del: append_assoc add: append_assoc [symmetric])
    finally show ?thesis by blast
  next
    case False
    then show ?thesis by (intro exI [of _ 0]) (subst strip_90.simps, auto)
  qed
qed

lemma strip_pad_decomp: "\<exists>n. b = strip_pad b arch @ pads arch n"
  using strip_nop_decomp [of b] strip_90_decomp [of b]
  by (auto simp: strip_pad_def pads_def pad_unit_def)

section \<open>Loading\<close>

lemma distinct_keys_fn_load:
  assumes "fn_load bs bn = Inr (base, bcode)"
  shows "distinct (keys base)"
proof -
  have "distinct (keys [])" by (simp add: keys_def)
  then show ?thesis using assms distinct_put_all unfolding fn_load_def by fastforce
qed

lemma fn_size_sum:
  "sum_list (map f ks) = sum_list (map f (filter P ks)) + sum_list (map f (filter (\<lambda>k. \<not> P k) ks))"
  for f :: "'a \<Rightarrow> int"
  by (induction ks) auto

lemma sum_list_perm: "mset ks = mset ks' \<Longrightarrow> sum_list (map f ks) = sum_list (map f ks')"
  for f :: "'a \<Rightarrow> int"
  by (metis mset_map sum_mset_sum_list)

lemma mset_common:
  assumes "distinct (keys base)" "distinct (keys new)"
  shows "mset (filter (has_key base) (keys new)) = mset (filter (has_key new) (keys base))"
proof -
  have "set (filter (has_key base) (keys new)) = set (filter (has_key new) (keys base))"
    by (auto simp: has_key_def)
  then show ?thesis using assms by (metis distinct_filter set_eq_iff_mset_eq_distinct)
qed

text \<open>The entries of the report's two difference lists.\<close>

lemma f_differ_iff:
  "f_differ (fn_compare arch base bcode new ncode) = [] \<longleftrightarrow>
     (\<forall>k. has_key base k \<longrightarrow> has_key new k \<longrightarrow> fn_classify arch base new k \<noteq> Differ)"
proof -
  have "f_differ (fn_compare arch base bcode new ncode) = [] \<longleftrightarrow>
      filter (\<lambda>k. fn_classify arch base new k = Differ) (sort (filter (has_key new) (keys base))) = []"
    by (simp add: fn_compare_def Let_def)
  also have "\<dots> \<longleftrightarrow> (\<forall>k \<in> set (filter (has_key new) (keys base)). fn_classify arch base new k \<noteq> Differ)"
    unfolding filter_empty_conv set_sort ..
  finally show ?thesis by (auto simp: has_key_def)
qed

lemma contains_sym_name: "contains ''SYM-NAME-AUTO'' k \<Longrightarrow> contains ''SYM-NAME'' k"
proof -
  assume "contains ''SYM-NAME-AUTO'' k"
  then obtain a b where "k = a @ ''SYM-NAME-AUTO'' @ b" unfolding contains_append by blast
  then have "k = a @ ''SYM-NAME'' @ (''-AUTO'' @ b)" by simp
  then show ?thesis unfolding contains_append by blast
qed

lemma fn_classify_Differ:
  "fn_classify arch base new k \<noteq> Differ \<longleftrightarrow>
     contains ''SYM-NAME'' k \<or> strip_pad (fn_code base k) arch = strip_pad (fn_code new k) arch"
  using contains_sym_name [of k] by (auto simp: fn_classify_def)

lemma strip_pad_eq_aux:
  "strip_pad a arch = strip_pad b arch \<longleftrightarrow> (\<exists>c i j. a = c @ pads arch i \<and> b = c @ pads arch j)"
proof
  assume eq: "strip_pad a arch = strip_pad b arch"
  obtain i where i: "a = strip_pad a arch @ pads arch i" using strip_pad_decomp by blast
  obtain j where j: "b = strip_pad b arch @ pads arch j" using strip_pad_decomp by blast
  show "\<exists>c i j. a = c @ pads arch i \<and> b = c @ pads arch j"
    using i j eq by (intro exI [of _ "strip_pad a arch"] exI [of _ i] exI [of _ j]) simp
next
  assume "\<exists>c i j. a = c @ pads arch i \<and> b = c @ pads arch j"
  then show "strip_pad a arch = strip_pad b arch" using strip_pad_pads by metis
qed

section \<open>Properties\<close>

text \<open>
  C4: The exit status of \<open>fndiff\<close> is 0 exactly when every function that both builds have, and whose
  name does not contain \<open>SYM-NAME\<close>, has the same native bytes in both up to trailing alignment
  padding: a common prefix followed by any number of padding units on either side.
\<close>

theorem fn_main_exit:
  assumes "fn_load bs bn = Inr (base, bcode)" "fn_load ns nn = Inr (new, ncode)"
  shows "\<exists>r status. fn_main arch bs bn ns nn = Inr (r, status) \<and>
    (status = 0 \<longleftrightarrow>
      (\<forall>k. has_key base k \<and> has_key new k \<and> \<not> contains ''SYM-NAME'' k \<longrightarrow>
        (\<exists>c i j. fn_code base k = c @ pads arch i \<and> fn_code new k = c @ pads arch j)))"
proof -
  have "fn_main arch bs bn ns nn =
      Inr (fn_compare arch base bcode new ncode,
           if f_differ (fn_compare arch base bcode new ncode) = [] then 0 else 1)"
    by (simp add: fn_main_def assms Let_def)
  then show ?thesis
    by (auto simp: f_differ_iff fn_classify_Differ strip_pad_eq_aux)
qed

definition fn_sample :: string where
  "fn_sample = ''# map'' @ [nl] @ ''400000'' @ [tab] @ ''2'' @ [tab] @ ''0'' @ [tab] @ ''F'' @ [nl]"

definition fn_build :: "bytes \<Rightarrow> (string, fn_entry) dict" where
  "fn_build code = [(''F'', 0, 2, code)]"

lemma fn_sample_rows: "sym_rows True fn_sample = Inr [\<lparr>r_size = 2, r_off = 0, r_name = ''F''\<rparr>]"
  by (simp add: sym_rows_def sym_fields_def sym_row_of_def fn_sample_def text_eval)

lemma fn_sample_load: "length code = 2 \<Longrightarrow> fn_load fn_sample code = Inr (fn_build code, code)"
  by (simp add: fn_load_def fn_sample_rows fn_build_def row_keys_def dict_get_def dedup_key_def
      int_slice_def clamp_index_def py_slice_def)

lemma fn_main_exit_witness: "\<exists>r. fn_main ''x64'' fn_sample [1, 0x90] fn_sample [1, 0x90] = Inr (r, 0)"
proof -
  have "fn_code (fn_build [1, 0x90]) k = fn_code (fn_build [1, 0x90]) k @ pads ''x64'' 0" for k
    by (simp add: pads_def)
  then show ?thesis
    using fn_main_exit [of fn_sample "[1, 0x90]" "fn_build [1, 0x90]" "[1, 0x90]" fn_sample "[1, 0x90]"
        "fn_build [1, 0x90]" "[1, 0x90]" "''x64''"]
    by (fastforce simp: fn_sample_load)
qed

text \<open>
  The byte accounting is complete: the \<open>ACCOUNTED\<close> figure, which \<open>main\<close> adds up from four
  groups of functions, is the total size of the new build's functions less that of the baseline's.
\<close>

lemma fn_accounting:
  assumes "fn_load bs bn = Inr (base, bcode)" "fn_load ns nn = Inr (new, ncode)"
  shows "f_acct (fn_compare arch base bcode new ncode)
       = sum_list (map (fn_size new) (keys new)) - sum_list (map (fn_size base) (keys base))"
proof -
  define common where "common = sort (filter (has_key new) (keys base))"
  define sym where "sym = filter (\<lambda>k. fn_classify arch base new k = DifferSymname) common"
  define d where "d = (\<lambda>k. fn_size new k - fn_size base k)"
  note dist = distinct_keys_fn_load [OF assms(1)] distinct_keys_fn_load [OF assms(2)]
  have "f_acct (fn_compare arch base bcode new ncode)
      = sum_list (map d sym) + sum_list (map (fn_size new) (filter (\<lambda>k. \<not> has_key base k) (keys new)))
        - sum_list (map (fn_size base) (filter (\<lambda>k. \<not> has_key new k) (keys base)))
        + sum_list (map d (filter (\<lambda>k. k \<notin> set sym) common))"
    unfolding fn_compare_def Let_def fn_report.simps map_map comp_def case_prod_unfold fst_conv
      map_ident sym_def common_def d_def ..
  moreover have "sum_list (map d common)
      = sum_list (map d sym) + sum_list (map d (filter (\<lambda>k. k \<notin> set sym) common))"
  proof -
    have "filter (\<lambda>k. k \<in> set sym) common = sym" by (auto simp: sym_def intro: filter_cong)
    then show ?thesis using fn_size_sum [of d common "\<lambda>k. k \<in> set sym"] by simp
  qed
  moreover have "sum_list (map d common)
      = sum_list (map (fn_size new) common) - sum_list (map (fn_size base) common)"
    by (simp add: d_def sum_list_subtractf)
  moreover have "sum_list (map (fn_size new) common)
      = sum_list (map (fn_size new) (filter (has_key base) (keys new)))"
    by (rule sum_list_perm) (use mset_common [OF dist] in \<open>simp add: common_def\<close>)
  moreover have "sum_list (map (fn_size base) common)
      = sum_list (map (fn_size base) (filter (has_key new) (keys base)))"
    by (rule sum_list_perm) (simp add: common_def)
  ultimately show ?thesis
    using fn_size_sum [of "fn_size new" "keys new" "has_key base"]
      fn_size_sum [of "fn_size base" "keys base" "has_key new"] by simp
qed

lemma fn_accounting_witness:
  "f_acct (fn_compare ''x64'' (fn_build [1, 0x90]) [1, 0x90] (fn_build [1, 2]) [1, 2])
   = sum_list (map (fn_size (fn_build [1, 2])) (keys (fn_build [1, 2])))
     - sum_list (map (fn_size (fn_build [1, 0x90])) (keys (fn_build [1, 0x90])))"
  by (rule fn_accounting [where bs = fn_sample and bn = "[1, 0x90]" and ns = fn_sample and nn = "[1, 2]"])
    (simp_all add: fn_sample_load)

text \<open>
  C37: Loading keeps every function: when no name contains \<open>#\<close>, the dictionary has one entry for
  each usable row of the map, in the order of the native offsets, under pairwise distinct keys, and
  each entry holds its row's offset and size and that py_slice of the native code.
\<close>

theorem fn_load_complete:
  assumes "fn_load symmap code = Inr (d, code')" "sym_rows True symmap = Inr rows"
    and "\<And>r. r \<in> set rows \<Longrightarrow> CHR ''#'' \<notin> set (r_name r)"
  shows "length d = length (sym_fields symmap) \<and> distinct (keys d) \<and>
    sorted (map (\<lambda>(k, off, _). off) d) \<and>
    (\<forall>i < length d. \<exists>n.
       snd (d ! i) = (r_off (rows ! i), r_size (rows ! i),
                      int_slice code (r_off (rows ! i)) (r_off (rows ! i) + r_size (rows ! i)))
       \<and> fst (d ! i) = dedup_key (r_name (rows ! i)) n)"
proof -
  let ?e = "\<lambda>r. (r_off r, r_size r, int_slice code (r_off r) (r_off r + r_size r))"
  have dk: "distinct (row_keys rows)"
    unfolding row_keys_def by (rule distinct_number_keys) (use assms(3) in auto)
  have d: "d = zip (row_keys rows) (map ?e rows)"
  proof -
    have "d = put_all (zip (row_keys rows) (map ?e rows)) []"
      using assms(1,2) by (auto simp: fn_load_def)
    also have "\<dots> = zip (row_keys rows) (map ?e rows)"
      using put_all_distinct [of "zip (row_keys rows) (map ?e rows)" "[]"] dk
      by (simp add: keys_def row_keys_def)
    finally show ?thesis .
  qed
  have len: "length (row_keys rows) = length rows" by (simp add: row_keys_def)
  have "map (\<lambda>(k, off, _). off) d = map r_off rows"
    using len by (intro nth_equalityI) (auto simp: d)
  moreover have "keys d = row_keys rows" using len by (simp add: d keys_def)
  moreover have "length d = length rows" using len by (simp add: d)
  ultimately show ?thesis
    using dk len sorted_sym_rows [OF assms(2)] length_sym_rows [OF assms(2)]
      number_keys_nth [of _ "map r_name rows" "[]"]
    by (simp add: d row_keys_def)
qed

lemma fn_load_complete_witness:
  "length (fn_build [1, 2]) = length (sym_fields fn_sample) \<and> distinct (keys (fn_build [1, 2])) \<and>
    sorted (map (\<lambda>(k, off, _). off) (fn_build [1, 2]))"
  using fn_load_complete [OF fn_sample_load fn_sample_rows, of "[1, 2]"] by simp

end
