(* ===== verification/RelocProof.thy ===== *)
theory RelocProof
  imports SymMap
begin

text \<open>
  \<open>scripts/reloproof.py\<close>: a proof, over the bytes of two builds, that the native code of each common
  function differs only by relocated rel32 fields.  \<open>rp_load\<close> is the script's \<open>load\<close>, \<open>add_run\<close> its
  grouping of the differing indices, \<open>run_ok\<close> the search for a 4-byte window, \<open>rp_step\<close> one turn of
  the loop over the common functions, and \<open>rp_main\<close> the whole script with its exit status.
\<close>

section \<open>Loading\<close>

type_synonym rp_fns = "(string, int \<times> int) dict"
type_synonym rp_starts = "(int, string) dict"

definition rp_load :: "string \<Rightarrow> bytes \<Rightarrow> (rp_fns \<times> rp_starts \<times> bytes) res" where
  "rp_load symmap code =
     res_bind (sym_rows False symmap) (\<lambda>rows.
       Inr (put_all (zip (row_keys rows) (map (\<lambda>r. (r_off r, r_size r)) rows)) [],
            put_all (zip (map r_off rows) (row_keys rows)) [],
            code))"

section \<open>Runs of differing bytes\<close>

definition diff_idx :: "bytes \<Rightarrow> bytes \<Rightarrow> nat list" where
  "diff_idx a b = filter (\<lambda>i. a ! i \<noteq> b ! i) [0..<length a]"

definition add_run :: "nat list list \<Rightarrow> nat \<Rightarrow> nat list list" where
  "add_run runs i =
     (if runs \<noteq> [] \<and> i = last (last runs) + 1 then butlast runs @ [last runs @ [i]] else runs @ [[i]])"

definition runs_of :: "nat list \<Rightarrow> nat list list" where
  "runs_of idx = foldl add_run [] idx"

section \<open>The search for a relocated field\<close>

record rp_fn =
  boff :: int
  noff :: int
  bbytes :: bytes
  nbytes :: bytes

definition field_ok :: "rp_starts \<Rightarrow> rp_starts \<Rightarrow> rp_fn \<Rightarrow> nat \<Rightarrow> bool" where
  "field_ok bstarts nstarts f start =
     (let ov = le_signed (py_slice (bbytes f) start (start + 4));
          nv = le_signed (py_slice (nbytes f) start (start + 4));
          btgt = boff f + int start + 4 + ov;
          ntgt = noff f + int start + 4 + nv
      in has_key bstarts btgt \<and> has_key nstarts ntgt \<and> map_of bstarts btgt = map_of nstarts ntgt)"

text \<open>\<open>range(max(0, r[-1] - 3), min(r[0], len(a) - 4) + 1)\<close>.\<close>

definition windows :: "nat \<Rightarrow> nat list \<Rightarrow> nat list" where
  "windows len r = map nat [max 0 (int (last r) - 3) .. min (int (hd r)) (int len - 4)]"

definition run_ok :: "rp_starts \<Rightarrow> rp_starts \<Rightarrow> rp_fn \<Rightarrow> nat list \<Rightarrow> bool" where
  "run_ok bstarts nstarts f r = list_ex (field_ok bstarts nstarts f) (windows (length (bbytes f)) r)"

section \<open>The loop over the common functions\<close>

record rp_state =
  diff_fns :: nat
  size_changes :: "(string \<times> nat \<times> nat) list"
  proved :: nat
  unproved :: "(string \<times> nat \<times> nat) list"

definition rp_start :: rp_state where
  "rp_start = \<lparr>diff_fns = 0, size_changes = [], proved = 0, unproved = []\<rparr>"

definition rp_fn_of :: "rp_fns \<Rightarrow> bytes \<Rightarrow> rp_fns \<Rightarrow> bytes \<Rightarrow> string \<Rightarrow> rp_fn" where
  "rp_fn_of bfns bcode nfns ncode k =
     (let (bo, bs) = dict_get bfns k (0, 0); (no, ns) = dict_get nfns k (0, 0)
      in \<lparr>boff = bo, noff = no, bbytes = int_slice bcode bo (bo + bs), nbytes = int_slice ncode no (no + ns)\<rparr>)"

definition run_step :: "rp_starts \<Rightarrow> rp_starts \<Rightarrow> string \<Rightarrow> rp_fn \<Rightarrow> rp_state \<Rightarrow> nat list \<Rightarrow> rp_state" where
  "run_step bstarts nstarts k f s r =
     (if run_ok bstarts nstarts f r then s\<lparr>proved := proved s + 1\<rparr>
      else s\<lparr>unproved := unproved s @ [(k, hd r, last r)]\<rparr>)"

definition rp_step ::
    "rp_starts \<Rightarrow> rp_starts \<Rightarrow> (string \<Rightarrow> rp_fn) \<Rightarrow> rp_state \<Rightarrow> string \<Rightarrow> rp_state" where
  "rp_step bstarts nstarts fn s k =
     (if contains ''SYM-NAME-AUTO'' k then s
      else let f = fn k; a = bbytes f; b = nbytes f
           in if a = b then s
              else if length a \<noteq> length b then s\<lparr>size_changes := size_changes s @ [(k, length a, length b)]\<rparr>
              else foldl (run_step bstarts nstarts k f) (s\<lparr>diff_fns := diff_fns s + 1\<rparr>)
                     (runs_of (diff_idx a b)))"

definition rp_compare ::
    "rp_fns \<Rightarrow> rp_starts \<Rightarrow> bytes \<Rightarrow> rp_fns \<Rightarrow> rp_starts \<Rightarrow> bytes \<Rightarrow> rp_state" where
  "rp_compare bfns bstarts bcode nfns nstarts ncode =
     foldl (rp_step bstarts nstarts (rp_fn_of bfns bcode nfns ncode)) rp_start
       (sort (filter (has_key nfns) (keys bfns)))"

definition rp_lines :: "rp_state \<Rightarrow> string list" where
  "rp_lines s =
     [''=== relocation proof ==='',
      ''  functions with byte differences : '' @ dec (diff_fns s),
      ''  functions with SIZE changes     : '' @ dec (length (size_changes s)) @ ''   <- must be 0'']
     @ map (\<lambda>(k, la, lb). ''      '' @ ljust 40 k @ '' '' @ dec la @ '' -> '' @ dec lb) (take 20 (size_changes s))
     @ [''  differing fields PROVED to be a rel32 to the SAME callee : '' @ dec (proved s),
        ''  differing fields NOT proved                              : '' @ dec (length (unproved s))]
     @ map (\<lambda>(k, a, e). ''      '' @ ljust 40 k @ '' bytes '' @ dec a @ ''..'' @ dec e) (take 25 (unproved s))"

definition rp_main :: "string \<Rightarrow> bytes \<Rightarrow> string \<Rightarrow> bytes \<Rightarrow> (rp_state \<times> nat) res" where
  "rp_main bs bn ns nn =
     res_bind (rp_load bs bn) (\<lambda>(bfns, bstarts, bcode).
     res_bind (rp_load ns nn) (\<lambda>(nfns, nstarts, ncode).
     let s = rp_compare bfns bstarts bcode nfns nstarts ncode
     in Inr (s, if unproved s = [] \<and> size_changes s = [] then 0 else 1)))"

section \<open>Lemmas on runs\<close>

lemma add_run_cases:
  assumes "runs = [] \<Longrightarrow> P [[i]]"
    and "\<And>rs r. runs = rs @ [r] \<Longrightarrow> i = last r + 1 \<Longrightarrow> P (rs @ [r @ [i]])"
    and "\<And>rs r. runs = rs @ [r] \<Longrightarrow> i \<noteq> last r + 1 \<Longrightarrow> P (rs @ [r, [i]])"
  shows "P (add_run runs i)"
  using assms by (cases runs rule: rev_cases) (auto simp: add_run_def)

lemma set_add_run:
  "r \<in> set (add_run runs i) \<Longrightarrow>
     r \<in> set runs \<or> r = [i] \<or> (\<exists>r' \<in> set runs. i = last r' + 1 \<and> r = r' @ [i])"
  by (cases runs rule: rev_cases) (auto simp: add_run_def split: if_splits)

lemma concat_runs: "concat (foldl add_run runs idx) = concat runs @ idx"
proof (induction idx arbitrary: runs)
  case (Cons i idx)
  have "concat (add_run runs i) = concat runs @ [i]"
    by (rule add_run_cases [of runs]) auto
  then show ?case using Cons by simp
qed simp

definition is_run :: "nat list \<Rightarrow> bool" where
  "is_run r \<longleftrightarrow> r \<noteq> [] \<and> r = [hd r..<last r + 1]"

lemma is_run_extend: "is_run r \<Longrightarrow> is_run (r @ [last r + 1])"
proof -
  assume r: "is_run r"
  then have "hd r < last r + 1"
    unfolding is_run_def by (metis upt_rec not_less_eq upt_conv_Nil not_le Suc_eq_plus1)
  with r show ?thesis unfolding is_run_def by (auto simp: upt_Suc_append)
qed

lemma is_run_runs:
  "(\<And>r. r \<in> set runs \<Longrightarrow> is_run r) \<Longrightarrow> r \<in> set (foldl add_run runs idx) \<Longrightarrow> is_run r"
proof (induction idx arbitrary: runs)
  case (Cons i idx)
  have "is_run r" if "r \<in> set (add_run runs i)" for r
    using set_add_run [OF that] Cons.prems(1) is_run_extend by (auto simp: is_run_def [of "[i]"])
  then show ?case using Cons.IH [of "add_run runs i"] Cons.prems(2) by simp
qed simp

text \<open>Adjacent runs leave a gap when the indices ascend: the runs are maximal.\<close>

fun gapped :: "nat list list \<Rightarrow> bool" where
  "gapped (r # r' # rs) = (last r + 1 < hd r' \<and> gapped (r' # rs))"
| "gapped _ = True"

lemma gapped_snoc:
  "gapped (rs @ [r, r']) \<longleftrightarrow> gapped (rs @ [r]) \<and> last r + 1 < hd r'"
  by (induction rs rule: gapped.induct) auto

lemma gapped_snoc_extend: "r \<noteq> [] \<Longrightarrow> gapped (rs @ [r @ [i]]) \<longleftrightarrow> gapped (rs @ [r])"
  by (induction rs rule: gapped.induct) auto

lemma gapped_runs:
  "gapped runs \<Longrightarrow> (\<And>r. r \<in> set runs \<Longrightarrow> r \<noteq> []) \<Longrightarrow> sorted_wrt (<) (concat runs @ idx) \<Longrightarrow>
     gapped (foldl add_run runs idx)"
proof (induction idx arbitrary: runs)
  case (Cons i idx)
  have lt: "last r < i" if "r \<in> set runs" for r
  proof -
    have "last r \<in> set (concat runs)" using that Cons.prems(2) [OF that] last_in_set by fastforce
    then show ?thesis using Cons.prems(3) by (auto simp: sorted_wrt_append)
  qed
  have g: "gapped (add_run runs i)"
  proof (rule add_run_cases [of runs])
    show "gapped (rs @ [r @ [i]])" if "runs = rs @ [r]" for rs r
      using that Cons.prems(1,2) by (simp add: gapped_snoc_extend)
    show "gapped (rs @ [r, [i]])" if "runs = rs @ [r]" "i \<noteq> last r + 1" for rs r
      using that Cons.prems(1) lt [of r] by (auto simp: gapped_snoc)
  qed simp
  have c: "concat (add_run runs i) = concat runs @ [i]"
    by (rule add_run_cases [of runs]) auto
  have ne: "r \<noteq> []" if "r \<in> set (add_run runs i)" for r
    using set_add_run [OF that] Cons.prems(2) by auto
  show ?case using Cons.IH [OF g ne] Cons.prems(3) c by simp
qed simp

lemma runs_of_facts:
  "concat (runs_of idx) = idx"
  "r \<in> set (runs_of idx) \<Longrightarrow> is_run r"
  "sorted_wrt (<) idx \<Longrightarrow> gapped (runs_of idx)"
  using concat_runs [of "[]" idx] is_run_runs [of "[]" r idx] gapped_runs [of "[]" idx]
  by (simp_all add: runs_of_def)

lemma set_windows:
  "s \<in> set (windows len r) \<longleftrightarrow> last r \<le> s + 3 \<and> s \<le> hd r \<and> s + 4 \<le> len"
proof
  assume "s \<in> set (windows len r)"
  then show "last r \<le> s + 3 \<and> s \<le> hd r \<and> s + 4 \<le> len" by (auto simp: windows_def)
next
  assume "last r \<le> s + 3 \<and> s \<le> hd r \<and> s + 4 \<le> len"
  then have "int s \<in> {max 0 (int (last r) - 3) .. min (int (hd r)) (int len - 4)}" by auto
  then have "nat (int s) \<in> nat ` {max 0 (int (last r) - 3) .. min (int (hd r)) (int len - 4)}"
    by (rule imageI)
  then show "s \<in> set (windows len r)" by (simp add: windows_def)
qed

section \<open>The loop in closed form\<close>

lemma fold_run_step:
  "foldl (run_step bst nst k f) s rs =
     s\<lparr>proved := proved s + length (filter (run_ok bst nst f) rs),
       unproved := unproved s @ map (\<lambda>r. (k, hd r, last r)) (filter (\<lambda>r. \<not> run_ok bst nst f r) rs)\<rparr>"
  by (induction rs arbitrary: s) (auto simp: run_step_def)

definition fn_pass :: "rp_starts \<Rightarrow> rp_starts \<Rightarrow> (string \<Rightarrow> rp_fn) \<Rightarrow> string \<Rightarrow> bool" where
  "fn_pass bst nst fn k \<longleftrightarrow>
     contains ''SYM-NAME-AUTO'' k \<or>
     length (bbytes (fn k)) = length (nbytes (fn k)) \<and>
     (\<forall>r \<in> set (runs_of (diff_idx (bbytes (fn k)) (nbytes (fn k)))). run_ok bst nst (fn k) r)"

lemma diff_idx_same [simp]: "diff_idx a a = []"
  by (simp add: diff_idx_def)

lemma runs_of_Nil [simp]: "runs_of [] = []"
  by (simp add: runs_of_def)

lemma rp_step_clean:
  "unproved (rp_step bst nst fn s k) = [] \<and> size_changes (rp_step bst nst fn s k) = [] \<longleftrightarrow>
     unproved s = [] \<and> size_changes s = [] \<and> fn_pass bst nst fn k"
  by (auto simp: rp_step_def fn_pass_def Let_def fold_run_step filter_empty_conv)

lemma rp_loop_clean:
  "unproved (foldl (rp_step bst nst fn) s ks) = [] \<and> size_changes (foldl (rp_step bst nst fn) s ks) = []
     \<longleftrightarrow> unproved s = [] \<and> size_changes s = [] \<and> (\<forall>k \<in> set ks. fn_pass bst nst fn k)"
proof (induction ks arbitrary: s)
  case (Cons k ks)
  then show ?case using rp_step_clean [of bst nst fn s k] by (simp add: conj_ac)
qed simp

lemma rp_compare_clean:
  "unproved (rp_compare bfns bst bc nfns nst nc) = [] \<and>
   size_changes (rp_compare bfns bst bc nfns nst nc) = [] \<longleftrightarrow>
     (\<forall>k. has_key bfns k \<and> has_key nfns k \<longrightarrow> fn_pass bst nst (rp_fn_of bfns bc nfns nc) k)"
  unfolding rp_compare_def rp_loop_clean by (auto simp: rp_start_def has_key_def)

text \<open>What a passed function guarantees of each differing byte.\<close>

lemma fn_pass_byte:
  assumes "fn_pass bst nst fn k" "\<not> contains ''SYM-NAME-AUTO'' k"
    and "i < length (bbytes (fn k))" "bbytes (fn k) ! i \<noteq> nbytes (fn k) ! i"
  shows "\<exists>s. s \<le> i \<and> i < s + 4 \<and> s + 4 \<le> length (bbytes (fn k)) \<and> field_ok bst nst (fn k) s"
proof -
  let ?idx = "diff_idx (bbytes (fn k)) (nbytes (fn k))"
  have "i \<in> set (concat (runs_of ?idx))"
    using assms(3,4) runs_of_facts(1) [of ?idx] by (simp add: diff_idx_def)
  then obtain r where r: "r \<in> set (runs_of ?idx)" "i \<in> set r" by auto
  then have "hd r \<le> i" "i \<le> last r"
    using runs_of_facts(2) [OF r(1)] unfolding is_run_def by (metis atLeastLessThan_iff set_upt less_Suc_eq_le Suc_eq_plus1)+
  moreover have "run_ok bst nst (fn k) r" using assms(1,2) r(1) by (simp add: fn_pass_def)
  then obtain s where "s \<in> set (windows (length (bbytes (fn k))) r)" "field_ok bst nst (fn k) s"
    by (auto simp: run_ok_def list_ex_iff)
  ultimately show ?thesis by (intro exI [of _ s]) (auto simp: set_windows)
qed

section \<open>The runs are the maximal intervals of differing bytes\<close>

definition maximal :: "nat list \<Rightarrow> nat \<Rightarrow> nat \<Rightarrow> bool" where
  "maximal idx x y \<longleftrightarrow>
     x \<le> y \<and> {x..y} \<subseteq> set idx \<and> y + 1 \<notin> set idx \<and> (x = 0 \<or> x - 1 \<notin> set idx)"

lemma gapped_neighbours:
  assumes "gapped rs" "\<And>r. r \<in> set rs \<Longrightarrow> is_run r" "sorted_wrt (<) (concat rs)" "r \<in> set rs"
  shows "last r + 1 \<notin> set (concat rs) \<and> (hd r = 0 \<or> hd r - 1 \<notin> set (concat rs))"
  using assms
proof (induction rs)
  case (Cons r0 rs)
  have r0: "is_run r0" using Cons.prems(2) by simp
  have below: "v \<le> last r0" "hd r0 \<le> v" if "v \<in> set r0" for v
    using that r0 unfolding is_run_def
    by (metis atLeastLessThan_iff set_upt less_Suc_eq_le Suc_eq_plus1)+
  have last0: "last r0 \<in> set r0" "hd r0 \<in> set r0" using r0 by (auto simp: is_run_def)
  have above: "last r0 + 1 < v" if v: "v \<in> set (concat rs)" for v
  proof -
    obtain r1 rs1 where rs: "rs = r1 # rs1" using v by (cases rs) auto
    have "is_run r1" using Cons.prems(2) rs by simp
    then have h: "r1 = hd r1 # tl r1" by (simp add: is_run_def)
    have "hd r1 \<le> v"
      using v Cons.prems(3) h unfolding rs
      by (cases r1) (auto simp: sorted_wrt_append intro: less_imp_le)
    moreover have "last r0 + 1 < hd r1" using Cons.prems(1) rs by simp
    ultimately show ?thesis by simp
  qed
  show ?case
  proof (cases "r = r0")
    case True
    have "last r0 + 1 \<notin> set r0" using below(1) by fastforce
    moreover have "last r0 + 1 \<notin> set (concat rs)" using above by blast
    moreover have "hd r0 - 1 \<notin> set r0 \<or> hd r0 = 0" using below(2) by fastforce
    moreover have "hd r0 - 1 \<notin> set (concat rs)" using above below(1) [OF last0(2)] by fastforce
    ultimately show ?thesis using True by auto
  next
    case False
    then have r: "r \<in> set rs" using Cons.prems(4) by simp
    then have "is_run r" using Cons.prems(2) by simp
    then have "last r \<in> set (concat rs)" "hd r \<in> set (concat rs)"
      using r by (auto simp: is_run_def intro: bexI [of _ r])
    then have g: "last r0 + 1 < last r" "last r0 + 1 < hd r" using above by auto
    have "gapped rs" using Cons.prems(1) by (cases rs) auto
    moreover have "sorted_wrt (<) (concat rs)" using Cons.prems(3) by (simp add: sorted_wrt_append)
    ultimately have "last r + 1 \<notin> set (concat rs) \<and> (hd r = 0 \<or> hd r - 1 \<notin> set (concat rs))"
      using Cons.IH Cons.prems(2) r by auto
    moreover have "last r + 1 \<notin> set r0" "hd r - 1 \<notin> set r0"
      using g below(1) by fastforce+
    ultimately show ?thesis by auto
  qed
qed simp

lemma runs_of_maximal:
  assumes "sorted_wrt (<) idx"
  shows "set (runs_of idx) = {[x..<y + 1] |x y. maximal idx x y}"
proof (intro set_eqI iffI)
  note f = runs_of_facts(1) [of idx] runs_of_facts(2) [of _ idx] runs_of_facts(3) [OF assms]
  have nb: "last r + 1 \<notin> set idx \<and> (hd r = 0 \<or> hd r - 1 \<notin> set idx)" if "r \<in> set (runs_of idx)" for r
    using gapped_neighbours [OF f(3) f(2)] f(1) assms that by simp
  have run_set: "set r = {hd r..last r}" "hd r \<le> last r" if "is_run r" for r
    using that unfolding is_run_def
    by (metis atLeastLessThan_upt atLeastLessThanSuc_atLeastAtMost Suc_eq_plus1,
        metis hd_in_set set_upt atLeastLessThan_iff less_Suc_eq_le Suc_eq_plus1)
  {
    fix r assume r: "r \<in> set (runs_of idx)"
    then have ir: "is_run r" by (rule f(2))
    have "set r \<subseteq> set idx" using r f(1) by (metis UN_upper set_concat)
    then have "maximal idx (hd r) (last r)"
      using run_set [OF ir] nb [OF r] by (simp add: maximal_def)
    moreover have "r = [hd r..<last r + 1]" using ir by (simp add: is_run_def)
    ultimately show "r \<in> {[x..<y + 1] |x y. maximal idx x y}" by blast
  next
    fix r assume "r \<in> {[x..<y + 1] |x y. maximal idx x y}"
    then obtain x y where r: "r = [x..<y + 1]" and m: "maximal idx x y" by blast
    then have "x \<in> set (concat (runs_of idx))" using f(1) by (auto simp: maximal_def)
    then obtain q where q: "q \<in> set (runs_of idx)" "x \<in> set q" by auto
    have iq: "is_run q" using q(1) by (rule f(2))
    have sub: "set q \<subseteq> set idx" using q(1) f(1) by (metis UN_upper set_concat)
    have "hd q = x"
    proof (rule ccontr)
      assume "hd q \<noteq> x"
      then have "x - 1 \<in> set q" "x \<noteq> 0" using q(2) run_set [OF iq] by auto
      then show False using m sub by (auto simp: maximal_def)
    qed
    moreover have "last q = y"
    proof (rule ccontr)
      assume "last q \<noteq> y"
      then consider "last q < y" | "y < last q" by linarith
      then show False
      proof cases
        case 1
        then have "last q + 1 \<in> set idx" using m q(2) run_set [OF iq] by (auto simp: maximal_def)
        then show False using nb [OF q(1)] by simp
      next
        case 2
        then have "y + 1 \<in> set q" using m q(2) run_set [OF iq] by (auto simp: maximal_def)
        then show False using m sub by (auto simp: maximal_def)
      qed
    qed
    ultimately have "q = r" using iq r by (simp add: is_run_def)
    then show "r \<in> set (runs_of idx)" using q(1) by simp
  }
qed

section \<open>Loading keeps each entry\<close>

lemma map_of_put_all:
  "map_of (put_all kvs d) k = Some v \<Longrightarrow> map_of d k = Some v \<or> (k, v) \<in> set kvs"
proof (induction kvs arbitrary: d)
  case (Cons kv kvs)
  obtain k' v' where "kv = (k', v')" by (cases kv)
  then show ?case using Cons.IH [of "dict_put k' v' d"] Cons.prems by (auto split: if_splits)
qed simp

definition plain_names :: "string \<Rightarrow> bool" where
  "plain_names symmap \<longleftrightarrow> (\<forall>f \<in> set (sym_fields symmap). CHR ''#'' \<notin> set (f ! 3))"

lemma plain_names_rows:
  assumes "plain_names symmap" "sym_rows v symmap = Inr rows" "r \<in> set rows"
  shows "CHR ''#'' \<notin> set (r_name r)"
proof -
  obtain rs where rs: "res_map (sym_row_of v) (sym_fields symmap) = Inr rs" "rows = sort_key r_off rs"
    using assms(2) by (auto simp: sym_rows_def)
  then obtain i where i: "i < length rs" "r = rs ! i" using assms(3) by (auto simp: in_set_conv_nth)
  then have i': "i < length (sym_fields symmap)" using res_map_length [OF rs(1)] by simp
  have "sym_row_of v (sym_fields symmap ! i) = Inr r"
    using res_map_nth [OF rs(1) i'] i by simp
  then have "r_name r = sym_fields symmap ! i ! 3" by (auto simp: sym_row_of_def)
  then show ?thesis using assms(1) i' by (simp add: plain_names_def)
qed

text \<open>An address in \<open>starts\<close> is the offset of the function it names.\<close>

lemma starts_entry:
  assumes "rp_load symmap code = Inr (fns, starts, code')" "plain_names symmap"
    and "map_of starts t = Some key"
  shows "\<exists>sz. map_of fns key = Some (t, sz)"
proof -
  obtain rows where rows: "sym_rows False symmap = Inr rows"
    and fns: "fns = put_all (zip (row_keys rows) (map (\<lambda>r. (r_off r, r_size r)) rows)) []"
    and starts: "starts = put_all (zip (map r_off rows) (row_keys rows)) []"
    using assms(1) by (auto simp: rp_load_def)
  have len: "length (row_keys rows) = length rows" by (simp add: row_keys_def)
  have dk: "distinct (row_keys rows)"
    unfolding row_keys_def
    by (rule distinct_number_keys) (use plain_names_rows [OF assms(2) rows] in auto)
  have "fns = zip (row_keys rows) (map (\<lambda>r. (r_off r, r_size r)) rows)"
    unfolding fns using put_all_distinct [of "zip (row_keys rows) (map (\<lambda>r. (r_off r, r_size r)) rows)" "[]"]
      dk len by (simp add: keys_def)
  moreover have "(t, key) \<in> set (zip (map r_off rows) (row_keys rows))"
    using map_of_put_all [OF assms(3) [unfolded starts]] by simp
  then obtain i where "i < length rows" "t = r_off (rows ! i)" "key = row_keys rows ! i"
    using len by (auto simp: in_set_zip)
  ultimately show ?thesis
    using dk len by (intro exI [of _ "r_size (rows ! i)"]) (auto simp: map_of_zip_nth)
qed

lemma rp_main_result:
  assumes "rp_load bs bn = Inr (bfns, bst, bc)" "rp_load ns nn = Inr (nfns, nst, nc)"
  shows "rp_main bs bn ns nn =
    Inr (rp_compare bfns bst bc nfns nst nc,
         if \<forall>k. has_key bfns k \<and> has_key nfns k \<longrightarrow> fn_pass bst nst (rp_fn_of bfns bc nfns nc) k
         then 0 else 1)"
  by (simp add: rp_main_def assms Let_def rp_compare_clean)

text \<open>A build of two functions, \<open>F\<close> calling \<open>G\<close>, and the same with \<open>G\<close> moved by one byte.\<close>

definition rp_map :: "string \<Rightarrow> string" where
  "rp_map goff = ''0'' @ [tab] @ ''5'' @ [tab] @ ''0'' @ [tab] @ ''F'' @ [nl]
     @ ''0'' @ [tab] @ ''1'' @ [tab] @ goff @ [tab] @ ''G'' @ [nl]"

lemma rp_map_rows:
  "sym_rows False (rp_map ''5'') =
     Inr [\<lparr>r_size = 5, r_off = 0, r_name = ''F''\<rparr>, \<lparr>r_size = 1, r_off = 5, r_name = ''G''\<rparr>]"
  "sym_rows False (rp_map ''6'') =
     Inr [\<lparr>r_size = 5, r_off = 0, r_name = ''F''\<rparr>, \<lparr>r_size = 1, r_off = 6, r_name = ''G''\<rparr>]"
  by (simp_all add: sym_rows_def sym_fields_def sym_row_of_def rp_map_def text_eval)

lemma rp_map_plain: "plain_names (rp_map ''5'')" "plain_names (rp_map ''6'')"
  by (simp_all add: plain_names_def sym_fields_def rp_map_def text_eval)

definition rp_old :: bytes where "rp_old = [0xE8, 0, 0, 0, 0, 0xC3]"
definition rp_new :: bytes where "rp_new = [0xE8, 1, 0, 0, 0, 0x90, 0xC3]"

lemma rp_map_load:
  "rp_load (rp_map ''5'') rp_old = Inr ([(''F'', 0, 5), (''G'', 5, 1)], [(0, ''F''), (5, ''G'')], rp_old)"
  "rp_load (rp_map ''6'') rp_new = Inr ([(''F'', 0, 5), (''G'', 6, 1)], [(0, ''F''), (6, ''G'')], rp_new)"
  by (simp_all add: rp_load_def rp_map_rows row_keys_def dict_get_def dedup_key_def)

lemma rp_sample_run:
  "rp_main (rp_map ''5'') rp_old (rp_map ''6'') rp_new =
     Inr (rp_compare [(''F'', 0, 5), (''G'', 5, 1)] [(0, ''F''), (5, ''G'')] rp_old
            [(''F'', 0, 5), (''G'', 6, 1)] [(0, ''F''), (6, ''G'')] rp_new, 0)"
proof -
  let ?fn = "rp_fn_of [(''F'', 0, 5), (''G'', 5, 1)] rp_old [(''F'', 0, 5), (''G'', 6, 1)] rp_new"
  have F: "?fn ''F'' = \<lparr>boff = 0, noff = 0, bbytes = [0xE8, 0, 0, 0, 0], nbytes = [0xE8, 1, 0, 0, 0]\<rparr>"
    and G: "?fn ''G'' = \<lparr>boff = 5, noff = 6, bbytes = [0xC3], nbytes = [0xC3]\<rparr>"
    by (simp_all add: rp_fn_of_def dict_get_def rp_old_def rp_new_def int_slice_def clamp_index_def py_slice_def)
  have "diff_idx [0xE8, 0, 0, 0, 0] [0xE8, 1, 0, 0, 0] = [1]"
    by (simp add: diff_idx_def upt_rec)
  moreover have "field_ok [(0, ''F''), (5, ''G'')] [(0, ''F''), (6, ''G'')] (?fn ''F'') 1"
    unfolding F by (simp add: field_ok_def py_slice_def le_signed_def has_key_def keys_def)
  then have "run_ok [(0, ''F''), (5, ''G'')] [(0, ''F''), (6, ''G'')] (?fn ''F'') [1]"
    unfolding run_ok_def list_ex_iff by (rule bexI [of _ 1]) (simp add: set_windows F)
  ultimately have "fn_pass [(0, ''F''), (5, ''G'')] [(0, ''F''), (6, ''G'')] ?fn ''F''"
    unfolding fn_pass_def F by (simp add: runs_of_def add_run_def)
  moreover have "fn_pass [(0, ''F''), (5, ''G'')] [(0, ''F''), (6, ''G'')] ?fn ''G''"
    unfolding fn_pass_def G by simp
  ultimately show ?thesis
    unfolding rp_main_result [OF rp_map_load] by (auto simp: has_key_def keys_def)
qed

section \<open>Properties\<close>

text \<open>
  C1: When the script exits with 0, the claim in its docstring holds: in every function of both
  builds (except \<open>SYM-NAME-AUTO\<close>) the code has the same length, and every byte that differs lies in a
  4-byte field whose old value, read as a signed rel32, lands on the entry of some function of the
  baseline and whose new value lands on the entry of the function of the same name in the new build.
\<close>

theorem rp_main_sound:
  assumes "rp_load bs bn = Inr (bfns, bst, bc)" "rp_load ns nn = Inr (nfns, nst, nc)"
    and "plain_names bs" "plain_names ns"
    and "rp_main bs bn ns nn = Inr (st, 0)"
    and "map_of bfns k = Some (bo, bsz)" "map_of nfns k = Some (no, nsz)" "\<not> contains ''SYM-NAME-AUTO'' k"
  shows "let a = int_slice bc bo (bo + bsz); b = int_slice nc no (no + nsz) in
    length a = length b \<and>
    (\<forall>i < length a. a ! i \<noteq> b ! i \<longrightarrow>
      (\<exists>s callee bsz' nsz'. s \<le> i \<and> i < s + 4 \<and> s + 4 \<le> length a \<and>
        map_of bfns callee = Some (bo + int s + 4 + le_signed (py_slice a s (s + 4)), bsz') \<and>
        map_of nfns callee = Some (no + int s + 4 + le_signed (py_slice b s (s + 4)), nsz')))"
proof -
  let ?fn = "rp_fn_of bfns bc nfns nc"
  define a b where "a = int_slice bc bo (bo + bsz)" and "b = int_slice nc no (no + nsz)"
  have f: "boff (?fn k) = bo" "noff (?fn k) = no" "bbytes (?fn k) = a" "nbytes (?fn k) = b"
    using assms(6,7) by (simp_all add: rp_fn_of_def dict_get_def a_def b_def)
  have pass: "fn_pass bst nst ?fn k"
  proof -
    have "\<forall>k. has_key bfns k \<and> has_key nfns k \<longrightarrow> fn_pass bst nst ?fn k"
      using assms(5) unfolding rp_main_result [OF assms(1,2)] by (simp split: if_splits)
    then show ?thesis using assms(6,7) by (simp add: has_key_map_of)
  qed
  have "length a = length b" using pass assms(8) f by (simp add: fn_pass_def)
  moreover have "\<exists>s callee bsz' nsz'. s \<le> i \<and> i < s + 4 \<and> s + 4 \<le> length a \<and>
        map_of bfns callee = Some (bo + int s + 4 + le_signed (py_slice a s (s + 4)), bsz') \<and>
        map_of nfns callee = Some (no + int s + 4 + le_signed (py_slice b s (s + 4)), nsz')"
    if di: "i < length a" "a ! i \<noteq> b ! i" for i
  proof -
    obtain s where s: "s \<le> i" "i < s + 4" "s + 4 \<le> length a" "field_ok bst nst (?fn k) s"
      using fn_pass_byte [OF pass assms(8)] di unfolding f by blast
    then obtain callee where
      "map_of bst (bo + int s + 4 + le_signed (py_slice a s (s + 4))) = Some callee"
      "map_of nst (no + int s + 4 + le_signed (py_slice b s (s + 4))) = Some callee"
      by (auto simp: field_ok_def Let_def has_key_map_of f)
    then show ?thesis
      using s starts_entry [OF assms(1,3)] starts_entry [OF assms(2,4)] by blast
  qed
  ultimately show ?thesis by (simp add: a_def b_def Let_def)
qed

lemma rp_main_sound_witness:
  "\<exists>s callee bsz' nsz'. s \<le> 1 \<and> 1 < s + 4 \<and> s + 4 \<le> 5 \<and>
    map_of [(''F'', 0, 5 :: int), (''G'', 5, 1)] callee
      = Some (0 + int s + 4 + le_signed (py_slice (int_slice rp_old 0 (0 + 5)) s (s + 4)), bsz') \<and>
    map_of [(''F'', 0, 5 :: int), (''G'', 6, 1)] callee
      = Some (0 + int s + 4 + le_signed (py_slice (int_slice rp_new 0 (0 + 5)) s (s + 4)), nsz')"
proof -
  have "map_of [(''F'', 0, 5), (''G'', 5, 1)] ''F'' = Some (0 :: int, 5 :: int)"
    and "map_of [(''F'', 0, 5), (''G'', 6, 1)] ''F'' = Some (0 :: int, 5 :: int)" by simp_all
  moreover have "\<not> contains ''SYM-NAME-AUTO'' ''F''" by (simp add: starts_with_def)
  moreover have "length (int_slice rp_old 0 (0 + 5)) = 5"
    "int_slice rp_old 0 (0 + 5) ! 1 \<noteq> int_slice rp_new 0 (0 + 5) ! 1"
    by (simp_all add: rp_old_def rp_new_def int_slice_def clamp_index_def py_slice_def)
  ultimately show ?thesis
    using rp_main_sound [OF rp_map_load rp_map_plain rp_sample_run] unfolding Let_def
    by (metis one_less_numeral_iff semiring_norm(77))
qed

text \<open>
  C2: The verdict is exact.  The script exits with 0 when, and only when, every common function
  (except \<open>SYM-NAME-AUTO\<close>) has the same length in both builds and every maximal interval of differing
  bytes fits in one 4-byte window that is a relocated field; otherwise it exits with 1.
\<close>

theorem rp_main_exact:
  assumes "rp_load bs bn = Inr (bfns, bst, bc)" "rp_load ns nn = Inr (nfns, nst, nc)"
  shows "\<exists>st status. rp_main bs bn ns nn = Inr (st, status) \<and> status \<le> 1 \<and>
    (status = 0 \<longleftrightarrow> (\<forall>k f. has_key bfns k \<and> has_key nfns k \<and> \<not> contains ''SYM-NAME-AUTO'' k \<and>
      f = rp_fn_of bfns bc nfns nc k \<longrightarrow>
      length (bbytes f) = length (nbytes f) \<and>
      (\<forall>x y. maximal (diff_idx (bbytes f) (nbytes f)) x y \<longrightarrow>
        (\<exists>s. s \<le> x \<and> y \<le> s + 3 \<and> s + 4 \<le> length (bbytes f) \<and> field_ok bst nst f s))))"
proof -
  have pass: "fn_pass bst nst (rp_fn_of bfns bc nfns nc) k \<longleftrightarrow>
      (\<forall>f. \<not> contains ''SYM-NAME-AUTO'' k \<and> f = rp_fn_of bfns bc nfns nc k \<longrightarrow>
      length (bbytes f) = length (nbytes f) \<and>
      (\<forall>x y. maximal (diff_idx (bbytes f) (nbytes f)) x y \<longrightarrow>
        (\<exists>s. s \<le> x \<and> y \<le> s + 3 \<and> s + 4 \<le> length (bbytes f) \<and> field_ok bst nst f s)))" for k
  proof -
    define f where "f = rp_fn_of bfns bc nfns nc k"
    let ?idx = "diff_idx (bbytes f) (nbytes f)"
    have sorted: "sorted_wrt (<) ?idx" by (simp add: diff_idx_def sorted_wrt_filter)
    have "(\<forall>r \<in> set (runs_of ?idx). run_ok bst nst f r) \<longleftrightarrow>
        (\<forall>x y. maximal ?idx x y \<longrightarrow> run_ok bst nst f [x..<y + 1])"
      unfolding runs_of_maximal [OF sorted] by blast
    moreover have "run_ok bst nst f [x..<y + 1] \<longleftrightarrow>
        (\<exists>s. s \<le> x \<and> y \<le> s + 3 \<and> s + 4 \<le> length (bbytes f) \<and> field_ok bst nst f s)" if "x \<le> y" for x y
    proof -
      have l: "last [x..<y + 1] = y" "hd [x..<y + 1] = x" using that by (simp, simp add: upt_rec)
      show ?thesis unfolding run_ok_def list_ex_iff Bex_def set_windows l by auto
    qed
    ultimately show ?thesis by (auto simp: fn_pass_def f_def maximal_def)
  qed
  have all: "(\<forall>k. has_key bfns k \<and> has_key nfns k \<longrightarrow> fn_pass bst nst (rp_fn_of bfns bc nfns nc) k) \<longleftrightarrow>
      (\<forall>k f. has_key bfns k \<and> has_key nfns k \<and> \<not> contains ''SYM-NAME-AUTO'' k \<and>
      f = rp_fn_of bfns bc nfns nc k \<longrightarrow>
      length (bbytes f) = length (nbytes f) \<and>
      (\<forall>x y. maximal (diff_idx (bbytes f) (nbytes f)) x y \<longrightarrow>
        (\<exists>s. s \<le> x \<and> y \<le> s + 3 \<and> s + 4 \<le> length (bbytes f) \<and> field_ok bst nst f s)))"
    unfolding pass by blast
  show ?thesis unfolding rp_main_result [OF assms] all [symmetric] by auto
qed

lemma rp_main_exact_witness:
  "\<exists>st status. rp_main (rp_map ''5'') rp_old (rp_map ''6'') rp_new = Inr (st, status) \<and> status \<le> 1"
  using rp_main_exact [OF rp_map_load] by blast

end
