(* ===== verification/LispForms.thy ===== *)
theory LispForms
  imports PyText
begin

text \<open>
  The three readers of Lisp text: \<open>forms\<close> of \<open>scripts/push-serial.py\<close> (top-level forms, comments
  dropped, flattened to one line), and \<open>read_forms\<close> and \<open>split_toplevel\<close> of
  \<open>gen-flet-battery.py\<close> (top-level forms as slices of the text; the subforms of one form), with the
  scripts around them: \<open>push_forms\<close>, the upload over a serial port, and \<open>battery\<close>, the generated
  script.  The specification is a four-mode lexer (code, string, escape, comment): what the readers
  return on text made of balanced forms is stated over it.
\<close>

section \<open>\<open>push-serial.py\<close>\<close>

abbreviation semi :: char where "semi \<equiv> CHR '';''"
abbreviation lpar :: char where "lpar \<equiv> CHR ''(''"
abbreviation rpar :: char where "rpar \<equiv> CHR '')''"

text \<open>\<open>re.sub(r'\\s+', ' ', f)\<close>.\<close>

function flatten_ws :: "string \<Rightarrow> string" where
  "flatten_ws [] = []"
| "flatten_ws (c # cs) =
     (if py_space c then CHR '' '' # flatten_ws (dropWhile py_space cs) else c # flatten_ws cs)"
  by pat_completeness auto
termination
  by (relation "measure length") (auto simp: le_imp_less_Suc length_dropWhile_le)

function forms_scan :: "int \<Rightarrow> string \<Rightarrow> bool \<Rightarrow> bool \<Rightarrow> string list \<Rightarrow> string \<Rightarrow> string list" where
  "forms_scan depth cur instr esc out [] = out"
| "forms_scan depth cur instr esc out (c # cs) =
     (if instr then
        (if esc then forms_scan depth (cur @ [c]) True False out cs
         else if c = bslash then forms_scan depth (cur @ [c]) True True out cs
         else if c = dquote then forms_scan depth (cur @ [c]) False esc out cs
         else forms_scan depth (cur @ [c]) True esc out cs)
      else if c = semi then forms_scan depth cur False esc out (dropWhile (\<lambda>x. x \<noteq> nl) cs)
      else if c = dquote then forms_scan depth (cur @ [c]) True esc out cs
      else if c = lpar then forms_scan (depth + 1) (cur @ [c]) False esc out cs
      else if c = rpar then
        (if depth - 1 = 0 then forms_scan 0 [] False esc (out @ [strip (cur @ [c])]) cs
         else forms_scan (depth - 1) (cur @ [c]) False esc out cs)
      else if depth = 0 \<and> c \<in> {CHR '' '', tab, CHR 0x0D, nl} then forms_scan depth cur False esc out cs
      else forms_scan depth (cur @ [c]) False esc out cs)"
  by pat_completeness auto
termination
  by (relation "measure (\<lambda>(_, _, _, _, _, cs). length cs)") (auto simp: le_imp_less_Suc length_dropWhile_le)

definition forms :: "string \<Rightarrow> string list" where
  "forms src = map flatten_ws (filter (\<lambda>f. strip f \<noteq> []) (forms_scan 0 [] False False [] src))"

text \<open>
  The upload.  The chunks that \<open>s.read\<close> returns for one form before its 30-second deadline are given
  as a list: the loop stops at the first prefix that ends in a prompt, or at the deadline.
\<close>

definition byte_space :: "byte \<Rightarrow> bool" where
  "byte_space b \<longleftrightarrow> b \<in> {9, 10, 11, 12, 13, 32}"

definition rstrip_bytes :: "bytes \<Rightarrow> bytes" where
  "rstrip_bytes b = rev (dropWhile byte_space (rev b))"

definition at_prompt :: "bytes \<Rightarrow> bool" where
  "at_prompt b \<longleftrightarrow> (let r = rstrip_bytes b in r \<noteq> [] \<and> last r = 0x3E)"

fun await_prompt :: "bytes \<Rightarrow> bytes list \<Rightarrow> bytes" where
  "await_prompt b [] = b"
| "await_prompt b (d # ds) = (if at_prompt (b @ d) then b @ d else await_prompt (b @ d) ds)"

definition latin1 :: "bytes \<Rightarrow> string" where
  "latin1 b = map (\<lambda>x. char_of (unat x)) b"

definition result_of :: "bytes \<Rightarrow> string" where
  "result_of b =
     (let res = split_on nl (strip (latin1 (filter (\<lambda>x. x \<noteq> 0x0D) b)))
      in if 2 \<le> length res then res ! (length res - 2) else last res)"

definition push_line :: "string \<Rightarrow> bytes \<Rightarrow> string" where
  "push_line form b =
     (if at_prompt b then ''ok '' else ''?? '') @ take 52 form @ ''  -> '' @ take 40 (result_of b)"

fun push_forms :: "string list \<Rightarrow> bytes list list \<Rightarrow> (bytes \<times> string \<times> bool) list" where
  "push_forms [] replies = []"
| "push_forms (form # fs) replies =
     (let b = await_prompt [] (case replies of [] \<Rightarrow> [] | r # _ \<Rightarrow> r)
      in (encode (form @ [CHR 0x0D, nl]), push_line form b, at_prompt b) # push_forms fs (tl replies))"

record push_result =
  sent :: bytes
  printed :: "string list"

definition push_main :: "string list \<Rightarrow> bytes list list \<Rightarrow> push_result res" where
  "push_main files replies =
     (if files = [] then Inl (SystemExit 1)
      else let runs = push_forms (concat (map forms files)) replies
           in Inr \<lparr>sent = [0x0D, 0x0A] @ concat (map fst runs),
                   printed = map (\<lambda>(_, l, _). l) runs
                     @ [''== '' @ dec (length (filter (\<lambda>(_, _, ok). ok) runs)) @ ''/'' @ dec (length runs)
                        @ '' forms evaluated ==''] \<rparr>)"

section \<open>\<open>gen-flet-battery.py\<close>\<close>

text \<open>\<open>text.find('\n', i)\<close>, or the end of the text.\<close>

definition line_end :: "string \<Rightarrow> nat \<Rightarrow> nat" where
  "line_end text i = i + length (takeWhile (\<lambda>x. x \<noteq> nl) (drop i text))"

lemma line_end_gt:
  "\<not> length text \<le> i \<Longrightarrow> semi = text ! i \<Longrightarrow> length text - line_end text i < length text - i"
proof -
  assume i: "\<not> length text \<le> i" "semi = text ! i"
  then have "drop i text = semi # drop (Suc i) text" by (simp add: Cons_nth_drop_Suc)
  then have "i < line_end text i" by (simp add: line_end_def)
  then show ?thesis using i(1) by simp
qed

function rf_scan :: "string \<Rightarrow> nat \<Rightarrow> int \<Rightarrow> nat option \<Rightarrow> bool \<Rightarrow> bool \<Rightarrow> string list \<Rightarrow> string list" where
  "rf_scan text i depth start instr esc out =
     (if length text \<le> i then out
      else let c = text ! i in
        if instr then
          (if esc then rf_scan text (i + 1) depth start True False out
           else if c = bslash then rf_scan text (i + 1) depth start True True out
           else if c = dquote then rf_scan text (i + 1) depth start False esc out
           else rf_scan text (i + 1) depth start True esc out)
        else if c = semi then rf_scan text (line_end text i) depth start False esc out
        else if c = dquote then rf_scan text (i + 1) depth start True esc out
        else if c = lpar then
          rf_scan text (i + 1) (depth + 1) (if depth = 0 then Some i else start) False esc out
        else if c = rpar then
          rf_scan text (i + 1) (depth - 1) start False esc
            (if depth - 1 = 0
             then out @ [py_slice text (case start of None \<Rightarrow> 0 | Some s \<Rightarrow> s) (i + 1)] else out)
        else rf_scan text (i + 1) depth start False esc out)"
  by pat_completeness auto

termination
  by (relation "measure (\<lambda>(text, i, _). length text - i)") (auto intro: line_end_gt)

declare rf_scan.simps [simp del]

definition read_forms :: "string \<Rightarrow> string list" where
  "read_forms text = rf_scan text 0 0 None False False []"

function st_scan ::
    "string \<Rightarrow> nat \<Rightarrow> int \<Rightarrow> nat \<Rightarrow> bool \<Rightarrow> bool \<Rightarrow> bool \<Rightarrow> string list \<Rightarrow> string list" where
  "st_scan inner i depth start began instr esc subs =
     (if length inner \<le> i then (if began then subs @ [drop start inner] else subs)
      else let c = inner ! i in
        if instr then
          (if esc then st_scan inner (i + 1) depth start began True False subs
           else if c = bslash then st_scan inner (i + 1) depth start began True True subs
           else if c = dquote then st_scan inner (i + 1) depth start began False esc subs
           else st_scan inner (i + 1) depth start began True esc subs)
        else if c = semi then st_scan inner (line_end inner i) depth start began False esc subs
        else if c \<in> {CHR '' '', tab, nl} then
          (if began \<and> depth = 0
           then st_scan inner (i + 1) depth start False False esc (subs @ [py_slice inner start i])
           else st_scan inner (i + 1) depth start began False esc subs)
        else let start' = (if began then start else i) in
          st_scan inner (i + 1)
            (if c = lpar then depth + 1 else if c = rpar then depth - 1 else depth)
            start' True (c = dquote) esc subs)"
  by pat_completeness auto
termination
  by (relation "measure (\<lambda>(inner, i, _). length inner - i)") (auto intro: line_end_gt)

declare st_scan.simps [simp del]

definition split_toplevel :: "string \<Rightarrow> string list res" where
  "split_toplevel s =
     res_bind (py_nth s 0) (\<lambda>c.
     res_bind (require (c = lpar) AssertionError) (\<lambda>_.
       Inr (st_scan (butlast (tl s)) 0 0 0 False False False [])))"

text \<open>\<open>str.lower\<close> on Latin-1.\<close>

definition lower_char :: "char \<Rightarrow> char" where
  "lower_char c =
     (let n = of_char c :: nat
      in if (65 \<le> n \<and> n \<le> 90) \<or> (192 \<le> n \<and> n \<le> 222 \<and> n \<noteq> 215) then char_of (n + 32) else c)"

definition battery_test :: "string \<Rightarrow> string \<Rightarrow> string list" where
  "battery_test name body =
     [''(setq *fb0* (or *jit-fallback-count* 0))'',
      ''(handler-case (let ((v (progn '' @ replace_char nl '' '' body @ '')))'',
      ''  (format t '' @ [dquote] @ ''~A val=~S fbdelta=~A terr=~A~%'' @ [dquote] @ '' '' @ [dquote] @ name
        @ [dquote] @ '' v (- (or *jit-fallback-count* 0) *fb0*) *jit-translate-err-count*))'',
      ''  (t (c) (format t '' @ [dquote] @ ''~A CRASH ~A terr=~A~%'' @ [dquote] @ '' '' @ [dquote] @ name
        @ [dquote] @ '' c *jit-translate-err-count*)))'']"

definition battery_form :: "string \<Rightarrow> string list res" where
  "battery_form form =
     res_bind (split_toplevel form) (\<lambda>subs.
       if subs = [] \<or> map lower_char (subs ! 0) \<noteq> ''deftest'' then Inr []
       else res_bind (py_nth subs 1) (\<lambda>name.
         Inr (battery_test name (if 2 < length subs then subs ! 2 else ''nil''))))"

definition battery :: "string \<Rightarrow> string list res" where
  "battery text =
     res_bind (res_map battery_form (read_forms text)) (\<lambda>tests.
       Inr (['';; auto-generated flet/labels battery'', ''(defvar *fb0* 0)''] @ concat tests))"

section \<open>The lexer\<close>

text \<open>
  The specification: Lisp text is read in one of four modes.  \<open>closes\<close> says that a text, read inside
  \<open>d\<close> open parentheses, closes the last of them with its last character, and \<open>unclosed\<close> that it never does; \<open>silent\<close> that
  a text has no parenthesis outside strings and comments, \<open>quiet\<close> that it ends outside both, too;
  \<open>stray\<close> that some parenthesis closes nothing; \<open>uncomment\<close> drops comments, and \<open>gap_text\<close> also
  white space outside strings.  \<open>decomp\<close> cuts a text into gaps, balanced forms and a rest that has no
  complete form.
\<close>

datatype lex_mode = Code | Str | Esc | Comment

fun next_mode :: "lex_mode \<Rightarrow> char \<Rightarrow> lex_mode" where
  "next_mode Code c = (if c = semi then Comment else if c = dquote then Str else Code)"
| "next_mode Str c = (if c = bslash then Esc else if c = dquote then Code else Str)"
| "next_mode Esc c = Str"
| "next_mode Comment c = (if c = nl then Code else Comment)"

fun closes :: "lex_mode \<Rightarrow> nat \<Rightarrow> string \<Rightarrow> bool" where
  "closes m d [] = False"
| "closes m d (c # cs) =
     (if m = Code \<and> c = lpar then closes Code (d + 1) cs
      else if m = Code \<and> c = rpar then (if d = 1 then cs = [] else closes Code (d - 1) cs)
      else closes (next_mode m c) d cs)"

definition balanced :: "string \<Rightarrow> bool" where
  "balanced f \<longleftrightarrow> (\<exists>g. f = lpar # g \<and> closes Code 1 g)"

fun silent :: "lex_mode \<Rightarrow> string \<Rightarrow> bool" where
  "silent m [] = True"
| "silent m (c # cs) = ((m = Code \<longrightarrow> c \<noteq> lpar \<and> c \<noteq> rpar) \<and> silent (next_mode m c) cs)"

definition quiet :: "lex_mode \<Rightarrow> string \<Rightarrow> bool" where
  "quiet m s \<longleftrightarrow> silent m s \<and> foldl next_mode m s = Code"

fun unclosed :: "lex_mode \<Rightarrow> nat \<Rightarrow> string \<Rightarrow> bool" where
  "unclosed m d [] = True"
| "unclosed m d (c # cs) =
     (if m = Code \<and> c = lpar then unclosed Code (d + 1) cs
      else if m = Code \<and> c = rpar then d \<noteq> 1 \<and> unclosed Code (d - 1) cs
      else unclosed (next_mode m c) d cs)"

fun stray :: "lex_mode \<Rightarrow> nat \<Rightarrow> string \<Rightarrow> bool" where
  "stray m d [] = False"
| "stray m d (c # cs) =
     (if m = Code \<and> c = lpar then stray Code (d + 1) cs
      else if m = Code \<and> c = rpar then d = 0 \<or> stray Code (d - 1) cs
      else stray (next_mode m c) d cs)"

fun uncomment :: "lex_mode \<Rightarrow> string \<Rightarrow> string" where
  "uncomment m [] = []"
| "uncomment m (c # cs) =
     (if next_mode m c = Comment then uncomment Comment cs else c # uncomment (next_mode m c) cs)"

definition form_ws :: "char \<Rightarrow> bool" where
  "form_ws c \<longleftrightarrow> c \<in> {CHR '' '', tab, CHR 0x0D, nl}"

fun gap_text :: "lex_mode \<Rightarrow> string \<Rightarrow> string" where
  "gap_text m [] = []"
| "gap_text m (c # cs) =
     (if next_mode m c = Comment \<or> (m = Code \<or> m = Comment) \<and> form_ws c then gap_text (next_mode m c) cs
      else c # gap_text (next_mode m c) cs)"

fun weave :: "(string \<times> string) list \<Rightarrow> string" where
  "weave [] = []"
| "weave ((g, f) # gfs) = g @ f @ weave gfs"

definition decomp :: "string \<Rightarrow> (string \<times> string) list \<Rightarrow> string \<Rightarrow> bool" where
  "decomp src gfs rest \<longleftrightarrow>
     src = weave gfs @ rest \<and> (\<forall>(g, f) \<in> set gfs. quiet Code g \<and> balanced f) \<and>
     (silent Code rest \<or> (\<exists>g u. rest = g @ lpar # u \<and> quiet Code g \<and> unclosed Code 1 u))"

lemma quiet_simps [simp]:
  "quiet m [] \<longleftrightarrow> m = Code"
  "quiet m (c # cs) \<longleftrightarrow> (m = Code \<longrightarrow> c \<noteq> lpar \<and> c \<noteq> rpar) \<and> quiet (next_mode m c) cs"
  by (auto simp: quiet_def)

text \<open>A text without a stray parenthesis starts with a gap and then ends, or has a form or an open one.\<close>

lemma closes_or_unclosed:
  "1 \<le> d \<Longrightarrow> unclosed m d s \<or> (\<exists>f t. s = f @ t \<and> closes m d f)"
proof (induction m d s rule: unclosed.induct)
  case (2 m d c cs)
  have step: ?case if "unclosed m' d' cs \<or> (\<exists>f t. cs = f @ t \<and> closes m' d' f)"
    and "unclosed m' d' cs \<Longrightarrow> unclosed m d (c # cs)" "\<And>f. closes m' d' f \<Longrightarrow> closes m d (c # f)" for m' d'
    using that by (metis append_Cons)
  consider "m = Code" "c = lpar" | "m = Code" "c = rpar" "d = 1" | "m = Code" "c = rpar" "d \<noteq> 1"
    | "\<not> (m = Code \<and> c = lpar)" "\<not> (m = Code \<and> c = rpar)" by blast
  then show ?case
  proof cases
    case 1
    with "2.IH"(1) show ?thesis by (intro step [of Code "d + 1"]) auto
  next
    case 2
    then have "c # cs = [c] @ cs \<and> closes m d [c]" by simp
    then show ?thesis by blast
  next
    case 3
    with "2.IH"(2) "2.prems" show ?thesis by (intro step [of Code "d - 1"]) auto
  next
    case 4
    with "2.IH"(3) "2.prems" show ?thesis by (intro step [of "next_mode m c" d]) auto
  qed
qed simp

lemma silent_or_paren:
  "silent m s \<or> (\<exists>g c t. s = g @ c # t \<and> (c = lpar \<or> c = rpar) \<and> quiet m g)"
proof (induction m s rule: silent.induct)
  case (2 m c cs)
  show ?case
  proof (cases "m = Code \<and> (c = lpar \<or> c = rpar)")
    case True
    then show ?thesis by (intro disjI2 exI [of _ "[]"] exI [of _ c] exI [of _ cs]) simp
  next
    case False
    from "2.IH" consider "silent (next_mode m c) cs"
      | g c' t where "cs = g @ c' # t" "c' = lpar \<or> c' = rpar" "quiet (next_mode m c) g" by blast
    then show ?thesis
    proof cases
      case 1
      with False show ?thesis by simp
    next
      case (2 g c' t)
      with False show ?thesis
        by (intro disjI2 exI [of _ "c # g"] exI [of _ c'] exI [of _ t]) simp
    qed
  qed
qed simp

lemma stray_quiet: "quiet m g \<Longrightarrow> stray m d (g @ t) = stray Code d t"
  by (induction g arbitrary: m) auto

lemma stray_closes: "closes m d f \<Longrightarrow> 1 \<le> d \<Longrightarrow> stray m d (f @ t) = stray Code 0 t"
  by (induction m d f rule: closes.induct) (auto split: if_splits)

lemma decomp_exists: "\<not> stray Code 0 src \<Longrightarrow> \<exists>gfs rest. decomp src gfs rest"
proof (induction "length src" arbitrary: src rule: less_induct)
  case less
  from silent_or_paren [of Code src] show ?case
  proof
    assume "silent Code src"
    then have "decomp src [] src" by (simp add: decomp_def)
    then show ?thesis by blast
  next
    assume "\<exists>g c t. src = g @ c # t \<and> (c = lpar \<or> c = rpar) \<and> quiet Code g"
    then obtain g c t where g: "src = g @ c # t" "c = lpar \<or> c = rpar" "quiet Code g" by blast
    with less.prems have c: "c = lpar" by (auto simp: stray_quiet)
    from closes_or_unclosed [OF order_refl, of Code t] show ?thesis
    proof
      assume "unclosed Code 1 t"
      then have "decomp src [] src" unfolding decomp_def using g(1,3) c by auto
      then show ?thesis by blast
    next
      assume "\<exists>f u. t = f @ u \<and> closes Code 1 f"
      then obtain f u where f: "t = f @ u" "closes Code 1 f" by blast
      have "\<not> stray Code 0 u"
        using less.prems g c f by (simp add: stray_quiet stray_closes)
      then obtain gfs rest where d: "decomp u gfs rest"
        using less.hyps [of u] g(1) f(1) by auto
      have "balanced (lpar # f)" using f(2) by (simp add: balanced_def)
      with d g c f have "decomp src ((g, lpar # f) # gfs) rest" by (simp add: decomp_def)
      then show ?thesis by blast
    qed
  qed
qed

section \<open>\<open>read_forms\<close> as a machine\<close>

fun mode_of :: "bool \<Rightarrow> bool \<Rightarrow> lex_mode" where
  "mode_of instr esc = (if instr then (if esc then Esc else Str) else Code)"

fun rf_machine :: "string \<Rightarrow> nat \<Rightarrow> lex_mode \<Rightarrow> int \<Rightarrow> nat option \<Rightarrow> string list \<Rightarrow> string \<Rightarrow> string list" where
  "rf_machine src i m depth start out [] = out"
| "rf_machine src i m depth start out (c # cs) =
     (if m = Code \<and> c = lpar then
        rf_machine src (i + 1) Code (depth + 1) (if depth = 0 then Some i else start) out cs
      else if m = Code \<and> c = rpar then
        rf_machine src (i + 1) Code (depth - 1) start
          (if depth - 1 = 0
           then out @ [py_slice src (case start of None \<Rightarrow> 0 | Some s \<Rightarrow> s) (i + 1)] else out) cs
      else rf_machine src (i + 1) (next_mode m c) depth start out cs)"

lemma rf_machine_comment:
  "rf_machine src i Comment d st out cs =
   rf_machine src (i + length (takeWhile (\<lambda>x. x \<noteq> nl) cs)) Comment d st out (dropWhile (\<lambda>x. x \<noteq> nl) cs)"
  by (induction cs arbitrary: i) auto

lemma rf_machine_newline:
  "rf_machine src i Comment d st out (dropWhile (\<lambda>x. x \<noteq> nl) xs) =
   rf_machine src i Code d st out (dropWhile (\<lambda>x. x \<noteq> nl) xs)"
  by (induction xs) auto

lemma rf_scan_machine:
  "i \<le> length src \<Longrightarrow> (esc \<longrightarrow> instr) \<Longrightarrow>
     rf_scan src i d st instr esc out = rf_machine src i (mode_of instr esc) d st out (drop i src)"
proof (induction src i d st instr esc out rule: rf_scan.induct)
  case (1 src i d st instr esc out)
  show ?case
  proof (cases "length src \<le> i")
    case True
    then show ?thesis using "1.prems" by (simp add: rf_scan.simps)
  next
    case False
    then have dr: "drop i src = src ! i # drop (i + 1) src"
      by (simp add: Cons_nth_drop_Suc)
    note IH = "1.IH" [OF False refl]
    show ?thesis
    proof (cases "\<not> instr \<and> src ! i = semi")
      case True
      define k where "k = length (takeWhile (\<lambda>x. x \<noteq> nl) (drop (i + 1) src))"
      have le: "line_end src i = i + 1 + k" using True dr by (simp add: line_end_def k_def)
      have k: "i + 1 + k \<le> length src"
        using False length_takeWhile_le [of "\<lambda>x. x \<noteq> nl" "drop (i + 1) src"] by (simp add: k_def)
      have dw: "dropWhile (\<lambda>x. x \<noteq> nl) (drop (i + 1) src) = drop (i + 1 + k) src"
        unfolding k_def by (metis dropWhile_eq_drop drop_drop add.commute)
      have "rf_scan src i d st instr esc out = rf_scan src (i + 1 + k) d st False esc out"
        using True False by (subst rf_scan.simps) (simp add: Let_def le)
      also have "\<dots> = rf_machine src (i + 1 + k) Code d st out (drop (i + 1 + k) src)"
        using IH(5) True k "1.prems" by (simp add: le)
      also have "\<dots> = rf_machine src (i + 1) Comment d st out (drop (i + 1) src)"
        using rf_machine_newline [of src "i + 1 + k" d st out "drop (i + 1) src", unfolded dw]
          rf_machine_comment [of src "i + 1" d st out "drop (i + 1) src", folded k_def, unfolded dw]
        by simp
      finally show ?thesis using True "1.prems" by (simp add: dr)
    next
      case ne: False
      show ?thesis
        using ne False "1.prems" IH
        by (subst rf_scan.simps) (auto simp: Let_def dr)
    qed
  qed
qed

lemma read_forms_machine: "read_forms src = rf_machine src 0 Code 0 None [] src"
  using rf_scan_machine [of 0 src False False 0 None "[]"] by (simp add: read_forms_def)

lemma rf_machine_quiet:
  "quiet m g \<Longrightarrow>
     rf_machine src i m d st out (g @ t) = rf_machine src (i + length g) Code d st out t"
  by (induction g arbitrary: m i) auto

lemma rf_machine_silent: "silent m g \<Longrightarrow> rf_machine src i m d st out g = out"
  by (induction g arbitrary: m i) auto

lemma int_plus_1: "int d + 1 = int (Suc d)"
  and int_minus_1: "int d - int (Suc 0) = int d - 1"
  by simp_all

lemma rf_machine_unclosed:
  "unclosed m d u \<Longrightarrow> 1 \<le> d \<Longrightarrow> rf_machine src i m (int d) st out u = out"
proof (induction m d u arbitrary: i st rule: unclosed.induct)
  case (2 m d c cs)
  have "int d - 1 = int (d - 1)" using "2.prems" by simp
  with 2 show ?case by (auto split: if_splits simp: int_plus_1 simp del: of_nat_Suc)
qed simp

lemma rf_machine_closes:
  "closes m d f \<Longrightarrow> 1 \<le> d \<Longrightarrow>
     rf_machine src i m (int d) (Some a) out (f @ t)
   = rf_machine src (i + length f) Code 0 (Some a) (out @ [py_slice src a (i + length f)]) t"
proof (induction m d f arbitrary: i rule: closes.induct)
  case (2 m d c cs)
  have "int d - 1 = int (d - 1)" using "2.prems" by simp
  with 2 show ?case by (auto split: if_splits simp: int_plus_1 simp del: of_nat_Suc)
qed simp

lemma rf_machine_form:
  assumes "balanced f"
  shows "rf_machine (pre @ f @ t) (length pre) Code 0 st out (f @ t)
    = rf_machine (pre @ f @ t) (length pre + length f) Code 0 (Some (length pre)) (out @ [f]) t"
proof -
  obtain g where f: "f = lpar # g" "closes Code 1 g" using assms by (auto simp: balanced_def)
  have "py_slice (pre @ f @ t) (length pre) (length pre + length f) = f"
    by (simp add: py_slice_def)
  then show ?thesis
    using rf_machine_closes [OF f(2), of "pre @ f @ t" "length pre + 1" "length pre" out t] f(1) by simp
qed

lemma rf_machine_weave:
  "(\<forall>(g, f) \<in> set gfs. quiet Code g \<and> balanced f) \<Longrightarrow>
     \<exists>st'. rf_machine (pre @ weave gfs @ t) (length pre) Code 0 st out (weave gfs @ t)
       = rf_machine (pre @ weave gfs @ t) (length pre + length (weave gfs)) Code 0 st' (out @ map snd gfs) t"
proof (induction gfs arbitrary: pre st out)
  case (Cons gf gfs)
  obtain g f where gf: "gf = (g, f)" by (cases gf)
  let ?src = "pre @ weave (gf # gfs) @ t"
  have g: "quiet Code g" "balanced f" using Cons.prems gf by auto
  have "rf_machine ?src (length pre) Code 0 st out (weave (gf # gfs) @ t)
      = rf_machine ?src (length (pre @ g)) Code 0 st out (f @ weave gfs @ t)"
    using g(1) by (simp add: gf rf_machine_quiet)
  also have "\<dots> = rf_machine ?src (length (pre @ g @ f)) Code 0 (Some (length (pre @ g))) (out @ [f]) (weave gfs @ t)"
    using rf_machine_form [OF g(2), of "pre @ g" "weave gfs @ t" st out] by (simp add: gf add.assoc)
  finally show ?case
    using Cons.IH [of "pre @ g @ f" "Some (length (pre @ g))" "out @ [f]"] Cons.prems
    by (simp add: gf add.assoc)
qed auto

lemma read_forms_decomp:
  assumes "decomp src gfs rest"
  shows "read_forms src = map snd gfs"
proof -
  from assms have d: "src = weave gfs @ rest" "\<forall>(g, f) \<in> set gfs. quiet Code g \<and> balanced f"
    and r: "silent Code rest \<or> (\<exists>g u. rest = g @ lpar # u \<and> quiet Code g \<and> unclosed Code 1 u)"
    by (auto simp: decomp_def)
  obtain st where st: "read_forms src
      = rf_machine src (length (weave gfs)) Code 0 st (map snd gfs) rest"
    using rf_machine_weave [OF d(2), of "[]" rest None "[]"] d(1)
    by (auto simp: read_forms_machine)
  from r show ?thesis
  proof
    assume "silent Code rest"
    then show ?thesis by (simp add: st rf_machine_silent)
  next
    assume "\<exists>g u. rest = g @ lpar # u \<and> quiet Code g \<and> unclosed Code 1 u"
    then obtain g u where "rest = g @ lpar # u" "quiet Code g" "unclosed Code 1 u" by blast
    then show ?thesis
      using rf_machine_unclosed [of Code 1 u src] by (simp add: st rf_machine_quiet)
  qed
qed

section \<open>\<open>forms\<close> as a machine\<close>

fun fm_machine :: "lex_mode \<Rightarrow> int \<Rightarrow> string \<Rightarrow> string list \<Rightarrow> string \<Rightarrow> string list" where
  "fm_machine m d cur out [] = out"
| "fm_machine m d cur out (c # cs) =
     (if m = Code \<and> c = lpar then fm_machine Code (d + 1) (cur @ [c]) out cs
      else if m = Code \<and> c = rpar then
        (if d - 1 = 0 then fm_machine Code 0 [] (out @ [strip (cur @ [c])]) cs
         else fm_machine Code (d - 1) (cur @ [c]) out cs)
      else if next_mode m c = Comment then fm_machine Comment d cur out cs
      else if (m = Code \<or> m = Comment) \<and> d = 0 \<and> form_ws c then fm_machine (next_mode m c) d cur out cs
      else fm_machine (next_mode m c) d (cur @ [c]) out cs)"

lemma form_ws_simps [simp]:
  "\<not> form_ws lpar" "\<not> form_ws rpar" "\<not> form_ws dquote" "\<not> form_ws semi" "form_ws nl"
  by (simp_all add: form_ws_def)

lemma fm_machine_comment:
  "fm_machine Comment d cur out cs = fm_machine Code d cur out (dropWhile (\<lambda>x. x \<noteq> nl) cs)"
  by (induction cs) auto

lemma forms_scan_machine:
  "(esc \<longrightarrow> instr) \<Longrightarrow>
     forms_scan d cur instr esc out cs = fm_machine (mode_of instr esc) d cur out cs"
proof (induction d cur instr esc out cs rule: forms_scan.induct)
  case (2 d cur instr esc out c cs)
  show ?case
  proof (cases "\<not> instr \<and> c = semi")
    case True
    then show ?thesis using 2 by (simp add: fm_machine_comment)
  next
    case ne: False
    show ?thesis
    proof (cases instr)
      case True
      then show ?thesis using 2
        by (cases esc; cases "c = bslash"; cases "c = dquote") simp_all
    next
      case False
      then show ?thesis using 2 ne
        by (cases "c = dquote"; cases "c = lpar"; cases "c = rpar"; cases "d = 1"; cases "d = 0 \<and> form_ws c")
          (simp_all add: form_ws_def, auto)
    qed
  qed
qed simp

lemma fm_machine_quiet:
  "quiet m g \<Longrightarrow> fm_machine m 0 cur out (g @ t) = fm_machine Code 0 (cur @ gap_text m g) out t"
proof (induction g arbitrary: m cur)
  case (Cons c g)
  let ?n = "next_mode m c"
  have q: "quiet ?n g" "\<not> (m = Code \<and> c = lpar)" "\<not> (m = Code \<and> c = rpar)" using Cons.prems by auto
  consider "?n = Comment" | "?n \<noteq> Comment" "(m = Code \<or> m = Comment) \<and> form_ws c"
    | "?n \<noteq> Comment" "\<not> ((m = Code \<or> m = Comment) \<and> form_ws c)" by blast
  then show ?case
    by cases (use Cons.IH [OF q(1)] q(2,3) in \<open>simp_all only: fm_machine.simps gap_text.simps append_Cons
      append_assoc append_Nil if_True if_False simp_thms\<close>)
qed simp

lemma fm_machine_silent: "silent m g \<Longrightarrow> fm_machine m d cur out g = out"
  by (induction g arbitrary: m cur) auto

lemma fm_machine_unclosed:
  "unclosed m d u \<Longrightarrow> 1 \<le> d \<Longrightarrow> fm_machine m (int d) cur out u = out"
proof (induction m d u arbitrary: cur rule: unclosed.induct)
  case (2 m d c cs)
  have "int d - 1 = int (d - 1)" using "2.prems" by simp
  with 2 show ?case by (auto split: if_splits simp: int_plus_1 simp del: of_nat_Suc)
qed simp

lemma fm_machine_closes:
  "closes m d f \<Longrightarrow> 1 \<le> d \<Longrightarrow>
     fm_machine m (int d) cur out (f @ t) = fm_machine Code 0 [] (out @ [strip (cur @ uncomment m f)]) t"
proof (induction m d f arbitrary: cur rule: closes.induct)
  case (2 m d c cs)
  have "int d - 1 = int (d - 1)" using "2.prems" by simp
  with 2 show ?case by (auto split: if_splits simp: int_plus_1 simp del: of_nat_Suc)
qed simp

definition form_text :: "string \<times> string \<Rightarrow> string" where
  "form_text gf = strip (gap_text Code (fst gf) @ uncomment Code (snd gf))"

lemma fm_machine_weave:
  "(\<forall>(g, f) \<in> set gfs. quiet Code g \<and> balanced f) \<Longrightarrow>
     fm_machine Code 0 [] out (weave gfs @ t) = fm_machine Code 0 [] (out @ map form_text gfs) t"
proof (induction gfs arbitrary: out)
  case (Cons gf gfs)
  obtain g f where gf: "gf = (g, f)" by (cases gf)
  obtain h where h: "f = lpar # h" "closes Code 1 h" using Cons.prems gf by (auto simp: balanced_def)
  have "fm_machine Code 0 [] out (weave (gf # gfs) @ t)
      = fm_machine Code (int 1) (gap_text Code g @ [lpar]) out (h @ weave gfs @ t)"
    using Cons.prems gf h(1) by (simp add: fm_machine_quiet)
  also have "\<dots> = fm_machine Code 0 [] (out @ [form_text gf]) (weave gfs @ t)"
    using fm_machine_closes [OF h(2) order_refl, of "gap_text Code g @ [lpar]" out "weave gfs @ t"] gf h(1)
    by (simp add: form_text_def)
  finally show ?case using Cons by simp
qed simp

lemma strip_keeps: "c \<in> set s \<Longrightarrow> \<not> py_space c \<Longrightarrow> c \<in> set (strip s)"
proof -
  have dw: "c \<in> set xs \<Longrightarrow> \<not> py_space c \<Longrightarrow> c \<in> set (dropWhile py_space xs)" for xs
    by (induction xs) auto
  assume "c \<in> set s" "\<not> py_space c"
  then show ?thesis by (simp add: strip_def rstrip_of_def lstrip_of_def dw)
qed

lemma py_space_lpar: "\<not> py_space lpar"
  by (simp add: py_space_def)

lemma form_text_nonempty: "balanced (snd gf) \<Longrightarrow> strip (form_text gf) \<noteq> []"
proof -
  assume "balanced (snd gf)"
  then have "lpar \<in> set (gap_text Code (fst gf) @ uncomment Code (snd gf))"
    by (auto simp: balanced_def)
  then have "lpar \<in> set (strip (form_text gf))"
    unfolding form_text_def by (intro strip_keeps py_space_lpar)
  then show ?thesis by auto
qed

lemma forms_scan_decomp:
  assumes "decomp src gfs rest"
  shows "forms_scan 0 [] False False [] src = map form_text gfs"
proof -
  from assms have d: "src = weave gfs @ rest" "\<forall>(g, f) \<in> set gfs. quiet Code g \<and> balanced f"
    and r: "silent Code rest \<or> (\<exists>g u. rest = g @ lpar # u \<and> quiet Code g \<and> unclosed Code 1 u)"
    by (auto simp: decomp_def)
  have eq: "forms_scan 0 [] False False [] src = fm_machine Code 0 [] (map form_text gfs) rest"
    using fm_machine_weave [OF d(2), of "[]" rest] d(1) by (simp add: forms_scan_machine)
  from r show ?thesis
  proof
    assume "silent Code rest"
    then show ?thesis by (simp add: eq fm_machine_silent)
  next
    assume "\<exists>g u. rest = g @ lpar # u \<and> quiet Code g \<and> unclosed Code 1 u"
    then obtain g u where "rest = g @ lpar # u" "quiet Code g" "unclosed Code 1 u" by blast
    then show ?thesis
      using fm_machine_unclosed [of Code 1 u] by (simp add: eq fm_machine_quiet)
  qed
qed

lemma forms_decomp:
  assumes "decomp src gfs rest"
  shows "forms src = map (\<lambda>(g, f). flatten_ws (strip (gap_text Code g @ uncomment Code f))) gfs"
proof -
  have "filter (\<lambda>f. strip f \<noteq> []) (map form_text gfs) = map form_text gfs"
    using assms by (intro filter_True) (auto simp: decomp_def intro!: form_text_nonempty)
  then show ?thesis by (simp add: forms_def forms_scan_decomp [OF assms] form_text_def case_prod_unfold)
qed

lemma set_flatten_ws: "c \<in> set (flatten_ws s) \<Longrightarrow> py_space c \<Longrightarrow> c = CHR '' ''"
  by (induction s rule: flatten_ws.induct) (auto split: if_splits)

section \<open>\<open>split_toplevel\<close> as a machine\<close>

definition st_ws :: "char \<Rightarrow> bool" where
  "st_ws c \<longleftrightarrow> c \<in> {CHR '' '', tab, nl}"

lemma st_ws_simps [simp]:
  "\<not> st_ws lpar" "\<not> st_ws rpar" "\<not> st_ws dquote" "\<not> st_ws semi" "st_ws nl"
  by (simp_all add: st_ws_def)

fun st_machine :: "string \<Rightarrow> nat \<Rightarrow> lex_mode \<Rightarrow> int \<Rightarrow> nat \<Rightarrow> bool \<Rightarrow> string list \<Rightarrow> string \<Rightarrow> string list" where
  "st_machine inner i m d start began subs [] = (if began then subs @ [drop start inner] else subs)"
| "st_machine inner i m d start began subs (c # cs) =
     (if m = Str \<or> m = Esc \<or> next_mode m c = Comment
      then st_machine inner (i + 1) (next_mode m c) d start began subs cs
      else if st_ws c then
        (if began \<and> d = 0
         then st_machine inner (i + 1) Code d start False (subs @ [py_slice inner start i]) cs
         else st_machine inner (i + 1) Code d start began subs cs)
      else st_machine inner (i + 1) (next_mode m c)
             (if c = lpar then d + 1 else if c = rpar then d - 1 else d)
             (if began then start else i) True subs cs)"

lemma st_machine_comment:
  "st_machine inner i Comment d st b subs cs =
   st_machine inner (i + length (takeWhile (\<lambda>x. x \<noteq> nl) cs)) Comment d st b subs (dropWhile (\<lambda>x. x \<noteq> nl) cs)"
  by (induction cs arbitrary: i) auto

lemma st_machine_newline:
  "st_machine inner i Comment d st b subs (dropWhile (\<lambda>x. x \<noteq> nl) xs) =
   st_machine inner i Code d st b subs (dropWhile (\<lambda>x. x \<noteq> nl) xs)"
  by (induction xs) auto

lemma st_scan_machine:
  "i \<le> length inner \<Longrightarrow> (esc \<longrightarrow> instr) \<Longrightarrow>
     st_scan inner i d st b instr esc subs = st_machine inner i (mode_of instr esc) d st b subs (drop i inner)"
proof (induction inner i d st b instr esc subs rule: st_scan.induct)
  case (1 inner i d st b instr esc subs)
  show ?case
  proof (cases "length inner \<le> i")
    case True
    then show ?thesis using "1.prems" by (simp add: st_scan.simps)
  next
    case False
    then have dr: "drop i inner = inner ! i # drop (i + 1) inner"
      by (simp add: Cons_nth_drop_Suc)
    note IH = "1.IH" [OF False refl]
    show ?thesis
    proof (cases "\<not> instr \<and> inner ! i = semi")
      case True
      define k where "k = length (takeWhile (\<lambda>x. x \<noteq> nl) (drop (i + 1) inner))"
      have le: "line_end inner i = i + 1 + k" using True dr by (simp add: line_end_def k_def)
      have k: "i + 1 + k \<le> length inner"
        using False length_takeWhile_le [of "\<lambda>x. x \<noteq> nl" "drop (i + 1) inner"] by (simp add: k_def)
      have dw: "dropWhile (\<lambda>x. x \<noteq> nl) (drop (i + 1) inner) = drop (i + 1 + k) inner"
        unfolding k_def by (metis dropWhile_eq_drop drop_drop add.commute)
      have "st_scan inner i d st b instr esc subs = st_scan inner (i + 1 + k) d st b False esc subs"
        using True False by (subst st_scan.simps) (simp add: Let_def le)
      also have "\<dots> = st_machine inner (i + 1 + k) Code d st b subs (drop (i + 1 + k) inner)"
        using IH(5) True k "1.prems" by (simp add: le)
      also have "\<dots> = st_machine inner (i + 1) Comment d st b subs (drop (i + 1) inner)"
        using st_machine_newline [of inner "i + 1 + k" d st b subs "drop (i + 1) inner", unfolded dw]
          st_machine_comment [of inner "i + 1" d st b subs "drop (i + 1) inner", folded k_def, unfolded dw]
        by simp
      finally show ?thesis using True "1.prems" by (simp add: dr)
    next
      case ne: False
      show ?thesis
      proof (cases instr)
        case True
        then show ?thesis using False "1.prems" IH(1-4)
          by (subst st_scan.simps) (auto simp: Let_def dr)
      next
        case ni: False
        then show ?thesis using False ne "1.prems" IH(6-)
          by (subst st_scan.simps) (auto simp: Let_def dr st_ws_def)
      qed
    qed
  qed
qed

text \<open>
  \<open>inside\<close>: a text that is one subform, read within \<open>d\<close> parentheses; \<open>blank\<close>: white space and comments.
  \<open>seq_ok\<close>: subforms with the white space before each, and a blank rest.
\<close>

fun inside :: "lex_mode \<Rightarrow> nat \<Rightarrow> string \<Rightarrow> bool" where
  "inside m d [] = (m = Code \<and> d = 0)"
| "inside m d (c # cs) =
     (if m \<noteq> Code then inside (next_mode m c) d cs
      else if c = semi \<or> st_ws c then d \<noteq> 0 \<and> inside (next_mode m c) d cs
      else if c = lpar then inside Code (d + 1) cs
      else if c = rpar then d \<noteq> 0 \<and> inside Code (d - 1) cs
      else inside (next_mode m c) d cs)"

fun blank :: "lex_mode \<Rightarrow> string \<Rightarrow> bool" where
  "blank m [] = (m = Code)"
| "blank m (c # cs) =
     (if m = Comment then blank (next_mode m c) cs
      else m = Code \<and> (st_ws c \<or> c = semi) \<and> blank (next_mode m c) cs)"

fun seq_ok :: "bool \<Rightarrow> (string \<times> string) list \<Rightarrow> string \<Rightarrow> bool" where
  "seq_ok b [] r = (blank Code r \<and> (b \<longrightarrow> r = [] \<or> st_ws (hd r)))"
| "seq_ok b ((s, x) # sxs) r =
     (blank Code s \<and> (b \<longrightarrow> s \<noteq> [] \<and> st_ws (hd s)) \<and> x \<noteq> [] \<and> inside Code 0 x \<and> seq_ok True sxs r)"

lemma st_machine_blank:
  "blank m s \<Longrightarrow>
     st_machine inner i m d st False subs (s @ t) = st_machine inner (i + length s) Code d st False subs t"
  by (induction s arbitrary: m i) (auto split: if_splits)

lemma st_machine_inside:
  "inside m d x \<Longrightarrow> (m = Comment \<longrightarrow> d \<noteq> 0) \<Longrightarrow>
     st_machine inner i m (int d) a True subs (x @ t) = st_machine inner (i + length x) Code 0 a True subs t"
proof (induction m d x arbitrary: i rule: inside.induct)
  case (2 m d c cs)
  show ?case
  proof (cases "m = Code")
    case True
    have "int d - int (Suc 0) = int d - 1" by simp
    with 2 True show ?thesis
      by (auto split: if_splits simp: int_plus_1 int_minus_1 simp del: of_nat_Suc)
  next
    case False
    then show ?thesis using 2 by (cases m) (auto split: if_splits simp del: of_nat_Suc)
  qed
qed simp

lemma st_machine_item:
  assumes "x \<noteq> []" "inside Code 0 x"
  shows "st_machine inner i Code 0 st False subs (x @ t)
    = st_machine inner (i + length x) Code 0 i True subs t"
proof -
  obtain c cs where x: "x = c # cs" using assms(1) by (cases x) auto
  define d where "d = (if c = lpar then 1 else 0 :: nat)"
  have i: "inside (next_mode Code c) d cs" "\<not> st_ws c" "c \<noteq> semi" "c \<noteq> rpar"
    using assms(2) x by (auto simp: d_def split: if_splits)
  then have "st_machine inner i Code 0 st False subs (x @ t)
      = st_machine inner (i + 1) (next_mode Code c) (int d) i True subs (cs @ t)"
    by (simp add: x d_def)
  also have "\<dots> = st_machine inner (i + 1 + length cs) Code 0 i True subs t"
    by (rule st_machine_inside [OF i(1)]) (use i(3) in auto)
  finally show ?thesis by (simp add: x)
qed

lemma st_machine_end_item:
  assumes "s \<noteq> []" "st_ws (hd s)" "blank Code s" "a \<le> length pre"
  shows "st_machine (pre @ s @ t) (length pre) Code 0 a True subs (s @ t)
    = st_machine (pre @ s @ t) (length pre + length s) Code 0 a False (subs @ [drop a pre]) t"
proof -
  obtain w s' where s: "s = w # s'" using assms(1) by (cases s) auto
  have n: "next_mode Code w = Code" using assms(2) s by (auto simp: st_ws_def)
  then have "blank Code s'" using assms(2,3) s by simp
  moreover have "py_slice (pre @ s @ t) a (length pre) = drop a pre"
    using assms(4) by (simp add: py_slice_def)
  ultimately show ?thesis using assms(2) n
    by (simp add: s st_machine_blank)
qed

lemma st_machine_seq:
  "seq_ok b sxs r \<Longrightarrow> (b \<longrightarrow> a \<le> length pre) \<Longrightarrow>
     st_machine (pre @ weave sxs @ r) (length pre) Code 0 a b subs (weave sxs @ r)
   = subs @ (if b then [drop a pre] else []) @ map snd sxs"
proof (induction sxs arbitrary: b a pre subs)
  case Nil
  show ?case
  proof (cases "b \<and> r \<noteq> []")
    case True
    then show ?thesis
      using Nil st_machine_end_item [of r a pre "[]" subs] by simp
  next
    case False
    then show ?thesis
      using Nil st_machine_blank [of Code r _ _ _ _ _ "[]"] by (cases b) auto
  qed
next
  case (Cons sx sxs)
  obtain s x where sx: "sx = (s, x)" by (cases sx)
  let ?in = "pre @ weave (sx # sxs) @ r"
  define subs' where "subs' = subs @ (if b then [drop a pre] else [])"
  have s: "blank Code s" "b \<longrightarrow> s \<noteq> [] \<and> st_ws (hd s)" and x: "x \<noteq> []" "inside Code 0 x"
    and r: "seq_ok True sxs r" using Cons.prems sx by auto
  have "st_machine ?in (length pre) Code 0 a b subs (weave (sx # sxs) @ r)
      = st_machine ?in (length pre + length s) Code 0 a False subs' (x @ weave sxs @ r)"
  proof (cases b)
    case True
    then show ?thesis
      using st_machine_end_item [of s a pre "x @ weave sxs @ r" subs] s Cons.prems by (simp add: sx subs'_def)
  next
    case False
    then show ?thesis using st_machine_blank [OF s(1)] by (simp add: sx subs'_def)
  qed
  also have "\<dots> = st_machine ?in (length pre + length s + length x) Code 0 (length pre + length s) True subs' (weave sxs @ r)"
    by (rule st_machine_item [OF x])
  finally show ?case
    using Cons.IH [OF r, of "length pre + length s" "pre @ s @ x" subs'] x
    by (simp add: sx subs'_def add.assoc)
qed

lemma split_toplevel_seq:
  assumes "seq_ok False sxs r"
  shows "split_toplevel (lpar # weave sxs @ r @ [rpar]) = Inr (map snd sxs)"
proof -
  have "butlast (weave sxs @ r @ [rpar]) = weave sxs @ r" by (simp add: butlast_append)
  then show ?thesis
    using st_machine_seq [OF assms, of 0 "[]" "[]"]
    by (simp add: split_toplevel_def st_scan_machine py_nth_def)
qed

section \<open>The generated script\<close>

definition test_lines :: "string list \<Rightarrow> string list" where
  "test_lines subs =
     (if subs = [] \<or> map lower_char (subs ! 0) \<noteq> ''deftest'' then []
      else battery_test (subs ! 1) (if 2 < length subs then subs ! 2 else ''nil''))"

definition has_subforms :: "string \<Rightarrow> string list \<Rightarrow> bool" where
  "has_subforms f subs \<longleftrightarrow>
     (\<exists>sxs r. f = lpar # weave sxs @ r @ [rpar] \<and> seq_ok False sxs r \<and> map snd sxs = subs)"

lemma battery_form_lines:
  "has_subforms f subs \<Longrightarrow> length subs \<noteq> 1 \<or> map lower_char (subs ! 0) \<noteq> ''deftest'' \<Longrightarrow>
     battery_form f = Inr (test_lines subs)"
proof -
  assume "has_subforms f subs" and n: "length subs \<noteq> 1 \<or> map lower_char (subs ! 0) \<noteq> ''deftest''"
  then have "split_toplevel f = Inr subs" by (auto simp: has_subforms_def split_toplevel_seq)
  moreover have "subs \<noteq> [] \<Longrightarrow> length subs \<noteq> 1 \<Longrightarrow> 1 < length subs" by (cases subs; cases "tl subs") auto
  ultimately show ?thesis using n by (auto simp: battery_form_def test_lines_def py_nth_def)
qed

definition battery_header :: "string list" where
  "battery_header = ['';; auto-generated flet/labels battery'', ''(defvar *fb0* 0)'']"

lemma battery_decomp:
  assumes "decomp src gfs rest" "list_all2 has_subforms (map snd gfs) tests"
    and "\<forall>subs \<in> set tests. length subs \<noteq> 1 \<or> map lower_char (subs ! 0) \<noteq> ''deftest''"
  shows "battery src = Inr (battery_header @ concat (map test_lines tests))"
proof -
  have "res_map battery_form fs = Inr (map test_lines ts)"
    if "list_all2 has_subforms fs ts"
      "\<forall>subs \<in> set ts. length subs \<noteq> 1 \<or> map lower_char (subs ! 0) \<noteq> ''deftest''" for fs ts
    using that by (induction rule: list_all2_induct) (auto simp: battery_form_lines)
  then show ?thesis using assms by (simp add: battery_def read_forms_decomp battery_header_def)
qed

section \<open>Properties of the readers\<close>

text \<open>
  C10: \<open>push-serial\<close>'s \<open>forms\<close> is exact.  A text with no stray closing parenthesis decomposes into
  gaps, balanced forms and a rest with no complete form, and for every such decomposition \<open>forms\<close>
  returns, in order, one line per balanced form: the form without its comments, after whatever
  characters other than white space and comments stood between it and the form before, with each run
  of white space made one blank.  No line that is sent contains a line break or a tab.
\<close>

theorem forms_exact:
  assumes "\<not> stray Code 0 src"
  shows "(\<exists>gfs rest. decomp src gfs rest) \<and>
    (\<forall>gfs rest. decomp src gfs rest \<longrightarrow>
      forms src = map (\<lambda>(g, f). flatten_ws (strip (gap_text Code g @ uncomment Code f))) gfs) \<and>
    (\<forall>f \<in> set (forms src). \<forall>c \<in> set f. py_space c \<longrightarrow> c = CHR '' '')"
proof (intro conjI allI impI ballI)
  show "\<exists>gfs rest. decomp src gfs rest" using decomp_exists [OF assms] .
next
  fix gfs rest assume "decomp src gfs rest"
  then show "forms src = map (\<lambda>(g, f). flatten_ws (strip (gap_text Code g @ uncomment Code f))) gfs"
    by (rule forms_decomp)
next
  fix f c assume "f \<in> set (forms src)" "c \<in> set f" "py_space c"
  then show "c = CHR '' ''" by (auto simp: forms_def intro: set_flatten_ws)
qed

lemma forms_exact_witness: "forms ''(a  (b))'' = [''(a (b))'']"
proof -
  have not_stray: "\<not> stray Code 0 ''(a  (b))''" by simp
  have "decomp ''(a  (b))'' [([], ''(a  (b))'')] []" by (simp add: decomp_def balanced_def)
  then have "forms ''(a  (b))'' = map (\<lambda>(g, f). flatten_ws (strip (gap_text Code g @ uncomment Code f))) [([], ''(a  (b))'')]"
    using forms_exact [of "''(a  (b))''", THEN conjunct2, THEN conjunct1] not_stray by blast
  then show ?thesis by (simp add: text_eval)
qed

text \<open>
  C38: \<open>gen-flet-battery\<close>'s \<open>read_forms\<close> is exact: on a text with no stray closing parenthesis it
  returns, in order and unchanged, the balanced forms of the text's decomposition.
\<close>

theorem read_forms_exact:
  assumes "\<not> stray Code 0 src"
  shows "(\<exists>gfs rest. decomp src gfs rest) \<and>
    (\<forall>gfs rest. decomp src gfs rest \<longrightarrow> read_forms src = map snd gfs)"
  using decomp_exists [OF assms] read_forms_decomp by blast

lemma read_forms_exact_witness: "read_forms ''(a (b)) c'' = [''(a (b))'']"
proof -
  have "decomp ''(a (b)) c'' [([], ''(a (b))'')] '' c''" by (simp add: decomp_def balanced_def)
  moreover have "\<not> stray Code 0 ''(a (b)) c''" by simp
  ultimately have "read_forms ''(a (b)) c'' = map snd [([] :: string, ''(a (b))'')]"
    using read_forms_exact by blast
  then show ?thesis by simp
qed


definition one_test :: string where
  "one_test = ''(DefTest a (f ; c'' @ [nl] @ '' x) 1)''"

definition one_test_subs :: "string list" where
  "one_test_subs = [''DefTest'', ''a'', ''(f ; c'' @ [nl] @ '' x)'', ''1'']"

lemma one_test_decomp: "decomp one_test [([], one_test)] []"
  by (simp add: decomp_def one_test_def balanced_def)

lemma one_test_subforms: "list_all2 has_subforms (map snd [([], one_test)]) [one_test_subs]"
proof -
  let ?sxs = "[([], ''DefTest''), ('' '', ''a''), ('' '', ''(f ; c'' @ [nl] @ '' x)''), ('' '', ''1'')]"
  have "one_test = lpar # weave ?sxs @ [] @ [rpar] \<and> seq_ok False ?sxs [] \<and> map snd ?sxs = one_test_subs"
    by (simp add: one_test_def one_test_subs_def st_ws_def)
  then have "has_subforms one_test one_test_subs" unfolding has_subforms_def by blast
  then show ?thesis by simp
qed

lemma lower_deftest: "map lower_char ''DefTest'' = ''deftest''"
  by code_simp


text \<open>
  A comment inside a test body swallows the rest of the line the body is flattened to: of the four
  lines generated for \<open>one_test\<close>, only the first is read back as a form.
\<close>

lemma battery_comment_swallows:
  "\<exists>ls. battery one_test = Inr ls \<and>
    read_forms (join [nl] ls) = [''(defvar *fb0* 0)'', ''(setq *fb0* (or *jit-fallback-count* 0))'']"
proof -
  let ?ls = "battery_header @ concat (map test_lines [one_test_subs])"
  have "battery one_test = Inr ?ls"
    by (rule battery_decomp [OF one_test_decomp one_test_subforms]) (simp add: one_test_subs_def)
  moreover have "read_forms (join [nl] ?ls) =
      [''(defvar *fb0* 0)'', ''(setq *fb0* (or *jit-fallback-count* 0))'']"
    using lower_deftest
    by (simp add: read_forms_machine battery_header_def test_lines_def one_test_subs_def battery_test_def
        replace_char_def py_slice_def)
  ultimately show ?thesis by blast
qed

text \<open>
  Two texts the readers were not written for: the character literal for a semicolon starts a comment for them,
  so the form never closes; and white space inside a string literal is collapsed with the rest.
\<close>

lemma forms_char_literal: "forms (''(f #'' @ [bslash] @ '';) (g)'') = []"
  by (simp add: forms_def forms_scan_machine)

lemma forms_string_blanks:
  "forms (''(f '' @ [dquote] @ ''a  b'' @ [dquote] @ '')'') = [''(f '' @ [dquote] @ ''a b'' @ [dquote] @ '')'']"
  by (simp add: forms_def forms_scan_machine form_ws_def text_eval)

end
