(* ===== verification/PyJson.thy ===== *)
theory PyJson
  imports PyText
begin

text \<open>
  What the scripts use of \<open>json\<close> and of UTF-8 decoding: \<open>json_ok\<close> says whether \<open>json.loads\<close> accepts a
  text, \<open>json_str\<close> is \<open>json.dumps\<close> of a string, and \<open>utf8_ok\<close> says whether \<open>bytes.decode()\<close> accepts
  a byte string.  A byte string is read as text byte by byte, so a character above U+007F appears as
  the bytes of its encoding; JSON treats them alike, since they only occur inside strings.
\<close>

section \<open>UTF-8\<close>

definition cont_byte :: "byte \<Rightarrow> bool" where
  "cont_byte b \<longleftrightarrow> 0x80 \<le> b \<and> b \<le> 0xBF"

fun utf8_ok :: "bytes \<Rightarrow> bool" where
  "utf8_ok [] = True"
| "utf8_ok (a # bs) =
     (if a < 0x80 then utf8_ok bs
      else if 0xC2 \<le> a \<and> a \<le> 0xDF then
        (case bs of b # cs \<Rightarrow> cont_byte b \<and> utf8_ok cs | _ \<Rightarrow> False)
      else if 0xE0 \<le> a \<and> a \<le> 0xEF then
        (case bs of b # c # ds \<Rightarrow>
           cont_byte b \<and> cont_byte c \<and> (a = 0xE0 \<longrightarrow> 0xA0 \<le> b) \<and> (a = 0xED \<longrightarrow> b \<le> 0x9F) \<and> utf8_ok ds
         | _ \<Rightarrow> False)
      else if 0xF0 \<le> a \<and> a \<le> 0xF4 then
        (case bs of b # c # d # es \<Rightarrow>
           cont_byte b \<and> cont_byte c \<and> cont_byte d \<and> (a = 0xF0 \<longrightarrow> 0x90 \<le> b)
           \<and> (a = 0xF4 \<longrightarrow> b \<le> 0x8F) \<and> utf8_ok es
         | _ \<Rightarrow> False)
      else False)"

definition as_text :: "bytes \<Rightarrow> string" where
  "as_text b = map (\<lambda>x. char_of (unat x)) b"

section \<open>Reading JSON\<close>

definition json_ws :: "char \<Rightarrow> bool" where
  "json_ws c \<longleftrightarrow> c \<in> {CHR '' '', tab, nl, CHR 0x0D}"

definition is_hex :: "char \<Rightarrow> bool" where
  "is_hex c \<longleftrightarrow> digit_val 16 c \<noteq> None"

text \<open>The rest of the text after a string literal whose opening quote has been read.\<close>

fun json_string_rest :: "string \<Rightarrow> string option" where
  "json_string_rest [] = None"
| "json_string_rest (c # cs) =
     (if c = dquote then Some cs
      else if (of_char c :: nat) < 32 then None
      else if c = bslash then
        (case cs of
           [] \<Rightarrow> None
         | e # es \<Rightarrow>
             if e \<in> {dquote, bslash, CHR ''/'', CHR ''b'', CHR ''f'', CHR ''n'', CHR ''r'', CHR ''t''}
             then json_string_rest es
             else if e = CHR ''u'' then
               (case es of
                  h1 # h2 # h3 # h4 # r \<Rightarrow>
                    if is_hex h1 \<and> is_hex h2 \<and> is_hex h3 \<and> is_hex h4 then json_string_rest r else None
                | _ \<Rightarrow> None)
             else None)
      else json_string_rest cs)"

definition json_digits_rest :: "string \<Rightarrow> string option" where
  "json_digits_rest s =
     (case s of c # _ \<Rightarrow> if is_digit c then Some (dropWhile is_digit s) else None | [] \<Rightarrow> None)"

definition json_number_rest :: "string \<Rightarrow> string option" where
  "json_number_rest s =
     (let t = (case s of c # cs \<Rightarrow> if c = CHR ''-'' then cs else s | [] \<Rightarrow> s)
      in case (case t of
                 c # cs \<Rightarrow> if c = CHR ''0'' then Some cs else json_digits_rest t
               | [] \<Rightarrow> None) of
           None \<Rightarrow> None
         | Some r \<Rightarrow>
             let r1 = (case r of c # cs \<Rightarrow>
                         (if c = CHR ''.'' then (case json_digits_rest cs of None \<Rightarrow> r | Some x \<Rightarrow> x) else r)
                       | [] \<Rightarrow> r);
                 r2 = (case r1 of c # cs \<Rightarrow>
                         (if c = CHR ''e'' \<or> c = CHR ''E'' then
                            (case json_digits_rest
                                (case cs of x # xs \<Rightarrow> if x = CHR ''+'' \<or> x = CHR ''-'' then xs else cs | [] \<Rightarrow> cs) of
                               None \<Rightarrow> r1 | Some x \<Rightarrow> x)
                          else r1)
                       | [] \<Rightarrow> r1)
             in Some r2)"

text \<open>
  A value, then the rest.  \<open>json_members\<close> reads the members of an object or the items of an array,
  the first one already due.  The fuel bounds the depth plus the number of items read; \<open>json_ok\<close>
  gives one unit per character and one more, and each call consumes a character.
\<close>

fun json_value_rest :: "nat \<Rightarrow> string \<Rightarrow> string option"
  and json_members :: "nat \<Rightarrow> bool \<Rightarrow> string \<Rightarrow> string option" where
  "json_value_rest 0 s = None"
| "json_value_rest (Suc n) s =
     (case s of
        [] \<Rightarrow> None
      | c # cs \<Rightarrow>
          if c = dquote then json_string_rest cs
          else if c = CHR ''{'' then
            (case dropWhile json_ws cs of
               [] \<Rightarrow> None
             | d # ds \<Rightarrow> if d = CHR ''}'' then Some ds else json_members n True (d # ds))
          else if c = CHR ''['' then
            (case dropWhile json_ws cs of
               [] \<Rightarrow> None
             | d # ds \<Rightarrow> if d = CHR '']'' then Some ds else json_members n False (d # ds))
          else if starts_with ''null'' s then Some (drop 4 s)
          else if starts_with ''true'' s then Some (drop 4 s)
          else if starts_with ''false'' s then Some (drop 5 s)
          else case json_number_rest s of
                 Some r \<Rightarrow> Some r
               | None \<Rightarrow>
                   if starts_with ''NaN'' s then Some (drop 3 s)
                   else if starts_with ''Infinity'' s then Some (drop 8 s)
                   else if starts_with ''-Infinity'' s then Some (drop 9 s)
                   else None)"
| "json_members 0 obj s = None"
| "json_members (Suc n) obj s =
     (let item = (if obj then
                    (case s of
                       [] \<Rightarrow> None
                     | c # cs \<Rightarrow>
                         if c \<noteq> dquote then None
                         else case json_string_rest cs of
                                None \<Rightarrow> None
                              | Some r \<Rightarrow>
                                  (case dropWhile json_ws r of
                                     [] \<Rightarrow> None
                                   | d # ds \<Rightarrow> if d = CHR '':'' then Some (dropWhile json_ws ds) else None))
                  else Some s)
      in case item of
           None \<Rightarrow> None
         | Some v \<Rightarrow>
             (case json_value_rest n v of
                None \<Rightarrow> None
              | Some r \<Rightarrow>
                  (case dropWhile json_ws r of
                     [] \<Rightarrow> None
                   | d # ds \<Rightarrow>
                       if d = (if obj then CHR ''}'' else CHR '']'') then Some ds
                       else if d = CHR '','' then json_members n obj (dropWhile json_ws ds)
                       else None)))"

definition json_ok :: "string \<Rightarrow> bool" where
  "json_ok s =
     (case json_value_rest (length s + 1) (dropWhile json_ws s) of
        None \<Rightarrow> False
      | Some r \<Rightarrow> dropWhile json_ws r = [])"

section \<open>Writing JSON\<close>

definition json_char :: "char \<Rightarrow> string" where
  "json_char c =
     (let n = of_char c :: nat
      in if c = dquote then [bslash, dquote]
         else if c = bslash then [bslash, bslash]
         else if c = nl then [bslash, CHR ''n'']
         else if c = tab then [bslash, CHR ''t'']
         else if n = 13 then [bslash, CHR ''r'']
         else if n = 8 then [bslash, CHR ''b'']
         else if n = 12 then [bslash, CHR ''f'']
         else if n < 32 \<or> 126 < n
         then [bslash, CHR ''u'', CHR ''0'', CHR ''0'', digit_char 97 (n div 16), digit_char 97 (n mod 16)]
         else [c])"

definition json_str :: "string \<Rightarrow> string" where
  "json_str s = [dquote] @ concat (map json_char s) @ [dquote]"

text \<open>A string is written so that it is read back whole: the rest after it is what followed it.\<close>

lemma digit_char_hex: "d < 16 \<Longrightarrow> is_hex (digit_char 97 d)"
  by (simp add: is_hex_def digit_val_char)

lemma of_char_less_256: "(of_char c :: nat) < 256"
proof -
  have "(of_char c :: nat) = of_char (char_of (of_char c :: nat) :: char)" by simp
  also have "\<dots> = of_char c mod 256" by (simp only: of_char_of)
  finally show ?thesis by (metis mod_less_divisor zero_less_numeral)
qed

lemma json_char_rest: "json_string_rest (json_char c @ r) = json_string_rest r"
proof -
  have n: "(of_char c :: nat) < 256" by (rule of_char_less_256)
  have h: "is_hex (CHR ''0'')" by (simp add: is_hex_def digit_val_def)
  have "is_hex (digit_char 97 ((of_char c :: nat) div 16))" "is_hex (digit_char 97 ((of_char c :: nat) mod 16))"
    using n by (simp_all add: digit_char_hex less_mult_imp_div_less)
  then show ?thesis using h
    by (auto simp: json_char_def Let_def)
qed

lemma json_str_rest: "json_string_rest (tl (json_str s) @ r) = Some r"
proof -
  have "json_string_rest (concat (map json_char s) @ dquote # r) = Some r"
    by (induction s) (simp_all add: json_char_rest)
  then show ?thesis by (simp add: json_str_def)
qed

end
