(* ===== verification/ArchLadder.thy ===== *)
theory ArchLadder
  imports PyJson
begin

text \<open>
  \<open>scripts/arch-ladder.py\<close>: one rung on one architecture, its answer read out of guest memory.
  \<open>ARCHES\<close> is the script's table; \<open>payload\<close> the generated Lisp program, whose stores are also given as
  data (\<open>store32_stmts\<close>) with their effect on memory; \<open>qmp\<close> the dialogue with the emulator's control
  socket; \<open>run_image\<close> the decoding of the memory dump; \<open>main_ladder\<close> the whole program over an
  environment that stands for the file system, the Lisp build and the emulator.
\<close>

section \<open>The table\<close>

definition MAGIC :: nat where "MAGIC = 195948557"

record arch_row =
  a_target :: string
  a_qemu :: string
  a_machine :: "string list"
  a_res :: nat
  a_mag :: nat

definition ARCHES :: "(string, arch_row) dict" where
  "ARCHES =
    [(''i386'', \<lparr>a_target = ''i386'', a_qemu = ''qemu-system-i386'',
        a_machine = [''-m'', ''256'', ''-no-reboot''], a_res = 0x00700000, a_mag = 0x00700010\<rparr>),
     (''x64'', \<lparr>a_target = ''x86-64'', a_qemu = ''qemu-system-x86_64'',
        a_machine = [''-m'', ''512'', ''-no-reboot''], a_res = 0x00700000, a_mag = 0x00700010\<rparr>),
     (''aarch64'', \<lparr>a_target = ''aarch64'', a_qemu = ''qemu-system-aarch64'',
        a_machine = [''-machine'', ''virt'', ''-cpu'', ''cortex-a57'', ''-m'', ''512'', ''-semihosting''],
        a_res = 0x41000000, a_mag = 0x41000010\<rparr>),
     (''arm32'', \<lparr>a_target = ''armv7-rpi'', a_qemu = ''qemu-system-arm'',
        a_machine = [''-M'', ''raspi2b'', ''-m'', ''1G''], a_res = 0x00800000, a_mag = 0x00800010\<rparr>),
     (''riscv64'', \<lparr>a_target = ''riscv64'', a_qemu = ''qemu-system-riscv64'',
        a_machine = [''-machine'', ''virt'', ''-m'', ''512''], a_res = 0x80300000, a_mag = 0x80300010\<rparr>),
     (''ppc64'', \<lparr>a_target = ''ppc64'', a_qemu = ''qemu-system-ppc64'',
        a_machine = [''-M'', ''powernv'', ''-m'', ''2G''], a_res = 0x20800000, a_mag = 0x20800010\<rparr>),
     (''ppc32'', \<lparr>a_target = ''ppc32'', a_qemu = ''qemu-system-ppc'',
        a_machine = [''-M'', ''ppce500'', ''-m'', ''512''], a_res = 0x00800000, a_mag = 0x00800010\<rparr>),
     (''68k'', \<lparr>a_target = ''68k'', a_qemu = ''qemu-system-m68k'',
        a_machine = [''-M'', ''virt'', ''-m'', ''512''], a_res = 0x00700000, a_mag = 0x00700010\<rparr>)]"

section \<open>The payload\<close>

text \<open>One byte store of the generated program: an address, the stored expression, its right shift.\<close>

datatype byte_store = ByteStore nat string nat

definition store32_stmts :: "nat \<Rightarrow> string \<Rightarrow> byte_store list" where
  "store32_stmts addr e = ByteStore addr e 0 # map (\<lambda>i. ByteStore (addr + i) e (8 * i)) [1, 2, 3]"

fun store_text :: "byte_store \<Rightarrow> string" where
  "store_text (ByteStore a e n) =
     (if n = 0 then ''  (setf (mem-ref '' @ dec a @ '' :u8) (logand '' @ e @ '' 255))''
      else ''  (setf (mem-ref '' @ dec a @ '' :u8) (logand (ash '' @ e @ '' '' @ dec_int (- int n) @ '') 255))'')"

definition store32 :: "nat \<Rightarrow> string \<Rightarrow> string" where
  "store32 addr e = join [nl] (map store_text (store32_stmts addr e))"

definition payload :: "string \<Rightarrow> nat \<Rightarrow> nat \<Rightarrow> string" where
  "payload rung res_addr mag_addr =
     rung @ [nl] @ ''(defun kernel-main ()'' @ [nl]
     @ ''  (let ((v (probe)))'' @ [nl]
     @ store32 res_addr ''v'' @ [nl]
     @ store32 mag_addr (dec MAGIC) @ [nl]
     @ ''    (loop)))'' @ [nl]"

text \<open>
  What the stores do to memory: \<open>(logand (ash x -n) 255)\<close> is byte \<open>n div 8\<close> of the integer \<open>x\<close>, in
  two's complement.  \<open>val\<close> gives the value of each expression the stores name.
\<close>

type_synonym memory = "nat \<Rightarrow> byte"

fun exec_store :: "(string \<Rightarrow> int) \<Rightarrow> memory \<Rightarrow> byte_store \<Rightarrow> memory" where
  "exec_store val m (ByteStore a e n) = m(a := of_int (val e div 2 ^ n mod 256))"

definition payload_stmts :: "nat \<Rightarrow> nat \<Rightarrow> byte_store list" where
  "payload_stmts res_addr mag_addr = store32_stmts res_addr ''v'' @ store32_stmts mag_addr (dec MAGIC)"

definition payload_val :: "int \<Rightarrow> string \<Rightarrow> int" where
  "payload_val v e = (if e = ''v'' then v else int MAGIC)"

definition exec_payload :: "int \<Rightarrow> nat \<Rightarrow> nat \<Rightarrow> nat \<Rightarrow> memory \<Rightarrow> memory" where
  "exec_payload v res_addr mag_addr k m =
     foldl (exec_store (payload_val v)) m (take k (payload_stmts res_addr mag_addr))"

section \<open>QMP\<close>

definition first_line :: "bytes \<Rightarrow> string" where
  "first_line d = takeWhile (\<lambda>c. c \<noteq> nl) (as_text d)"

fun qmp_recv :: "bytes \<Rightarrow> bytes list \<Rightarrow> (string \<times> bytes list) res" where
  "qmp_recv d [] = Inl OSError"
| "qmp_recv d (chunk # chunks) =
     (if chunk = [] then Inl OSError
      else let d' = d @ chunk
           in if utf8_ok d' \<and> json_ok (first_line d') then Inr (first_line d', chunks)
              else qmp_recv d' chunks)"

definition qmp_command :: "string \<Rightarrow> string \<Rightarrow> string" where
  "qmp_command cmd args = ''{'' @ json_str ''execute'' @ '': '' @ json_str cmd
     @ (if args = [] then [] else '', '' @ json_str ''arguments'' @ '': '' @ args) @ ''}'' @ [nl]"

definition qmp :: "string \<Rightarrow> string \<Rightarrow> bytes list \<Rightarrow> (string list \<times> string) res" where
  "qmp cmd args chunks =
     res_bind (qmp_recv [] chunks) (\<lambda>(_, chunks).
     res_bind (qmp_recv [] chunks) (\<lambda>(_, chunks).
     res_bind (qmp_recv [] chunks) (\<lambda>(out, _).
       Inr ([qmp_command ''qmp_capabilities'' [], qmp_command cmd args, qmp_command ''quit'' []], out))))"

section \<open>Running an image\<close>

text \<open>
  What the emulator does: the console output when it has exited by the time the script looks, the
  chunks its control socket sends, and the memory dump, if it wrote one.
\<close>

record emulation =
  em_exited :: "string option"
  em_chunks :: "bytes list"
  em_dump :: "nat \<Rightarrow> nat \<Rightarrow> bytes option"

definition word_at :: "bytes \<Rightarrow> nat \<Rightarrow> nat" where
  "word_at raw off = le_nat (py_slice raw off (off + 4))"

definition hex_bytes :: "bytes \<Rightarrow> string" where
  "hex_bytes b = concat (map (\<lambda>x. [digit_char 97 (unat x div 16), digit_char 97 (unat x mod 16)]) b)"

definition pmemsave_args :: "nat \<Rightarrow> nat \<Rightarrow> string \<Rightarrow> string" where
  "pmemsave_args base span file =
     ''{'' @ json_str ''val'' @ '': '' @ dec base @ '', '' @ json_str ''size'' @ '': '' @ dec span
     @ '', '' @ json_str ''filename'' @ '': '' @ json_str file @ ''}''"

text \<open>The result is \<open>(got, err)\<close> of the code: an answer, or the reason there is none.\<close>

definition qemu_cmd :: "arch_row \<Rightarrow> string \<Rightarrow> string \<Rightarrow> string list" where
  "qemu_cmd row img_path sock =
     a_qemu row # a_machine row @ [''-nographic'', ''-kernel'', img_path, ''-qmp'',
       ''unix:'' @ sock @ '',server=on,wait=off'']"

definition run_image :: "arch_row \<Rightarrow> string \<Rightarrow> emulation \<Rightarrow> (string + nat) res" where
  "run_image row dump_file em =
     (case em_exited em of
        Some log \<Rightarrow> Inr (Inl (''QEMU EXITED: '' @ last_n 400 log))
      | None \<Rightarrow>
          let base = min (a_res row) (a_mag row);
              span = max (a_res row) (a_mag row) + 8 - base
          in res_bind (qmp ''pmemsave'' (pmemsave_args base span dump_file) (em_chunks em)) (\<lambda>_.
             let raw = (case em_dump em base span of None \<Rightarrow> [] | Some d \<Rightarrow> d)
             in if raw = [] then Inr (Inl ''NO DUMP'')
                else if word_at raw (a_mag row - base) \<noteq> MAGIC
                then Inr (Inl (''NO MAGIC (probe region: '' @ hex_bytes (take 24 raw) @ '')''))
                else Inr (Inr (word_at raw (a_res row - base)))))"

section \<open>The program\<close>

text \<open>
  The world of the script: the \<open>PATH\<close> variable and which files are executable, the contents of a file
  (or the exception of opening it), the Lisp build (the image it leaves, if any, and its output; an
  exception when it times out), the emulator given its command and the image, and the names of the
  two temporary directories.
\<close>

record al_world =
  w_path :: "string option"
  w_access :: "string \<Rightarrow> bool"
  w_read :: "string \<Rightarrow> string res"
  w_build :: "string \<Rightarrow> string \<Rightarrow> (bytes option \<times> string \<times> string) res"
  w_run :: "string list \<Rightarrow> bytes \<Rightarrow> emulation"
  w_work :: string
  w_tmp :: string

definition path_join :: "string \<Rightarrow> string \<Rightarrow> string" where
  "path_join d f =
     (if f \<noteq> [] \<and> hd f = CHR ''/'' then f
      else if d = [] \<or> last d = CHR ''/'' then d @ f else d @ ''/'' @ f)"

definition basename :: "string \<Rightarrow> string" where
  "basename p = rev (takeWhile (\<lambda>c. c \<noteq> CHR ''/'') (rev p))"

record outcome =
  status :: nat
  out_lines :: "string list"
  err_lines :: "string list"

definition exit_with :: "nat \<Rightarrow> string list \<Rightarrow> outcome" where
  "exit_with n ls = \<lparr>status = n, out_lines = ls, err_lines = []\<rparr>"

definition ladder_usage :: string where
  "ladder_usage = ''Exit code: 0 PASS (or SKIP), 3 the image ran and answered WRONG, 1 anything''"

definition expect_arg :: "string list \<Rightarrow> int option res" where
  "expect_arg argv =
     (case filter (starts_with ''--expect='') argv of
        [] \<Rightarrow> Inr None
      | a # _ \<Rightarrow> res_bind (py_int 10 (drop 9 a)) (\<lambda>n. Inr (Some n)))"

text \<open>From the emulator's answer to the exit status.\<close>

definition ladder_verdict :: "string \<Rightarrow> string \<Rightarrow> int \<Rightarrow> string list \<Rightarrow> (string + nat) \<Rightarrow> outcome" where
  "ladder_verdict tag rung want kept r =
     (case r of
        Inl e \<Rightarrow> exit_with 1 (kept @ [tag @ '' FAIL      '' @ take 150 e])
      | Inr got \<Rightarrow>
          if int got \<noteq> want
          then exit_with 3 (kept @ [tag @ '' WRONG     got '' @ dec got @ '' want '' @ dec_int want])
          else exit_with 0 (kept @ [tag @ '' PASS      '' @ basename rung @ '' = '' @ dec got]))"

text \<open>The part of \<open>main\<close> after the checks: build the payload, run it, compare.\<close>

definition ladder_cell :: "al_world \<Rightarrow> string \<Rightarrow> arch_row \<Rightarrow> string \<Rightarrow> int \<Rightarrow> bool \<Rightarrow> outcome res" where
  "ladder_cell w arch row rung want keep =
     (let tag = ljust 8 arch in
      res_bind (w_read w rung) (\<lambda>src.
      res_bind (w_build w (a_target row) (payload src (a_res row) (a_mag row))) (\<lambda>(built, out, err).
      case built of
        None \<Rightarrow>
          let tail = last_n 3 (filter (\<lambda>l. strip l \<noteq> []) (splitlines (out @ err)))
          in Inr (exit_with 1 [tag @ '' BUILD-FAIL  '' @ take 150 (join '' | '' tail)])
      | Some img \<Rightarrow>
          res_bind (run_image row (path_join (w_tmp w) ''mem.bin'')
            (w_run w (qemu_cmd row (path_join (w_work w) ''payload.bin'') (path_join (w_tmp w) ''qmp.sock'')) img)) (\<lambda>r.
          Inr (ladder_verdict tag rung want (if keep then [tag @ '' (kept '' @ w_work w @ '')''] else []) r)))))"

definition main_ladder :: "al_world \<Rightarrow> string list \<Rightarrow> outcome res" where
  "main_ladder w argv =
     (let args = filter (\<lambda>a. \<not> starts_with ''--'' a) (tl argv)
      in res_bind (expect_arg argv) (\<lambda>expect.
      if length args \<noteq> 2 \<or> expect = None
      then Inr \<lparr>status = 2, out_lines = [], err_lines = [ladder_usage]\<rparr>
      else let arch = args ! 0; rung = args ! 1 in
      case map_of ARCHES arch of
        None \<Rightarrow> Inr \<lparr>status = 2, out_lines = [],
                      err_lines = [''unknown arch '' @ arch @ ''; known: '' @ join '' '' (keys ARCHES)]\<rparr>
      | Some row \<Rightarrow>
          let dirs = split_on (CHR '':'') (case w_path w of None \<Rightarrow> [] | Some p \<Rightarrow> p) in
          if \<not> list_ex (\<lambda>d. w_access w (path_join d (a_qemu row))) dirs
          then Inr (exit_with 0 [ljust 8 arch @ '' SKIP      '' @ a_qemu row @ '' not on PATH''])
          else ladder_cell w arch row rung (the expect) (''--keep'' \<in> set argv)))"

section \<open>Lemmas on the stores\<close>

definition mem_word :: "memory \<Rightarrow> nat \<Rightarrow> nat" where
  "mem_word m a = le_nat [m a, m (a + 1), m (a + 2), m (a + 3)]"

lemma exec_four:
  "foldl (exec_store val) m (store32_stmts a e) =
     m(a := of_int (val e mod 256), a + 1 := of_int (val e div 256 mod 256),
       a + 2 := of_int (val e div 65536 mod 256), a + 3 := of_int (val e div 16777216 mod 256))"
  by (simp add: store32_stmts_def)

lemma mem_word_four: "mem_word (foldl (exec_store val) m (store32_stmts a e)) a = nat (val e mod 2 ^ 32)"
proof -
  have "int (mem_word (foldl (exec_store val) m (store32_stmts a e)) a) = val e mod 4294967296"
    unfolding bytes_of_int [symmetric] by (simp add: exec_four mem_word_def)
  then show ?thesis by (simp add: nat_eq_iff2)
qed

definition store_addr :: "byte_store \<Rightarrow> nat" where
  "store_addr s = (case s of ByteStore a _ _ \<Rightarrow> a)"

lemma exec_frame: "x \<notin> store_addr ` set ss \<Longrightarrow> foldl (exec_store val) m ss x = m x"
proof (induction ss arbitrary: m)
  case (Cons s ss)
  then show ?case by (cases s) (auto simp: store_addr_def)
qed simp

lemma store_addr_four: "store_addr ` set (store32_stmts a e) = {a, a + 1, a + 2, a + 3}"
  by (auto simp: store32_stmts_def store_addr_def)

lemma mem_word_frame:
  "{a, a + 1, a + 2, a + 3} \<inter> store_addr ` set ss = {} \<Longrightarrow>
     mem_word (foldl (exec_store val) m ss) a = mem_word m a"
  by (simp add: mem_word_def exec_frame)

lemma length_stmts: "length (store32_stmts a e) = 4"
  by (simp add: store32_stmts_def)

text \<open>The answer is stored before the first byte of the magic word.\<close>

lemma exec_payload_answer:
  assumes "res + 4 \<le> mag" "mem_word m mag \<noteq> MAGIC"
    and "mem_word (exec_payload v res mag k m) mag = MAGIC"
  shows "mem_word (exec_payload v res mag k m) res = nat (v mod 2 ^ 32)"
proof -
  let ?r = "store32_stmts res ''v''" and ?g = "store32_stmts mag (dec MAGIC)"
  have tk: "take k (payload_stmts res mag) = take k ?r @ take (k - 4) ?g"
    by (simp add: payload_stmts_def length_stmts)
  have "4 < k"
  proof (rule ccontr)
    assume "\<not> 4 < k"
    then have "exec_payload v res mag k m = foldl (exec_store (payload_val v)) m (take k ?r)"
      by (simp add: exec_payload_def tk)
    moreover have "store_addr ` set (take k ?r) \<subseteq> {res, res + 1, res + 2, res + 3}"
      unfolding store_addr_four [of res "''v''", symmetric] by (intro image_mono set_take_subset)
    ultimately have "mem_word (exec_payload v res mag k m) mag = mem_word m mag"
      using assms(1) by (simp only:) (intro mem_word_frame, auto)
    then show False using assms(2,3) by simp
  qed
  then have "exec_payload v res mag k m
      = foldl (exec_store (payload_val v)) (foldl (exec_store (payload_val v)) m ?r) (take (k - 4) ?g)"
    by (simp add: exec_payload_def tk length_stmts)
  moreover have "store_addr ` set (take (k - 4) ?g) \<subseteq> {mag, mag + 1, mag + 2, mag + 3}"
    unfolding store_addr_four [of mag "dec MAGIC", symmetric] by (intro image_mono set_take_subset)
  then have "{res, res + 1, res + 2, res + 3} \<inter> store_addr ` set (take (k - 4) ?g) = {}"
    using assms(1) by auto
  ultimately show ?thesis
    by (simp add: mem_word_frame mem_word_four payload_val_def)
qed

lemma exec_payload_all:
  assumes "res + 4 \<le> mag" "8 \<le> k"
  shows "mem_word (exec_payload v res mag k m) mag = MAGIC"
    and "mem_word (exec_payload v res mag k m) res = nat (v mod 2 ^ 32)"
proof -
  let ?r = "store32_stmts res ''v''" and ?g = "store32_stmts mag (dec MAGIC)"
  have e: "exec_payload v res mag k m
      = foldl (exec_store (payload_val v)) (foldl (exec_store (payload_val v)) m ?r) ?g"
    using assms(2) by (simp add: exec_payload_def payload_stmts_def length_stmts)
  have ne: "dec MAGIC \<noteq> ''v''"
  proof
    assume "dec MAGIC = ''v''"
    then have "CHR ''v'' \<in> digit_char 97 ` {..<10}"
      using set_digits_of [of 10 97 MAGIC] by auto
    then obtain x :: nat where x: "CHR ''v'' = char_of (48 + x)" "x < 10" by (auto simp: digit_char_def)
    then have "(of_char (CHR ''v'') :: nat) = of_char (char_of (48 + x) :: char)" by (simp only:)
    then have "118 = (48 + x) mod 256" by (simp only: of_char_of) simp
    then show False using x(2) by simp
  qed
  show "mem_word (exec_payload v res mag k m) mag = MAGIC"
    unfolding e mem_word_four using ne by (simp add: payload_val_def MAGIC_def)
  have "{res, res + 1, res + 2, res + 3} \<inter> store_addr ` set ?g = {}"
    using assms(1) unfolding store_addr_four by auto
  then show "mem_word (exec_payload v res mag k m) res = nat (v mod 2 ^ 32)"
    unfolding e by (simp add: mem_word_frame mem_word_four payload_val_def)
qed

section \<open>Lemmas on the dump\<close>

definition mem_dump :: "memory \<Rightarrow> nat \<Rightarrow> nat \<Rightarrow> bytes" where
  "mem_dump m base span = map m [base..<base + span]"

lemma word_at_dump: "off + 4 \<le> span \<Longrightarrow> word_at (mem_dump m base span) off = mem_word m (base + off)"
proof -
  assume o: "off + 4 \<le> span"
  have "py_slice (mem_dump m base span) off (off + 4)
      = [m (base + off), m (base + off + 1), m (base + off + 2), m (base + off + 3)]"
    using o by (intro nth_equalityI)
      (auto simp: mem_dump_def py_slice_def nth_Cons less_Suc_eq numeral_eq_Suc split: nat.splits)
  then show ?thesis by (simp only: word_at_def mem_word_def)
qed

lemma ARCHES_layout: "map_of ARCHES arch = Some row \<Longrightarrow> a_mag row = a_res row + 16"
  by (auto simp: ARCHES_def split: if_splits)

text \<open>A word that equals the magic is complete: no three bytes can hold it.\<close>

lemma word_at_magic: "word_at raw off = MAGIC \<Longrightarrow> off + 4 \<le> length raw"
proof (rule ccontr)
  assume w: "word_at raw off = MAGIC" and "\<not> off + 4 \<le> length raw"
  then have "length (py_slice raw off (off + 4)) \<le> 3" by simp
  then have "(256 :: nat) ^ length (py_slice raw off (off + 4)) \<le> 256 ^ 3"
    by (rule power_increasing) simp
  moreover have "MAGIC < 256 ^ length (py_slice raw off (off + 4))"
    using le_nat_less [of "py_slice raw off (off + 4)"] w by (simp add: word_at_def)
  ultimately show False by (simp add: MAGIC_def)
qed

text \<open>An answer of \<open>run_image\<close>, taken apart.\<close>

lemma run_image_answer:
  assumes "run_image row f em = Inr (Inr got)" "map_of ARCHES arch = Some row"
  obtains raw where "em_exited em = None" "em_dump em (a_res row) 24 = Some raw"
    "16 + 4 \<le> length raw" "word_at raw 16 = MAGIC" "got = word_at raw 0"
proof -
  have l: "a_mag row = a_res row + 16" using ARCHES_layout [OF assms(2)] .
  have ex: "em_exited em = None" using assms(1) by (simp add: run_image_def split: option.splits)
  obtain raw where "em_dump em (a_res row) 24 = Some raw" "word_at raw 16 = MAGIC" "got = word_at raw 0"
    using assms(1) by (auto simp: run_image_def ex l Let_def split: option.splits if_splits)
  then show ?thesis using that ex word_at_magic by blast
qed

text \<open>An emulator that runs the payload: any dump it writes is guest memory after some of its stores.\<close>

definition runs_payload :: "arch_row \<Rightarrow> int \<Rightarrow> emulation \<Rightarrow> bool" where
  "runs_payload row v em \<longleftrightarrow>
     (\<forall>base span raw. em_dump em base span = Some raw \<longrightarrow>
       (\<exists>m k. mem_word m (a_mag row) \<noteq> MAGIC \<and>
         raw = mem_dump (exec_payload v (a_res row) (a_mag row) k m) base span))"

lemma run_image_sound:
  assumes "map_of ARCHES arch = Some row" "runs_payload row v em" "run_image row f em = Inr (Inr got)"
  shows "got = nat (v mod 2 ^ 32)"
proof -
  obtain raw where raw: "em_dump em (a_res row) 24 = Some raw" "word_at raw 16 = MAGIC" "got = word_at raw 0"
    using run_image_answer [OF assms(3,1)] by blast
  then obtain m k where m: "mem_word m (a_mag row) \<noteq> MAGIC"
    and r: "raw = mem_dump (exec_payload v (a_res row) (a_mag row) k m) (a_res row) 24"
    using assms(2) unfolding runs_payload_def by blast
  have l: "a_mag row = a_res row + 16" using ARCHES_layout [OF assms(1)] .
  have "mem_word (exec_payload v (a_res row) (a_mag row) k m) (a_mag row) = MAGIC"
    using raw(2) unfolding r by (simp add: word_at_dump l)
  then have "mem_word (exec_payload v (a_res row) (a_mag row) k m) (a_res row) = nat (v mod 2 ^ 32)"
    using exec_payload_answer [of "a_res row" "a_mag row", OF _ m] l by simp
  then show ?thesis unfolding raw(3) r by (simp add: word_at_dump)
qed

lemma ladder_cell_sound:
  assumes "ladder_cell w arch row rung want keep = Inr r" "map_of ARCHES arch' = Some row"
    and "\<And>a b img. runs_payload row v (w_run w (qemu_cmd row a b) img)"
  shows "(status r = 1 \<or> status r = 0 \<and> want = v mod 2 ^ 32 \<or> status r = 3 \<and> want \<noteq> v mod 2 ^ 32)"
proof -
  have got: "int got = v mod 2 ^ 32" if "run_image row f (w_run w (qemu_cmd row a b) img) = Inr (Inr got)" for f a b img got
    using run_image_sound [OF assms(2,3) that] by simp
  obtain src built out err where
    r: "w_read w rung = Inr src"
       "w_build w (a_target row) (payload src (a_res row) (a_mag row)) = Inr (built, out, err)"
    using assms(1) by (auto simp: ladder_cell_def Let_def)
  show ?thesis
  proof (cases built)
    case None
    then show ?thesis using assms(1) by (auto simp: ladder_cell_def Let_def r exit_with_def)
  next
    case (Some img)
    then obtain ans kept where a: "r = ladder_verdict (ljust 8 arch) rung want kept ans"
      "\<exists>f a b. run_image row f (w_run w (qemu_cmd row a b) img) = Inr ans"
      using assms(1) by (simp add: ladder_cell_def Let_def r) blast
    show ?thesis
    proof (cases ans)
      case (Inl e)
      then show ?thesis by (simp add: a(1) ladder_verdict_def exit_with_def)
    next
      case (Inr n)
      then have "int n = v mod 2 ^ 32" using a(2) got by blast
      then show ?thesis using Inr by (auto simp: a(1) ladder_verdict_def exit_with_def)
    qed
  qed
qed

section \<open>Properties\<close>

text \<open>
  C3: The magic word publishes the answer.  Run the payload of any architecture in the table from a
  memory that does not hold the magic, and stop it after any number \<open>k\<close> of its eight byte stores: if
  the magic word is there, the answer word is the probe's value modulo 2^32; once all eight are done
  both are there; and no byte outside the two words has changed.
\<close>

theorem payload_publishes:
  assumes "map_of ARCHES arch = Some row" "mem_word m (a_mag row) \<noteq> MAGIC"
  shows "let m' = exec_payload v (a_res row) (a_mag row) k m in
    (mem_word m' (a_mag row) = MAGIC \<longrightarrow> mem_word m' (a_res row) = nat (v mod 2 ^ 32)) \<and>
    (8 \<le> k \<longrightarrow> mem_word m' (a_mag row) = MAGIC) \<and>
    (\<forall>x. x \<notin> {a_res row..<a_res row + 4} \<union> {a_mag row..<a_mag row + 4} \<longrightarrow> m' x = m x)"
proof -
  let ?m = "exec_payload v (a_res row) (a_mag row) k m"
  have l: "a_res row + 4 \<le> a_mag row" using ARCHES_layout [OF assms(1)] by simp
  have "?m x = m x" if "x \<notin> {a_res row..<a_res row + 4} \<union> {a_mag row..<a_mag row + 4}" for x
    unfolding exec_payload_def
  proof (rule exec_frame)
    have "store_addr ` set (take k (payload_stmts (a_res row) (a_mag row)))
        \<subseteq> store_addr ` set (payload_stmts (a_res row) (a_mag row))"
      by (intro image_mono set_take_subset)
    also have "\<dots> \<subseteq> {a_res row..<a_res row + 4} \<union> {a_mag row..<a_mag row + 4}"
      by (auto simp: payload_stmts_def image_Un store_addr_four)
    finally show "x \<notin> store_addr ` set (take k (payload_stmts (a_res row) (a_mag row)))"
      using that by blast
  qed
  then show ?thesis
    using exec_payload_answer [OF l assms(2), of v k] exec_payload_all(1) [OF l, of k v m]
    by (simp add: Let_def)
qed

lemma i386_row: "\<exists>row. map_of ARCHES ''i386'' = Some row \<and> a_res row = 0x00700000 \<and> a_mag row = 0x00700010"
  by (simp add: ARCHES_def)

lemma payload_publishes_witness:
  "\<exists>row. map_of ARCHES ''i386'' = Some row \<and>
    (let m' = exec_payload (-1) (a_res row) (a_mag row) 8 (\<lambda>_. 0) in
      mem_word m' (a_mag row) = MAGIC \<and> mem_word m' (a_res row) = 4294967295)"
proof -
  obtain row where row: "map_of ARCHES ''i386'' = Some row" using i386_row by blast
  have "mem_word (\<lambda>_. 0) (a_mag row) \<noteq> MAGIC" by (simp add: mem_word_def MAGIC_def)
  from payload_publishes [OF row this, of "-1" 8] row show ?thesis by (simp add: Let_def)
qed

text \<open>
  C7: No false verdict.  When the emulator runs the payload, and whatever moment its memory is dumped
  at, the script exits with 0 only if it skipped (the emulator is not installed) or the probe's value
  modulo 2^32 is the expected one, with 3 only if it is not, and otherwise with 1 or 2.
\<close>

theorem main_ladder_sound:
  assumes "main_ladder w argv = Inr r"
    and "\<And>arch row a b img. map_of ARCHES arch = Some row \<Longrightarrow>
           runs_payload row v (w_run w (qemu_cmd row a b) img)"
  shows "status r \<le> 3 \<and>
    (status r = 0 \<longrightarrow>
      (\<exists>arch row. map_of ARCHES arch = Some row \<and>
        out_lines r = [ljust 8 arch @ '' SKIP      '' @ a_qemu row @ '' not on PATH'']) \<or>
      expect_arg argv = Inr (Some (v mod 2 ^ 32))) \<and>
    (status r = 3 \<longrightarrow> (\<exists>e. expect_arg argv = Inr (Some e) \<and> e \<noteq> v mod 2 ^ 32))"
proof -
  let ?args = "filter (\<lambda>a. \<not> starts_with ''--'' a) (tl argv)"
  obtain expect where e: "expect_arg argv = Inr expect"
    using assms(1) by (auto simp: main_ladder_def Let_def)
  show ?thesis
  proof (cases "length ?args \<noteq> 2 \<or> expect = None")
    case True
    then show ?thesis using assms(1) by (auto simp: main_ladder_def Let_def e)
  next
    case False
    then obtain want where want: "expect = Some want" by auto
    show ?thesis
    proof (cases "map_of ARCHES (?args ! 0)")
      case None
      then show ?thesis using assms(1) False by (auto simp: main_ladder_def Let_def e want)
    next
      case (Some row)
      have main: "main_ladder w argv =
          (if list_ex (\<lambda>d. w_access w (path_join d (a_qemu row)))
                (split_on (CHR '':'') (case w_path w of None \<Rightarrow> [] | Some p \<Rightarrow> p))
           then ladder_cell w (?args ! 0) row (?args ! 1) want (''--keep'' \<in> set argv)
           else Inr (exit_with 0 [ljust 8 (?args ! 0) @ '' SKIP      '' @ a_qemu row @ '' not on PATH'']))"
        using False Some by (simp add: main_ladder_def Let_def e want)
      show ?thesis
      proof (cases "ladder_cell w (?args ! 0) row (?args ! 1) want (''--keep'' \<in> set argv) = Inr r")
        case True
        then show ?thesis using ladder_cell_sound [OF True Some assms(2) [OF Some]] by (auto simp: e want)
      next
        case False
        then have "r = exit_with 0 [ljust 8 (?args ! 0) @ '' SKIP      '' @ a_qemu row @ '' not on PATH'']"
          using assms(1) unfolding main by (simp split: if_splits)
        then show ?thesis using Some by (auto simp: exit_with_def)
      qed
    qed
  qed
qed


text \<open>A world in which everything works and the probe's value is 7.\<close>

definition empty_obj :: bytes where "empty_obj = [0x7B, 0x7D, 0x0A]"

definition sample_em :: "arch_row \<Rightarrow> int \<Rightarrow> emulation" where
  "sample_em row v =
     \<lparr>em_exited = None, em_chunks = [empty_obj, empty_obj, empty_obj],
      em_dump = (\<lambda>base span. Some (mem_dump (exec_payload v (a_res row) (a_mag row) 8 (\<lambda>_. 0)) base span))\<rparr>"

definition sample_world :: al_world where
  "sample_world =
     \<lparr>w_path = Some ''/usr/bin'', w_access = (\<lambda>_. True), w_read = (\<lambda>_. Inr ''(defun probe () 7)''),
      w_build = (\<lambda>_ _. Inr (Some [], [], [])),
      w_run = (\<lambda>cmd _. case map_of (map (\<lambda>(_, r). (a_qemu r, r)) ARCHES) (hd cmd) of
                 Some r \<Rightarrow> sample_em r 7 | None \<Rightarrow> sample_em (snd (hd ARCHES)) 7),
      w_work = ''/tmp/w'', w_tmp = ''/tmp/t''\<rparr>"

lemma sample_world_run:
  "map_of ARCHES arch = Some row \<Longrightarrow> w_run sample_world (qemu_cmd row a b) img = sample_em row 7"
proof -
  assume "map_of ARCHES arch = Some row"
  then have "(a_qemu row, row) \<in> set (map (\<lambda>(_, r). (a_qemu r, r)) ARCHES)"
    by (force dest: map_of_SomeD)
  moreover have "distinct (map fst (map (\<lambda>(_, r). (a_qemu r, r)) ARCHES))"
    by (simp add: ARCHES_def)
  ultimately have "map_of (map (\<lambda>(_, r). (a_qemu r, r)) ARCHES) (a_qemu row) = Some row"
    by (simp only: map_of_eq_Some_iff)
  then show ?thesis by (simp add: sample_world_def qemu_cmd_def)
qed

lemma sample_em_runs: "runs_payload row v (sample_em row v)"
proof -
  have "mem_word (\<lambda>_. 0) (a_mag row) \<noteq> MAGIC" by (simp add: mem_word_def MAGIC_def)
  then show ?thesis unfolding runs_payload_def sample_em_def emulation.simps by blast
qed

lemma sample_chunk: "utf8_ok empty_obj" "json_ok (first_line empty_obj)" "empty_obj \<noteq> []"
proof -
  show "utf8_ok empty_obj" by code_simp
  have "first_line empty_obj = ''{}''" by code_simp
  then show "json_ok (first_line empty_obj)" by (simp add: json_ok_def json_ws_def)
qed (simp add: empty_obj_def)

lemma sample_run:
  assumes "map_of ARCHES arch = Some row"
  shows "run_image row f (sample_em row 7) = Inr (Inr 7)"
proof -
  have l: "a_mag row = a_res row + 16" using ARCHES_layout [OF assms] .
  have q: "\<exists>x. qmp cmd args ([empty_obj, empty_obj, empty_obj]) = Inr x" for cmd args
    using sample_chunk by (simp add: qmp_def Let_def)
  have "word_at (mem_dump (exec_payload 7 (a_res row) (a_res row + 16) 8 (\<lambda>_. 0)) (a_res row) 24) 16 = MAGIC"
    "word_at (mem_dump (exec_payload 7 (a_res row) (a_res row + 16) 8 (\<lambda>_. 0)) (a_res row) 24) 0 = 7"
    by (simp_all add: word_at_dump exec_payload_all)
  moreover have "mem_dump m b 24 \<noteq> []" for m b by (simp add: mem_dump_def)
  ultimately show ?thesis
    using q by (auto simp: run_image_def sample_em_def l Let_def)
qed

definition sample_argv :: "string list" where
  "sample_argv = [''arch-ladder.py'', ''i386'', ''r.lisp'', ''--expect=7'']"

lemma sample_expect: "expect_arg sample_argv = Inr (Some 7)"
  by (simp add: expect_arg_def sample_argv_def text_eval)

lemma sample_main: "\<exists>r. main_ladder sample_world sample_argv = Inr r \<and> status r = 0"
proof -
  obtain row where row: "map_of ARCHES ''i386'' = Some row" using i386_row by blast
  have args: "filter (\<lambda>a. \<not> starts_with ''--'' a) (tl sample_argv) = [''i386'', ''r.lisp'']"
    by (simp add: sample_argv_def starts_with_def)
  have "list_ex (\<lambda>d. w_access sample_world (path_join d (a_qemu row))) (split_on (CHR '':'') ''/usr/bin'')"
    by (simp add: sample_world_def)
  moreover have "\<exists>r. ladder_cell sample_world ''i386'' row ''r.lisp'' 7 k = Inr r \<and> status r = 0" for k
    using sample_world_run [OF row] sample_run [OF row]
    by (simp add: ladder_cell_def Let_def ladder_verdict_def exit_with_def)
       (simp add: sample_world_def ladder_verdict_def exit_with_def)
  ultimately show ?thesis
    by (simp add: main_ladder_def sample_expect args Let_def row)
      (simp add: sample_world_def)
qed

lemma main_ladder_sound_witness:
  "\<exists>r. main_ladder sample_world sample_argv = Inr r \<and> status r = 0 \<and> status r \<le> 3 \<and>
    expect_arg sample_argv = Inr (Some (7 mod 2 ^ 32))"
proof -
  obtain r where r: "main_ladder sample_world sample_argv = Inr r" "status r = 0" using sample_main by blast
  have "status r \<le> 3 \<and>
    (status r = 0 \<longrightarrow>
      (\<exists>arch row. map_of ARCHES arch = Some row \<and>
        out_lines r = [ljust 8 arch @ '' SKIP      '' @ a_qemu row @ '' not on PATH'']) \<or>
      expect_arg sample_argv = Inr (Some (7 mod 2 ^ 32))) \<and>
    (status r = 3 \<longrightarrow> (\<exists>e. expect_arg sample_argv = Inr (Some e) \<and> e \<noteq> 7 mod 2 ^ 32))"
    by (rule main_ladder_sound [OF r(1)]) (simp add: sample_world_run sample_em_runs)
  with r sample_expect show ?thesis by auto
qed

end
