(* ===== verification/HostedLadder.thy ===== *)
theory HostedLadder
  imports PyText
begin

text \<open>
  \<open>scripts/hosted-ladder.py\<close>: the rungs on the hosted Linux ports.  \<open>h_payload\<close> is the generated
  program, \<open>emit_bytes\<close> what its four writes print; \<open>expected_of\<close> the search for the expected value in a
  rung's header; \<open>run_cell\<close> one build, run and comparison; \<open>hosted_main\<close> the whole program with its
  positive control.  The build, the emulator and the file system are an environment.  The dash of
  two messages, which is not a Latin-1 character, is written \<open>---\<close>.
\<close>

section \<open>The table and the payload\<close>

definition H_ARCHES :: "(string, string \<times> string) dict" where
  "H_ARCHES =
    [(''riscv64'', ''MODUS_RISCV_LINUX_OUT'', ''qemu-riscv64-static''),
     (''riscv32'', ''MODUS_RISCV32_LINUX_OUT'', ''qemu-riscv32-static''),
     (''arm32'', ''MODUS_ARM32_LINUX_OUT'', ''qemu-arm-static''),
     (''ppc64'', ''MODUS_PPC64_LINUX_OUT'', ''qemu-ppc64-static''),
     (''ppc32'', ''MODUS_PPC32_LINUX_OUT'', ''qemu-ppc-static''),
     (''68k'', ''MODUS_68K_LINUX_OUT'', ''qemu-m68k-static'')]"

text \<open>The right shifts of the four writes, and their text.\<close>

definition write_shifts :: "nat list" where
  "write_shifts = [0, 8, 16, 24]"

definition write_text :: "nat \<Rightarrow> string" where
  "write_text n = ''    (write-char-serial (logand ''
     @ (if n = 0 then ''v'' else ''(ash v '' @ dec_int (- int n) @ '')'') @ '' 255))'' @ [nl]"

definition h_payload :: "string \<Rightarrow> string" where
  "h_payload rung = rung @ [nl] @ ''(defun kernel-main ()'' @ [nl] @ ''  (let ((v (probe)))'' @ [nl]
     @ concat (map write_text write_shifts) @ ''    (sys-exit 0)))'' @ [nl]"

definition emit_bytes :: "int \<Rightarrow> bytes" where
  "emit_bytes v = map (\<lambda>n. of_int (v div 2 ^ n mod 256)) write_shifts"

section \<open>The expected value\<close>

text \<open>\<open>re.search(r"expect\s+(-?\d+)", s)\<close>: the text matched at the front of \<open>s\<close>, then the first match.\<close>

definition expect_here :: "string \<Rightarrow> string option" where
  "expect_here s =
     (if starts_with ''expect'' s \<and> (case drop 6 s of c # _ \<Rightarrow> py_space c | [] \<Rightarrow> False)
      then let t = dropWhile py_space (drop 6 s);
               neg = (case t of c # _ \<Rightarrow> c = CHR ''-'' | [] \<Rightarrow> False);
               ds = takeWhile is_digit (if neg then tl t else t)
           in if ds = [] then None else Some ((if neg then ''-'' else []) @ ds)
      else None)"

fun expect_search :: "string \<Rightarrow> string option" where
  "expect_search [] = expect_here []"
| "expect_search (c # cs) =
     (case expect_here (c # cs) of Some m \<Rightarrow> Some m | None \<Rightarrow> expect_search cs)"

definition expected_of :: "string \<Rightarrow> int option res" where
  "expected_of src =
     (case expect_search src of
        None \<Rightarrow> Inr None
      | Some m \<Rightarrow> res_bind (py_int 10 m) (\<lambda>n. Inr (Some n)))"

section \<open>One cell\<close>

text \<open>
  The world: the contents of a file or the exception of opening it, whether a path exists, the names
  in the rung directory, the build (the image it leaves, and its standard output and error; an
  exception when it times out), the emulator (nothing when it times out, else its output, its exit
  status as printed and the \<open>repr\<close> of the end of its error output), and the number of cores.
\<close>

record h_world =
  h_read :: "string \<Rightarrow> string res"
  h_exists :: "string \<Rightarrow> bool"
  h_rungs :: string
  h_listdir :: "string list"
  h_build :: "string \<Rightarrow> string \<Rightarrow> string \<Rightarrow> (bytes option \<times> string \<times> string) res"
  h_emulate :: "string \<Rightarrow> bytes \<Rightarrow> (bytes \<times> string \<times> string) option res"
  h_jobs_env :: "string option"
  h_cpus :: "nat option"

datatype cell_kind = BUILD | RUN | PASS | WRONG

fun kind_text :: "cell_kind \<Rightarrow> string" where
  "kind_text BUILD = ''BUILD''"
| "kind_text RUN = ''RUN''"
| "kind_text PASS = ''PASS''"
| "kind_text WRONG = ''WRONG''"

definition int_text :: "int option \<Rightarrow> string" where
  "int_text e = (case e of None \<Rightarrow> ''None'' | Some n \<Rightarrow> dec_int n)"

definition grade :: "bytes \<Rightarrow> int option \<Rightarrow> cell_kind \<times> string" where
  "grade stdout expect =
     (let got = le_nat (take 4 stdout); ok = (Some (int got) = expect)
      in (if ok then PASS else WRONG,
          (if ok then ''='' else ''!='') @ '' '' @ dec got @ '' (want '' @ int_text expect @ '')''))"

definition run_cell :: "h_world \<Rightarrow> string \<Rightarrow> string \<Rightarrow> int option \<Rightarrow> (cell_kind \<times> string) res" where
  "run_cell w arch rung_path expect =
     (case map_of H_ARCHES arch of
        None \<Rightarrow> Inl KeyError
      | Some (out_env, qemu) \<Rightarrow>
          res_bind (h_read w rung_path) (\<lambda>src.
          res_bind (h_build w out_env arch (h_payload src)) (\<lambda>(image, out, err).
          case image of
            None \<Rightarrow> Inr (BUILD, ''BUILD FAILED: '' @ last_n 300 (if err \<noteq> [] then err else out))
          | Some img \<Rightarrow>
              res_bind (h_emulate w qemu img) (\<lambda>r.
              case r of
                None \<Rightarrow> Inr (RUN, ''TIMEOUT'')
              | Some (stdout, rc, tail) \<Rightarrow>
                  if length stdout < 4
                  then Inr (RUN, ''SHORT OUTPUT ('' @ dec (length stdout) @ '' bytes, rc='' @ rc @ '') '' @ tail)
                  else Inr (grade stdout expect)))))"

section \<open>The program\<close>

definition jobs :: "h_world \<Rightarrow> int res" where
  "jobs w =
     (case h_jobs_env w of
        Some e \<Rightarrow> if e \<noteq> [] then res_bind (py_int 10 e) (\<lambda>n. Inr (max 1 n))
                  else Inr (max 1 (int ((case h_cpus w of Some n \<Rightarrow> (if n = 0 then 4 else n) | None \<Rightarrow> 4) div 2)))
      | None \<Rightarrow> Inr (max 1 (int ((case h_cpus w of Some n \<Rightarrow> (if n = 0 then 4 else n) | None \<Rightarrow> 4) div 2))))"

definition h_basename :: "string \<Rightarrow> string" where
  "h_basename p = rev (takeWhile (\<lambda>c. c \<noteq> CHR ''/'') (rev p))"

definition h_join :: "string \<Rightarrow> string \<Rightarrow> string" where
  "h_join d f = (if f \<noteq> [] \<and> hd f = CHR ''/'' then f
     else if d = [] \<or> last d = CHR ''/'' then d @ f else d @ ''/'' @ f)"

definition file_expected :: "h_world \<Rightarrow> string \<Rightarrow> int option res" where
  "file_expected w path = res_bind (h_read w path) expected_of"

text \<open>
  The positive control of an architecture: \<open>expected_of(rungs[0]) + 1\<close> raises \<open>TypeError\<close> when the first
  rung names no value.  The result is the exit status when the script refuses to run, and the line
  printed.
\<close>

definition control :: "h_world \<Rightarrow> string \<Rightarrow> string list \<Rightarrow> (nat option \<times> string) res" where
  "control w arch rungs =
     res_bind (py_nth rungs 0) (\<lambda>r0.
     res_bind (file_expected w r0) (\<lambda>e0.
     res_bind (case e0 of None \<Rightarrow> Inl TypeError | Some e \<Rightarrow> Inr (e + 1)) (\<lambda>e.
     res_bind (run_cell w arch r0 (Some e)) (\<lambda>(kind, why).
       Inr (if kind = PASS
            then (Some 2, arch @ '': POSITIVE CONTROL PASSED --- the ladder cannot fail; refusing to run'')
            else if kind \<noteq> WRONG
            then (Some 2, arch @ '': POSITIVE CONTROL DID NOT RUN ('' @ kind_text kind @ '': '' @ why
                    @ '') --- a control that cannot answer proves nothing; refusing to run'')
            else (None, arch @ '': positive control answered WRONG as required ('' @ why @ '')''))))))"

definition cell_line :: "string \<Rightarrow> string \<times> cell_kind \<times> string \<Rightarrow> string" where
  "cell_line arch c =
     (case c of (r, kind, why) \<Rightarrow>
        ''  '' @ ljust 24 (h_basename r) @ '' '' @ ljust 8 arch @ '' ''
        @ ljust 5 (if kind = WRONG then ''FAIL'' else kind_text kind) @ '' '' @ why)"

definition run_rungs :: "h_world \<Rightarrow> string \<Rightarrow> string list \<Rightarrow> (string \<times> cell_kind \<times> string) list res" where
  "run_rungs w arch rungs =
     res_map (\<lambda>r. res_bind (file_expected w r) (\<lambda>e.
                  res_bind (run_cell w arch r e) (\<lambda>(kind, why). Inr (r, kind, why)))) rungs"

text \<open>The loop over the architectures: the failures so far, then the status and the lines.\<close>

fun ladder_loop :: "h_world \<Rightarrow> string list \<Rightarrow> nat \<Rightarrow> string list \<Rightarrow> (nat \<times> string list) res" where
  "ladder_loop w rungs failures [] =
     Inr (if failures = 0 then 0 else 1, [[nl] @ ''hosted ladder: '' @ dec failures @ '' failed''])"
| "ladder_loop w rungs failures (arch # arches) =
     res_bind (control w arch rungs) (\<lambda>(refuse, line).
     case refuse of
       Some st \<Rightarrow> Inr (st, [line])
     | None \<Rightarrow>
         res_bind (jobs w) (\<lambda>n.
         res_bind (run_rungs w arch rungs) (\<lambda>results.
         res_bind (ladder_loop w rungs (failures + length (filter (\<lambda>(_, k, _). k \<noteq> PASS) results)) arches)
           (\<lambda>(st, ls). Inr (st, line # map (cell_line arch) results @ ls)))))"

definition main_arches :: "string list \<Rightarrow> string list" where
  "main_arches argv =
     (let args = filter (\<lambda>a. \<not> starts_with ''--'' a) (tl argv)
      in if ''--all'' \<in> set (tl argv) \<or> args = [] then keys H_ARCHES else [args ! 0])"

definition main_rungs :: "h_world \<Rightarrow> string list \<Rightarrow> string list" where
  "main_rungs w argv =
     (let args = filter (\<lambda>a. \<not> starts_with ''--'' a) (tl argv)
      in if 1 < length args
         then map (\<lambda>a. if h_exists w a then a else h_join (h_rungs w) a) (tl args)
         else sort (map (h_join (h_rungs w))
                (filter (\<lambda>f. last_n 5 f = ''.lisp'') (h_listdir w))))"

definition hosted_main :: "h_world \<Rightarrow> string list \<Rightarrow> (nat \<times> string list) res" where
  "hosted_main w argv = ladder_loop w (main_rungs w argv) 0 (main_arches argv)"

section \<open>Lemmas\<close>

lemma emit_bytes_value: "int (le_nat (emit_bytes v)) = v mod 2 ^ 32"
proof -
  have "emit_bytes v = [of_int (v mod 256), of_int (v div 256 mod 256), of_int (v div 65536 mod 256),
      of_int (v div 16777216 mod 256)]" by (simp add: emit_bytes_def write_shifts_def)
  moreover have "v mod 2 ^ 32 = v mod 4294967296" by simp
  ultimately show ?thesis by (simp only: bytes_of_int)
qed

lemma length_emit_bytes: "length (emit_bytes v) = 4"
  by (simp add: emit_bytes_def write_shifts_def)

text \<open>A cell passes: it builds, it runs, and its first four bytes are the value its file names.\<close>

definition cell_ok :: "h_world \<Rightarrow> string \<Rightarrow> string \<Rightarrow> bool" where
  "cell_ok w arch r \<longleftrightarrow>
     (\<exists>src e env qemu img out err stdout rc tail.
        h_read w r = Inr src \<and> expected_of src = Inr (Some e) \<and>
        map_of H_ARCHES arch = Some (env, qemu) \<and>
        h_build w env arch (h_payload src) = Inr (Some img, out, err) \<and>
        h_emulate w qemu img = Inr (Some (stdout, rc, tail)) \<and>
        4 \<le> length stdout \<and> int (le_nat (take 4 stdout)) = e)"

lemma grade_PASS:
  "grade stdout expect = (PASS, why) \<longleftrightarrow>
     expect = Some (int (le_nat (take 4 stdout))) \<and> why = snd (grade stdout expect)"
  by (cases "Some (int (le_nat (take 4 stdout))) = expect") (auto simp: grade_def Let_def)

lemma run_cell_PASS:
  "run_cell w arch r expect = Inr (PASS, why) \<longleftrightarrow>
     (\<exists>src env qemu img out err stdout rc tail.
        h_read w r = Inr src \<and> map_of H_ARCHES arch = Some (env, qemu) \<and>
        h_build w env arch (h_payload src) = Inr (Some img, out, err) \<and>
        h_emulate w qemu img = Inr (Some (stdout, rc, tail)) \<and>
        4 \<le> length stdout \<and> grade stdout expect = (PASS, why))"
  (is "?L = ?R")
proof
  assume L: ?L
  then obtain env qemu where eq: "map_of H_ARCHES arch = Some (env, qemu)"
    by (auto simp: run_cell_def split: option.splits)
  from L obtain src image out err where
    b: "h_read w r = Inr src" "h_build w env arch (h_payload src) = Inr (image, out, err)"
    by (auto simp: run_cell_def eq)
  from L obtain img where img: "image = Some img"
    by (cases image) (simp_all add: run_cell_def eq b)
  from L obtain ans where ans: "h_emulate w qemu img = Inr ans"
    by (auto simp: run_cell_def eq b img)
  from L obtain stdout rc tail where st: "ans = Some (stdout, rc, tail)"
    by (cases ans) (auto simp: run_cell_def eq b img ans)
  from L have "\<not> length stdout < 4" "grade stdout expect = (PASS, why)"
    by (simp_all add: run_cell_def eq b img ans st split: if_splits)
  then show ?R using eq b img ans st by simp
next
  assume ?R
  then show ?L by (auto simp: run_cell_def)
qed

lemma cell_ok_iff:
  "cell_ok w arch r \<longleftrightarrow>
     (\<exists>e why. file_expected w r = Inr (Some e) \<and> run_cell w arch r (Some e) = Inr (PASS, why))"
  unfolding cell_ok_def run_cell_PASS grade_PASS file_expected_def by auto

text \<open>A cell that passes cannot pass against another value: it answers WRONG.\<close>

lemma run_cell_other:
  assumes "run_cell w arch r (Some e) = Inr (PASS, why)" "e' \<noteq> Some e"
  shows "\<exists>why'. run_cell w arch r e' = Inr (WRONG, why')"
proof -
  from assms(1) obtain src env qemu img out err stdout rc tail where
    "h_read w r = Inr src" "map_of H_ARCHES arch = Some (env, qemu)"
    "h_build w env arch (h_payload src) = Inr (Some img, out, err)"
    "h_emulate w qemu img = Inr (Some (stdout, rc, tail))"
    "4 \<le> length stdout" "e = int (le_nat (take 4 stdout))"
    unfolding run_cell_PASS grade_PASS by auto
  then show ?thesis using assms(2) by (simp add: run_cell_def grade_def Let_def)
qed

lemma control_ok:
  assumes "cell_ok w arch (rungs ! 0)" "rungs \<noteq> []"
  shows "\<exists>line. control w arch rungs = Inr (None, line)"
proof -
  from assms(1) obtain e why where e: "file_expected w (rungs ! 0) = Inr (Some e)"
    "run_cell w arch (rungs ! 0) (Some e) = Inr (PASS, why)" unfolding cell_ok_iff by blast
  then obtain why' where "run_cell w arch (rungs ! 0) (Some (e + 1)) = Inr (WRONG, why')"
    using run_cell_other [OF e(2), of "Some (e + 1)"] by auto
  then show ?thesis using e(1) assms(2) by (simp add: control_def py_nth_def)
qed

lemma run_rungs_all:
  "run_rungs w arch rungs = Inr results \<Longrightarrow>
     filter (\<lambda>(_, k, _). k \<noteq> PASS) results = [] \<longleftrightarrow> (\<forall>r \<in> set rungs. cell_ok w arch r)"
proof (induction rungs arbitrary: results)
  case (Cons r rungs)
  from Cons.prems obtain e k why rest where
    r: "file_expected w r = Inr e" "run_cell w arch r e = Inr (k, why)"
    and rest: "run_rungs w arch rungs = Inr rest" "results = (r, k, why) # rest"
    by (auto simp: run_rungs_def)
  have "k = PASS \<longleftrightarrow> cell_ok w arch r"
  proof
    assume k: "k = PASS"
    then obtain n where "e = Some n" using r(2) unfolding k run_cell_PASS grade_PASS by blast
    then show "cell_ok w arch r" unfolding cell_ok_iff using r k by blast
  next
    assume "cell_ok w arch r"
    then show "k = PASS" unfolding cell_ok_iff using r by auto
  qed
  then show ?case using Cons.IH [OF rest(1)] rest(2) by simp
qed (simp add: run_rungs_def)

lemma ladder_loop_status:
  "ladder_loop w rungs f arches = Inr (st, ls) \<Longrightarrow>
     st \<le> 2 \<and> (st = 0 \<longleftrightarrow> f = 0 \<and> (\<forall>a \<in> set arches. (\<forall>r \<in> set rungs. cell_ok w a r) \<and> rungs \<noteq> []))"
proof (induction arches arbitrary: f st ls)
  case (Cons arch arches)
  from Cons.prems obtain refuse line where c: "control w arch rungs = Inr (refuse, line)" by auto
  have ne: "rungs \<noteq> []" using c by (auto simp: control_def py_nth_def split: if_splits)
  show ?case
  proof (cases refuse)
    case (Some n)
    then have n: "st = n" using Cons.prems by (simp add: c)
    have "n = 2" using c Some by (auto simp: control_def split: if_splits)
    moreover have "\<not> cell_ok w arch (rungs ! 0)" using control_ok [OF _ ne, of w arch] c Some by auto
    then have "\<not> (\<forall>r \<in> set rungs. cell_ok w arch r)" using ne by (metis length_greater_0_conv nth_mem)
    ultimately show ?thesis using n by simp
  next
    case None
    then obtain results st' ls' where
      r: "run_rungs w arch rungs = Inr results"
      and l: "ladder_loop w rungs (f + length (filter (\<lambda>(_, k, _). k \<noteq> PASS) results)) arches = Inr (st, ls')"
      using Cons.prems by (auto simp: c)
    show ?thesis using Cons.IH [OF l] run_rungs_all [OF r] ne by auto
  qed
qed (auto split: if_splits)

lemma emitted_grade:
  assumes "take 4 stdout = emit_bytes v"
  shows "fst (grade stdout expect) = PASS \<longleftrightarrow> expect = Some (v mod 2 ^ 32)"
  unfolding grade_def assms Let_def emit_bytes_value by auto

section \<open>Properties\<close>

text \<open>
  C25: The exit status is 0 exactly when there is a rung and every rung passes on every architecture
  asked for: it builds, it runs, and the first four bytes it prints are the value its header names.
  Otherwise the status is 1 or 2.  In particular the positive control never turns a ladder in which
  every cell passes into a refusal.
\<close>

theorem hosted_main_exit:
  assumes "hosted_main w argv = Inr (st, ls)"
  shows "st \<le> 2 \<and> (st = 0 \<longleftrightarrow>
    (\<forall>arch \<in> set (main_arches argv). main_rungs w argv \<noteq> [] \<and>
      (\<forall>r \<in> set (main_rungs w argv). cell_ok w arch r)))"
  using ladder_loop_status [of w "main_rungs w argv" 0 "main_arches argv" st ls] assms
  by (auto simp: hosted_main_def)

definition h_sample :: h_world where
  "h_sample =
     \<lparr>h_read = (\<lambda>_. Inr '';; expect 7''), h_exists = (\<lambda>_. True), h_rungs = ''rungs'', h_listdir = [''a.lisp''],
      h_build = (\<lambda>_ _ _. Inr (Some [], [], [])),
      h_emulate = (\<lambda>_ _. Inr (Some ([7, 0, 0, 0], ''0'', []))), h_jobs_env = Some ''2'', h_cpus = None\<rparr>"

lemma h_sample_expected: "expected_of '';; expect 7'' = Inr (Some 7)"
  by (simp add: expected_of_def expect_here_def is_digit_def text_eval)

lemma h_sample_main: "\<exists>ls. hosted_main h_sample [''hosted-ladder.py'', ''arm32'', ''a''] = Inr (0, ls)"
proof -
  have "py_int 10 ''2'' = Inr 2" by (simp add: text_eval)
  then show ?thesis
    by (simp add: hosted_main_def main_rungs_def main_arches_def h_sample_def starts_with_def control_def
        file_expected_def h_sample_expected run_cell_def H_ARCHES_def grade_def py_nth_def jobs_def
        run_rungs_def)
qed

lemma hosted_main_exit_witness: "cell_ok h_sample ''arm32'' ''a''"
proof -
  let ?argv = "[''hosted-ladder.py'', ''arm32'', ''a'']"
  have "''arm32'' \<in> set (main_arches ?argv)" "''a'' \<in> set (main_rungs h_sample ?argv)"
    by (simp_all add: main_arches_def main_rungs_def h_sample_def starts_with_def)
  then show ?thesis using h_sample_main hosted_main_exit [of h_sample ?argv 0] by blast
qed

text \<open>
  C40: The oracle reads what the payload writes: when the image prints the four bytes the generated
  program emits for the probe's value, the cell passes exactly when the value, modulo 2^32, is the
  expected one; a negative expected value, which the header may name, never passes.
\<close>

theorem hosted_oracle:
  "(fst (grade (emit_bytes v @ rest) expect) = PASS \<longleftrightarrow> expect = Some (v mod 2 ^ 32)) \<and>
   fst (grade stdout (Some (- 1 - int n))) = WRONG"
proof
  show "fst (grade (emit_bytes v @ rest) expect) = PASS \<longleftrightarrow> expect = Some (v mod 2 ^ 32)"
    by (rule emitted_grade) (simp add: length_emit_bytes)
  show "fst (grade stdout (Some (- 1 - int n))) = WRONG"
    by (auto simp: grade_def Let_def)
qed

end
