(* ===== verification/Serial.thy ===== *)
theory Serial
  imports PyText
begin

text \<open>
  The serial port the boot scripts drive.  What the other side sends is given as a list of windows: each
  read (a \<open>read\<close> with its timeout, or a \<open>pump\<close> over some seconds) returns the next one, and nothing
  once the list is used up.  What the script writes is kept as the list of its writes; the wire is
  their concatenation.  The locale states what the scripts rely on.
\<close>

section \<open>The port\<close>

record port =
  tx :: "bytes list"
  rx :: "bytes list"

definition wire :: "port \<Rightarrow> bytes" where
  "wire p = concat (tx p)"

definition put :: "bytes \<Rightarrow> port \<Rightarrow> port" where
  "put b p = p\<lparr>tx := tx p @ [b]\<rparr>"

definition get :: "port \<Rightarrow> bytes \<times> port" where
  "get p = (case rx p of [] \<Rightarrow> ([], p) | w # ws \<Rightarrow> (w, p\<lparr>rx := ws\<rparr>))"

text \<open>\<open>b'...' in buf\<close> for an ASCII text, and the bytes of an ASCII text.\<close>

definition ascii :: "string \<Rightarrow> bytes" where
  "ascii s = map (\<lambda>c. of_nat (of_char c)) s"

definition says :: "string \<Rightarrow> bytes \<Rightarrow> bool" where
  "says s b = contains (ascii s) b"

text \<open>
  \<open>buf.decode(errors='replace')\<close>: the characters of the model (up to U+00FF); every byte of anything
  else is a question mark.
\<close>

fun decode_text :: "bytes \<Rightarrow> string" where
  "decode_text [] = []"
| "decode_text (a # bs) =
     (if a < 0x80 then char_of (unat a) # decode_text bs
      else case bs of
             b # cs \<Rightarrow>
               if (a = 0xC2 \<or> a = 0xC3) \<and> 0x80 \<le> b \<and> b \<le> 0xBF
               then char_of ((unat a - 192) * 64 + (unat b - 128)) # decode_text cs
               else CHR ''?'' # decode_text bs
           | [] \<Rightarrow> [CHR ''?''])"

section \<open>What a port promises\<close>

locale transmitter =
  fixes sent :: "'p \<Rightarrow> bytes"
    and send :: "bytes \<Rightarrow> 'p \<Rightarrow> 'p"
    and recv :: "'p \<Rightarrow> bytes \<times> 'p"
  assumes sent_send: "sent (send b p) = sent p @ b"
    and sent_recv: "sent (snd (recv p)) = sent p"
begin

text \<open>Writing one byte at a time sends the same as writing at once.\<close>

lemma paced: "sent (fold (\<lambda>x. send [x]) b p) = sent p @ b"
  by (induction b arbitrary: p) (simp_all add: sent_send)

lemma sent_fold: "sent (fold send bs p) = sent p @ concat bs"
  by (induction bs arbitrary: p) (simp_all add: sent_send)

text \<open>\<open>ext P p q\<close>: going from \<open>p\<close> to \<open>q\<close> sends lines that all satisfy \<open>P\<close>, and nothing else.\<close>

definition ext :: "(bytes \<Rightarrow> bool) \<Rightarrow> 'p \<Rightarrow> 'p \<Rightarrow> bool" where
  "ext P p q \<longleftrightarrow> (\<exists>ls. sent q = sent p @ concat ls \<and> list_all P ls)"

lemma ext_refl: "ext P p p"
  unfolding ext_def by (intro exI [of _ "[]"]) simp

lemma ext_trans: "ext P p q \<Longrightarrow> ext P q r \<Longrightarrow> ext P p r"
proof -
  assume "ext P p q" "ext P q r"
  then obtain ls ms where "sent q = sent p @ concat ls" "list_all P ls"
    "sent r = sent q @ concat ms" "list_all P ms" unfolding ext_def by blast
  then show ?thesis unfolding ext_def by (intro exI [of _ "ls @ ms"]) simp
qed

lemma ext_send: "ext P p q \<Longrightarrow> P b \<Longrightarrow> ext P p (send b q)"
proof -
  assume "ext P p q" "P b"
  then obtain ls where "sent q = sent p @ concat ls" "list_all P ls" unfolding ext_def by blast
  then show ?thesis using \<open>P b\<close> unfolding ext_def by (intro exI [of _ "ls @ [b]"]) (simp add: sent_send)
qed

lemma ext_recv: "ext P p q \<Longrightarrow> ext P p (snd (recv q))"
  unfolding ext_def by (simp add: sent_recv)

lemma ext_paced: "ext P p q \<Longrightarrow> P b \<Longrightarrow> ext P p (fold (\<lambda>x. send [x]) b q)"
  using ext_send [of P p q b] unfolding ext_def by (simp add: paced sent_send)

lemma ext_mono: "ext P p q \<Longrightarrow> (\<And>b. P b \<Longrightarrow> Q b) \<Longrightarrow> ext Q p q"
  unfolding ext_def by (meson list.pred_mono_strong)

end

lemma wire_put [simp]: "wire (put b p) = wire p @ b"
  by (simp add: wire_def put_def)

lemma wire_get [simp]: "wire (snd (get p)) = wire p"
  by (simp add: wire_def get_def split: list.splits)

interpretation uart: transmitter wire put get
  by unfold_locales simp_all

end
