(* ===== verification/DeployKernel.thy ===== *)
theory DeployKernel
  imports Serial
begin

text \<open>
  \<open>devices/pi-zero-2-w/deploy-kernel.py\<close>: the upload of a kernel image to the UART bootloader.
  \<open>wait_rdy\<close> is the ten-second wait for \<open>RDY\<close>, \<open>send_chunks\<close> the loop over 256-byte slices, \<open>deploy\<close>
  the function of that name over a port whose windows are the reads after the reset, and
  \<open>deploy_main\<close> the program.  Printing (banner, progress) and the GPIO reset are left out.
  \<open>uart_receive\<close> is the specification: what a receiver that follows the protocol takes from the wire.
\<close>

section \<open>The script\<close>

definition MAGIC_BYTE :: byte where "MAGIC_BYTE = 0x55"
definition ACK :: byte where "ACK = 0xAA"

text \<open>The loop of at most \<open>n\<close> reads before the deadline.\<close>

fun wait_rdy :: "nat \<Rightarrow> bytes \<Rightarrow> port \<Rightarrow> bytes \<times> port" where
  "wait_rdy 0 boot p = (boot, p)"
| "wait_rdy (Suc n) boot p =
     (let (chunk, p) = get p
      in if chunk \<noteq> [] then
           (if says ''RDY'' (boot @ chunk) then (boot @ chunk, p) else wait_rdy n (boot @ chunk) p)
         else wait_rdy n boot p)"

function send_chunks :: "bytes \<Rightarrow> nat \<Rightarrow> port \<Rightarrow> port" where
  "send_chunks data sent p =
     (if sent < length data
      then let stop = min (sent + 256) (length data)
           in send_chunks data stop (put (py_slice data sent stop) p)
      else p)"
  by pat_completeness auto
termination
  by (relation "measure (\<lambda>(data, sent, _). length data - sent)") auto

declare send_chunks.simps [simp del]

definition checksum :: "bytes \<Rightarrow> byte" where
  "checksum data = of_nat (sum_list (map unat data) mod 256)"

text \<open>
  The outcome: the exit status and the response that is printed, if the function gets that far.
  \<open>n\<close> is the number of reads before the deadline of the wait.
\<close>

definition deploy :: "nat \<Rightarrow> bytes \<Rightarrow> port \<Rightarrow> (nat \<times> bytes option) res \<times> port" where
  "deploy n data p =
     (let (boot, p) = wait_rdy n [] p
      in if \<not> says ''RDY'' boot then (Inl (SystemExit 1), p)
         else let p = put [MAGIC_BYTE] p; (ack, p) = get p
         in if ack = [] \<or> hd ack \<noteq> ACK then (Inl (SystemExit 1), p)
         else if 256 ^ 4 \<le> length data then (Inl OverflowError, p)
         else let p = put (le_bytes 4 (length data)) p;
                  p = send_chunks data 0 p;
                  p = put [checksum data] p;
                  (resp, p) = get p
         in (Inr (0, if resp = [] then None else Some resp), p))"

definition deploy_main :: "nat \<Rightarrow> string list \<Rightarrow> (string \<Rightarrow> bytes res) \<Rightarrow> port \<Rightarrow> (nat \<times> bytes option) res \<times> port" where
  "deploy_main n argv open_file p =
     (if length argv \<noteq> 2 then (Inl (SystemExit 1), p)
      else case open_file (argv ! 1) of
             Inl e \<Rightarrow> (Inl e, p)
           | Inr data \<Rightarrow> deploy n data p)"

section \<open>The protocol\<close>

text \<open>Magic, size in four bytes little-endian, data, sum of the data modulo 256.\<close>

definition uart_receive :: "bytes \<Rightarrow> bytes option" where
  "uart_receive s =
     (if 6 \<le> length s \<and> s ! 0 = 0x55 then
        let size = le_nat (py_slice s 1 5); data = py_slice s 5 (5 + size)
        in if length s = size + 6 \<and> unat (s ! (5 + size)) = sum_list (map unat data) mod 256
           then Some data else None
      else None)"

section \<open>Lemmas\<close>

lemma wire_send_chunks: "sent \<le> length data \<Longrightarrow> wire (send_chunks data sent p) = wire p @ drop sent data"
proof (induction data sent p rule: send_chunks.induct)
  case (1 data sent p)
  show ?case
  proof (cases "sent < length data")
    case True
    define stop where "stop = min (sent + 256) (length data)"
    have "drop stop data = drop (stop - sent) (drop sent data)" using True by (simp add: stop_def)
    then have "py_slice data sent stop @ drop stop data = drop sent data"
      unfolding py_slice_def by (simp only: append_take_drop_id)
    moreover have "wire (send_chunks data stop (put (py_slice data sent stop) p))
        = wire (put (py_slice data sent stop) p) @ drop stop data"
      using "1.IH" [OF True refl] by (simp add: stop_def)
    ultimately show ?thesis using True
      by (subst send_chunks.simps) (simp add: Let_def stop_def [symmetric])
  next
    case False
    then show ?thesis using "1.prems" by (subst send_chunks.simps) simp
  qed
qed

lemma wire_wait_rdy: "wire (snd (wait_rdy n boot p)) = wire p"
proof (induction n arbitrary: boot p)
  case (Suc n)
  obtain chunk q where g: "get p = (chunk, q)" by (cases "get p")
  have "wire q = wire p" using wire_get [of p] by (simp add: g)
  then show ?case using Suc by (simp add: g)
qed simp

lemma uart_receive_stream:
  "length data < 256 ^ 4 \<Longrightarrow>
     uart_receive ([0x55] @ le_bytes 4 (length data) @ data @ [checksum data]) = Some data"
proof -
  assume n: "length data < 256 ^ 4"
  let ?s = "[0x55] @ le_bytes 4 (length data) @ data @ [checksum data]"
  have l: "length ?s = length data + 6" by simp
  have "py_slice ?s 1 5 = le_bytes 4 (length data)" by (simp add: py_slice_def)
  then have size: "le_nat (py_slice ?s 1 5) = length data" using n by simp
  have data: "py_slice ?s 5 (5 + length data) = data" by (simp add: py_slice_def)
  have "?s ! (5 + length data) = checksum data"
    by (simp add: nth_append nth_Cons')
  then have "unat (?s ! (5 + length data)) = sum_list (map unat data) mod 256"
    by (simp add: checksum_def)
  then show ?thesis unfolding uart_receive_def size data Let_def l by simp
qed

section \<open>Properties\<close>

text \<open>
  C13: What goes over the wire.  When \<open>deploy\<close> returns, it has sent one stream that a receiver
  following the protocol decodes to exactly the image, whose size fits the size field; when it aborts
  or raises, it has sent nothing or the magic byte alone, so no partial image.
\<close>

theorem deploy_wire:
  "case deploy n data p of
     (Inr (st, resp), q) \<Rightarrow> st = 0 \<and> length data < 2 ^ 32 \<and>
       (\<exists>s. wire q = wire p @ s \<and> uart_receive s = Some data)
   | (Inl e, q) \<Rightarrow> wire q = wire p \<or> wire q = wire p @ [0x55]"
proof -
  obtain boot p1 where w: "wait_rdy n [] p = (boot, p1)" by (cases "wait_rdy n [] p")
  then have p1: "wire p1 = wire p" using wire_wait_rdy [of n "[]" p] by simp
  obtain ack p2 where g: "get (put [MAGIC_BYTE] p1) = (ack, p2)" by (cases "get (put [MAGIC_BYTE] p1)")
  then have p2: "wire p2 = wire p @ [0x55]"
    using wire_get [of "put [MAGIC_BYTE] p1"] p1 by (simp add: MAGIC_BYTE_def)
  let ?p3 = "put [checksum data] (send_chunks data 0 (put (le_bytes 4 (length data)) p2))"
  obtain resp p4 where r: "get ?p3 = (resp, p4)" by (cases "get ?p3")
  have p4: "wire p4 = wire p @ ([0x55] @ le_bytes 4 (length data) @ data @ [checksum data])"
    using wire_get [of ?p3] r by (simp add: wire_send_chunks p2)
  show ?thesis
  proof (cases "says ''RDY'' boot \<and> ack \<noteq> [] \<and> hd ack = ACK \<and> length data < 256 ^ 4")
    case True
    then have "deploy n data p = (Inr (0, if resp = [] then None else Some resp), p4)"
      by (simp add: deploy_def w g r Let_def)
    moreover have "uart_receive ([0x55] @ le_bytes 4 (length data) @ data @ [checksum data]) = Some data"
      using True uart_receive_stream by blast
    ultimately show ?thesis using True p4 by (auto intro!: exI)
  next
    case False
    then show ?thesis using p1 p2 by (auto simp: deploy_def w g Let_def)
  qed
qed

text \<open>
  The response to the checksum does not matter: with none at all, and with the complaint of a receiver,
  the function returns the same.
\<close>

lemma deploy_response_ignored:
  "fst (deploy 1 [] \<lparr>tx = [], rx = [ascii ''RDY'', [ACK]]\<rparr>) = Inr (0, None)"
  "fst (deploy 1 [] \<lparr>tx = [], rx = [ascii ''RDY'', [ACK], ascii ''BAD'']\<rparr>) = Inr (0, Some (ascii ''BAD''))"
  by (simp_all add: deploy_def get_def put_def says_def ascii_def starts_with_def send_chunks.simps)

end
