(* ===== verification/NetbootGz.thy ===== *)
theory NetbootGz
  imports Serial
begin

text \<open>
  \<open>scripts/netboot-core-gz.py\<close>: driving U-Boot over the serial port with retries.  \<open>paced\<close> is the
  script's replacement of \<open>write\<close>, \<open>say\<close> a command line; \<open>gz_bind\<close>, \<open>gz_tftp\<close> and \<open>gz_core\<close> are its three
  retry loops, \<open>gz_run\<close> the whole script with its exit status.  The windows of the port are the reads
  and pumps in the order the script makes them.  Echoing to standard output is left out.
\<close>

section \<open>Commands\<close>

abbreviation cr :: char where "cr \<equiv> CHR 0x0D"

definition paced :: "bytes \<Rightarrow> port \<Rightarrow> port" where
  "paced b p = fold (\<lambda>x. put [x]) b p"

definition line :: "string \<Rightarrow> bytes" where
  "line s = encode (s @ [cr])"

definition say :: "string \<Rightarrow> port \<Rightarrow> bytes \<times> port" where
  "say s p = get (paced (line s) p)"

record gz_args =
  g_img :: string
  g_core :: "string option"
  g_addr :: string
  g_send :: "string list"
  g_tries :: int
  g_pre_go :: "string list"
  g_unzip :: string
  g_boot :: "string option"

definition gz_defaults :: "string \<Rightarrow> gz_args" where
  "gz_defaults img =
     \<lparr>g_img = img, g_core = None, g_addr = ''0x300000'', g_send = [], g_tries = 5, g_pre_go = [],
      g_unzip = ''0x300000'', g_boot = None\<rparr>"

text \<open>\<open>a or b\<close> on an optional string: the empty string counts as absent.\<close>

definition given :: "string option \<Rightarrow> string option" where
  "given x = (case x of Some s \<Rightarrow> if s = [] then None else Some s | None \<Rightarrow> None)"

section \<open>The retry loops\<close>

fun knock :: "nat \<Rightarrow> port \<Rightarrow> port" where
  "knock 0 p = p"
| "knock (Suc n) p = knock n (snd (get (paced [0x0D] p)))"

fun gz_bind :: "nat \<Rightarrow> port \<Rightarrow> port" where
  "gz_bind 0 p = p"
| "gz_bind (Suc n) p =
     (let (b, p) = say ''ping 10.0.0.1'' p
      in if says ''is alive'' b then p else gz_bind n (snd (say ''usb reset'' p)))"

definition usb_cycle :: "port \<Rightarrow> port" where
  "usb_cycle p = snd (say ''usb start'' (snd (say ''usb stop'' p)))"

text \<open>\<open>n\<close> tries are left, and this is try \<open>t\<close>.\<close>

fun gz_tftp :: "nat \<Rightarrow> nat \<Rightarrow> string \<Rightarrow> port \<Rightarrow> bool \<times> port" where
  "gz_tftp 0 t img p = (False, p)"
| "gz_tftp (Suc n) t img p =
     (let p = (if t = 0 then snd (say ''setenv tftpblocksize 512'' p) else p);
          (b, p) = say (''tftpboot 0x08000000 '' @ img) p
      in if says ''Bytes transferred'' b then (True, p)
         else let p = snd (get (paced [0x03] p));
                  p = snd (get (paced [0x03, 0x0D] p));
                  p = snd (say ''ping 10.0.0.1'' (usb_cycle p))
              in gz_tftp n (t + 1) img p)"

text \<open>The wait for the core's transfer: at most \<open>k\<close> five-second pumps before the deadline.\<close>

fun gz_core_wait :: "nat \<Rightarrow> bytes \<Rightarrow> port \<Rightarrow> bytes \<times> port" where
  "gz_core_wait 0 b p = (b, p)"
| "gz_core_wait (Suc k) b p =
     (if says ''Bytes transferred'' b \<or> says ''Retry count exceeded'' b then (b, p)
      else let (w, p) = get p in gz_core_wait k (b @ w) p)"

fun gz_core :: "nat \<Rightarrow> nat \<Rightarrow> string \<Rightarrow> port \<Rightarrow> bool \<times> port" where
  "gz_core 0 k core p = (False, p)"
| "gz_core (Suc n) k core p =
     (let (b, p) = gz_core_wait k [] (paced (line (''tftpboot 0x18000000 '' @ core)) p)
      in if says ''Bytes transferred'' b then (True, p)
         else gz_core n k core (usb_cycle (snd (get (paced [0x03, 0x0D] p)))))"

section \<open>The script\<close>

definition boot_command :: "gz_args \<Rightarrow> string" where
  "boot_command a = (case given (g_boot a) of Some c \<Rightarrow> c | None \<Rightarrow> ''go '' @ g_addr a)"

definition gz_setup :: "nat \<Rightarrow> port \<Rightarrow> port" where
  "gz_setup knocks p =
     (let p = knock knocks p;
          p = snd (say ''setenv ipaddr 10.0.0.2'' p);
          p = snd (say ''setenv serverip 10.0.0.1'' p);
          p = snd (say ''usb start'' p)
      in gz_bind 6 p)"

definition gz_load_core :: "gz_args \<Rightarrow> nat \<Rightarrow> port \<Rightarrow> port" where
  "gz_load_core a k p =
     (case given (g_core a) of
        Some core \<Rightarrow> snd (gz_core 4 k core p)
      | None \<Rightarrow> snd (say ''mw.q 0x18000000 0'' p))"

definition gz_finish :: "gz_args \<Rightarrow> port \<Rightarrow> port" where
  "gz_finish a p =
     (let p = fold (\<lambda>c p. snd (say c p)) (g_pre_go a) p;
          p = snd (get (snd (say (boot_command a) p)));
          p = fold (\<lambda>l p. snd (get (paced (encode (l @ [cr, nl])) p))) (g_send a) p
      in snd (get p))"

definition gz_run :: "gz_args \<Rightarrow> nat \<Rightarrow> nat \<Rightarrow> port \<Rightarrow> nat \<times> port" where
  "gz_run a knocks k p =
     (let (ok, p) = gz_tftp (nat (g_tries a)) 0 (g_img a) (gz_setup knocks p)
      in if \<not> ok then (2, p)
         else let (b, p) = say (''unzip 0x08000000 '' @ g_unzip a) p
         in if \<not> says ''Uncompressed size'' b then (3, p)
         else (0, gz_finish a (gz_load_core a k p)))"

section \<open>Lemmas\<close>

lemma wire_paced [simp]: "wire (paced b p) = wire p @ b"
  unfolding paced_def by (rule uart.paced)

lemma rx_paced [simp]: "rx (paced b p) = rx p"
proof -
  have "rx (fold (\<lambda>x. put [x]) b p) = rx p"
    by (induction b arbitrary: p) (simp_all add: put_def)
  then show ?thesis by (simp add: paced_def)
qed

lemma wire_say [simp]: "wire (snd (say s p)) = wire p @ line s"
  by (simp add: say_def)

text \<open>The lines the script sends before it has the kernel in memory.\<close>

definition setup_lines :: "gz_args \<Rightarrow> bytes set" where
  "setup_lines a = {[0x0D], [0x03], [0x03, 0x0D]} \<union>
     line ` {''setenv ipaddr 10.0.0.2'', ''setenv serverip 10.0.0.1'', ''usb start'', ''usb stop'',
             ''usb reset'', ''ping 10.0.0.1'', ''setenv tftpblocksize 512'',
             ''tftpboot 0x08000000 '' @ g_img a, ''unzip 0x08000000 '' @ g_unzip a}"

lemma setup_lines_mem:
  "[0x0D] \<in> setup_lines a" "[0x03] \<in> setup_lines a" "[0x03, 0x0D] \<in> setup_lines a"
  "line ''setenv ipaddr 10.0.0.2'' \<in> setup_lines a" "line ''setenv serverip 10.0.0.1'' \<in> setup_lines a"
  "line ''usb start'' \<in> setup_lines a" "line ''usb stop'' \<in> setup_lines a"
  "line ''usb reset'' \<in> setup_lines a" "line ''ping 10.0.0.1'' \<in> setup_lines a"
  "line ''setenv tftpblocksize 512'' \<in> setup_lines a"
  "line (''tftpboot 0x08000000 '' @ g_img a) \<in> setup_lines a"
  "line (''unzip 0x08000000 '' @ g_unzip a) \<in> setup_lines a"
  by (simp_all add: setup_lines_def)

definition only :: "gz_args \<Rightarrow> port \<Rightarrow> port \<Rightarrow> bool" where
  "only a p q \<longleftrightarrow> uart.ext (\<lambda>b. b \<in> setup_lines a) p q"

lemma only_refl: "only a p p"
  unfolding only_def by (rule uart.ext_refl)

lemma only_paced_get:
  "only a p q \<Longrightarrow> b \<in> setup_lines a \<Longrightarrow> only a p (snd (get (paced b q)))"
  unfolding paced_def only_def by (intro uart.ext_recv uart.ext_paced)

lemma only_say: "only a p q \<Longrightarrow> line s \<in> setup_lines a \<Longrightarrow> only a p (snd (say s q))"
  unfolding say_def by (rule only_paced_get)

lemma only_usb_cycle: "only a p q \<Longrightarrow> only a p (usb_cycle q)"
  unfolding usb_cycle_def by (intro only_say setup_lines_mem)

lemma only_knock: "only a p q \<Longrightarrow> only a p (knock n q)"
proof (induction n arbitrary: q)
  case (Suc n)
  have "only a p (snd (get (paced [0x0D] q)))" by (intro only_paced_get Suc.prems setup_lines_mem)
  then show ?case unfolding knock.simps by (rule Suc.IH)
qed simp

lemma only_bind: "only a p q \<Longrightarrow> only a p (gz_bind n q)"
proof (induction n arbitrary: q)
  case (Suc n)
  have "only a p (snd (say ''ping 10.0.0.1'' q))"
    by (intro only_say Suc.prems setup_lines_mem)
  moreover have "only a p (gz_bind n (snd (say ''usb reset'' (snd (say ''ping 10.0.0.1'' q)))))"
    by (intro Suc.IH only_say Suc.prems setup_lines_mem)
  ultimately show ?case unfolding gz_bind.simps Let_def case_prod_beta by simp
qed simp

lemma only_tftp: "only a p q \<Longrightarrow> only a p (snd (gz_tftp n t (g_img a) q))"
proof (induction n arbitrary: q t)
  case (Suc n)
  define q1 where "q1 = (if t = 0 then snd (say ''setenv tftpblocksize 512'' q) else q)"
  define r where "r = say (''tftpboot 0x08000000 '' @ g_img a) q1"
  have "only a p (snd (say ''setenv tftpblocksize 512'' q))"
    by (intro only_say Suc.prems setup_lines_mem)
  with Suc.prems have q1: "only a p q1" by (simp add: q1_def)
  have q2: "only a p (snd r)" unfolding r_def by (intro only_say q1 setup_lines_mem)
  have "only a p (snd (say ''ping 10.0.0.1'' (usb_cycle (snd (get (paced [0x03, 0x0D] (snd (get (paced [0x03] (snd r))))))))))"
    by (intro only_say only_usb_cycle only_paced_get q2 setup_lines_mem)
  from Suc.IH [OF this, of "t + 1"] q2 show ?case
    unfolding gz_tftp.simps Let_def case_prod_beta q1_def [symmetric] r_def [symmetric] by simp
qed simp

lemma only_setup: "only a p (gz_setup knocks p)"
  unfolding gz_setup_def Let_def
  by (intro only_bind only_say only_knock only_refl setup_lines_mem)

text \<open>A transfer counts as done only when a window of the port said so.\<close>

definition later :: "port \<Rightarrow> port \<Rightarrow> bool" where
  "later p q \<longleftrightarrow> (\<exists>used. rx p = used @ rx q)"

definition heard :: "string \<Rightarrow> port \<Rightarrow> port \<Rightarrow> bool" where
  "heard s p q \<longleftrightarrow> (\<exists>used w. rx p = used @ w # rx q \<and> says s w)"

lemma later_refl: "later p p"
  by (simp add: later_def)

lemma later_trans: "later p q \<Longrightarrow> later q r \<Longrightarrow> later p r"
  unfolding later_def by (metis append.assoc)

lemma later_get: "later p (snd (get p))"
  by (auto simp: later_def get_def split: list.splits)

lemma later_paced: "later p q \<Longrightarrow> later p (paced b q)"
  by (simp add: later_def)

lemma later_say: "later p q \<Longrightarrow> later p (snd (say s q))"
  unfolding say_def by (rule later_trans [OF later_paced later_get])

lemma later_paced_get: "later p q \<Longrightarrow> later p (snd (get (paced b q)))"
  by (rule later_trans [OF later_paced later_get])

lemma says_nonempty: "s \<noteq> [] \<Longrightarrow> \<not> says s []"
  by (simp add: says_def ascii_def)

lemma heard_say:
  assumes "s \<noteq> []" "says s (fst (say c q))" "later p q"
  shows "heard s p (snd (say c q))"
proof -
  obtain used where u: "rx p = used @ rx q" using assms(3) by (auto simp: later_def)
  show ?thesis
  proof (cases "rx q")
    case Nil
    then show ?thesis using assms(1,2) says_nonempty by (simp add: say_def get_def)
  next
    case (Cons w ws)
    then show ?thesis using assms(2) u unfolding heard_def
      by (intro exI [of _ used] exI [of _ w]) (simp add: say_def get_def)
  qed
qed

lemma heard_tftp:
  "fst (gz_tftp n t img q) \<Longrightarrow> later p q \<Longrightarrow> heard ''Bytes transferred'' p (snd (gz_tftp n t img q))"
proof (induction n arbitrary: q t)
  case (Suc n)
  define q1 where "q1 = (if t = 0 then snd (say ''setenv tftpblocksize 512'' q) else q)"
  define r where "r = say (''tftpboot 0x08000000 '' @ img) q1"
  define q3 where
    "q3 = snd (say ''ping 10.0.0.1'' (usb_cycle (snd (get (paced [0x03, 0x0D] (snd (get (paced [0x03] (snd r)))))))))"
  have l1: "later p q1" using Suc.prems(2) by (simp add: q1_def later_say)
  then have "later p (snd r)" unfolding r_def by (rule later_say)
  then have l3: "later p q3" unfolding q3_def usb_cycle_def by (intro later_say later_paced_get)
  have step: "gz_tftp (Suc n) t img q =
      (if says ''Bytes transferred'' (fst r) then (True, snd r) else gz_tftp n (t + 1) img q3)"
    unfolding gz_tftp.simps Let_def case_prod_beta q1_def [symmetric] r_def [symmetric] q3_def [symmetric] ..
  show ?case
  proof (cases "says ''Bytes transferred'' (fst r)")
    case True
    then have "heard ''Bytes transferred'' p (snd r)"
      unfolding r_def by (intro heard_say l1) simp_all
    then show ?thesis using True unfolding step by simp
  next
    case False
    then show ?thesis using Suc.IH [OF _ l3, of "t + 1"] Suc.prems(1) unfolding step by simp
  qed
qed simp

section \<open>After the kernel is loaded\<close>

definition grows :: "port \<Rightarrow> port \<Rightarrow> bool" where
  "grows p q \<longleftrightarrow> (\<exists>x. wire q = wire p @ x)"

lemma grows_refl: "grows p p"
  by (simp add: grows_def)

lemma grows_get: "grows p q \<Longrightarrow> grows p (snd (get q))"
  by (simp add: grows_def)

lemma grows_paced: "grows p q \<Longrightarrow> grows p (paced b q)"
  by (auto simp: grows_def)

lemma grows_say: "grows p q \<Longrightarrow> grows p (snd (say s q))"
  unfolding say_def by (intro grows_get grows_paced)

lemma grows_fold:
  "(\<And>x q. grows p q \<Longrightarrow> grows p (f x q)) \<Longrightarrow> grows p q \<Longrightarrow> grows p (fold f xs q)"
  by (induction xs arbitrary: q) simp_all

lemma grows_core_wait: "grows p q \<Longrightarrow> grows p (snd (gz_core_wait k b q))"
proof (induction k arbitrary: b q)
  case (Suc k)
  obtain w r where g: "get q = (w, r)" by (cases "get q")
  have "grows p r" using grows_get [OF Suc.prems] by (simp add: g)
  then show ?case using Suc by (simp add: g)
qed simp

lemma grows_core: "grows p q \<Longrightarrow> grows p (snd (gz_core n k core q))"
proof (induction n arbitrary: q)
  case (Suc n)
  obtain b r where w: "gz_core_wait k [] (paced (line (''tftpboot 0x18000000 '' @ core)) q) = (b, r)"
    by (cases "gz_core_wait k [] (paced (line (''tftpboot 0x18000000 '' @ core)) q)")
  have r: "grows p r"
    using grows_core_wait [OF grows_paced [OF Suc.prems]] w by (metis snd_conv)
  then have "grows p (usb_cycle (snd (get (paced [0x03, 0x0D] r))))"
    unfolding usb_cycle_def by (intro grows_say grows_get grows_paced)
  from Suc.IH [OF this] r show ?case unfolding gz_core.simps Let_def w by simp
qed simp

lemma grows_load_core: "grows p (gz_load_core a k p)"
  by (auto simp: gz_load_core_def intro: grows_core grows_refl grows_say split: option.splits)

lemma finish_boots: "\<exists>pre post. wire (gz_finish a p) = wire p @ pre @ line (boot_command a) @ post"
proof -
  define q where "q = fold (\<lambda>c p. snd (say c p)) (g_pre_go a) p"
  define r where "r = snd (say (boot_command a) q)"
  define s where "s = fold (\<lambda>l p. snd (get (paced (encode (l @ [cr, nl])) p))) (g_send a) (snd (get r))"
  have "grows p q" unfolding q_def by (intro grows_fold grows_say grows_refl)
  then obtain pre where q: "wire q = wire p @ pre" by (auto simp: grows_def)
  have "grows r s" unfolding s_def by (intro grows_fold grows_get grows_paced grows_refl)
  then obtain post where "wire s = wire r @ post" by (auto simp: grows_def)
  moreover have "wire r = wire p @ pre @ line (boot_command a)" by (simp add: r_def q)
  moreover have "gz_finish a p = snd (get s)"
    by (simp add: gz_finish_def Let_def q_def r_def s_def)
  ultimately show ?thesis by auto
qed

text \<open>The retries: a try that fails takes six windows, the first of which has no success message.\<close>

definition failed_try :: "bytes list \<Rightarrow> bool" where
  "failed_try f \<longleftrightarrow> length f = 6 \<and> \<not> says ''Bytes transferred'' (hd f)"

lemma rx_say: "rx p = w # ws \<Longrightarrow> say s p = (w, snd (say s p)) \<and> rx (snd (say s p)) = ws"
  by (simp add: say_def get_def)

lemma rx_get: "rx p = w # ws \<Longrightarrow> rx (snd (get (paced b p))) = ws"
  by (simp add: get_def)

lemma rx_usb_cycle: "rx p = a # b # ws \<Longrightarrow> rx (usb_cycle p) = ws"
  unfolding usb_cycle_def by (intro rx_say [THEN conjunct2])

lemma tftp_retries:
  "rx p = (if t = 0 then [x] else []) @ concat fails @ good # rest \<Longrightarrow> list_all failed_try fails \<Longrightarrow>
     says ''Bytes transferred'' good \<Longrightarrow> length fails < n \<Longrightarrow>
     fst (gz_tftp n t img p) \<and> rx (snd (gz_tftp n t img p)) = rest"
proof (induction n arbitrary: t fails p)
  case (Suc n)
  define q where "q = (if t = 0 then snd (say ''setenv tftpblocksize 512'' p) else p)"
  have q: "rx q = concat fails @ good # rest"
    using Suc.prems(1) rx_say [of p x] by (simp add: q_def)
  define r where "r = say (''tftpboot 0x08000000 '' @ img) q"
  define q3 where
    "q3 = snd (say ''ping 10.0.0.1'' (usb_cycle (snd (get (paced [0x03, 0x0D] (snd (get (paced [0x03] (snd r)))))))))"
  have step: "gz_tftp (Suc n) t img p =
      (if says ''Bytes transferred'' (fst r) then (True, snd r) else gz_tftp n (t + 1) img q3)"
    unfolding gz_tftp.simps Let_def case_prod_beta q_def [symmetric] r_def [symmetric] q3_def [symmetric] ..
  show ?case
  proof (cases fails)
    case Nil
    then have "fst r = good \<and> rx (snd r) = rest" using rx_say [of q good rest] q unfolding r_def
      by (metis append_Nil concat.simps(1) fst_conv)
    then show ?thesis using Suc.prems(3) unfolding step by simp
  next
    case (Cons f fs)
    then have "length f = 6" "\<not> says ''Bytes transferred'' (hd f)" using Suc.prems(2) by (auto simp: failed_try_def)
    then obtain a b c d e g where f: "f = [a, b, c, d, e, g]" "\<not> says ''Bytes transferred'' a"
      by (auto simp: length_Suc_conv numeral_eq_Suc)
    have "rx q = a # b # c # d # e # g # concat fs @ good # rest" using q f Cons by simp
    note s = rx_say [OF this, of "''tftpboot 0x08000000 '' @ img", folded r_def]
    have r: "fst r = a" "rx (snd r) = b # c # d # e # g # concat fs @ good # rest"
      using arg_cong [OF s [THEN conjunct1], of fst] s [THEN conjunct2] by simp_all
    have "rx q3 = concat fs @ good # rest"
      unfolding q3_def by (rule rx_say [THEN conjunct2], rule rx_usb_cycle, rule rx_get [OF rx_get [OF r(2)]])
    then have "fst (gz_tftp n (t + 1) img q3) \<and> rx (snd (gz_tftp n (t + 1) img q3)) = rest"
      using Suc.prems(2-4) Cons by (intro Suc.IH [of _ _ fs]) auto
    then show ?thesis using r(1) f(2) unfolding step by simp
  qed
qed simp

lemma gz_run_status:
  assumes "rx (gz_setup knocks p) = x # concat fails @ good # answer # rest"
    and "list_all failed_try fails" "says ''Bytes transferred'' good" "int (length fails) < g_tries a"
  shows "fst (gz_run a knocks k p) = (if says ''Uncompressed size'' answer then 0 else 3)"
proof -
  define t where "t = gz_tftp (nat (g_tries a)) 0 (g_img a) (gz_setup knocks p)"
  have "fst t \<and> rx (snd t) = answer # rest"
    unfolding t_def by (rule tftp_retries [where x = x and fails = fails and good = good]) (use assms in auto)
  then show ?thesis
    unfolding gz_run_def Let_def case_prod_beta t_def [symmetric]
    using rx_say [of "snd t" answer rest "''unzip 0x08000000 '' @ g_unzip a"] by (auto dest: arg_cong [of _ _ fst])
qed

section \<open>Properties\<close>

text \<open>
  C28: The boot command is sent only for a kernel that was transferred and unpacked.  The exit status
  is 0, 2 or 3.  When it is not 0, only setup lines went over the wire.  When it is 0, some window
  reported \<open>Bytes transferred\<close>, a later one \<open>Uncompressed size\<close>, up to then only setup lines had been
  sent, and the boot command was sent after that.
\<close>

theorem gz_run_boots_loaded:
  "case gz_run a knocks k p of (st, q) \<Rightarrow>
     (st = 0 \<or> st = 2 \<or> st = 3) \<and>
     (st \<noteq> 0 \<longrightarrow> only a p q) \<and>
     (st = 0 \<longrightarrow>
       (\<exists>m m' pre post. heard ''Bytes transferred'' (gz_setup knocks p) m \<and> heard ''Uncompressed size'' m m' \<and>
          only a p m' \<and> wire q = wire m' @ pre @ line (boot_command a) @ post))"
proof -
  define p0 where "p0 = gz_setup knocks p"
  define t where "t = gz_tftp (nat (g_tries a)) 0 (g_img a) p0"
  define u where "u = say (''unzip 0x08000000 '' @ g_unzip a) (snd t)"
  have run: "gz_run a knocks k p =
      (if \<not> fst t then (2, snd t)
       else if \<not> says ''Uncompressed size'' (fst u) then (3, snd u)
       else (0, gz_finish a (gz_load_core a k (snd u))))"
    unfolding gz_run_def Let_def case_prod_beta p0_def [symmetric] t_def [symmetric] u_def [symmetric] ..
  have "only a p (snd t)"
  proof -
    have "only a p p0" unfolding p0_def by (rule only_setup)
    then show ?thesis unfolding t_def by (rule only_tftp)
  qed
  moreover from this have u: "only a p (snd u)"
    unfolding u_def by (rule only_say) (rule setup_lines_mem)
  moreover have "heard ''Bytes transferred'' p0 (snd t)" if "fst t"
    using that heard_tftp [OF _ later_refl] by (simp add: t_def)
  moreover have "heard ''Uncompressed size'' (snd t) (snd u)" if "says ''Uncompressed size'' (fst u)"
    using that heard_say [OF _ _ later_refl] by (simp add: u_def)
  moreover have "\<exists>pre post. wire (gz_finish a (gz_load_core a k (snd u)))
      = wire (snd u) @ pre @ line (boot_command a) @ post"
  proof -
    obtain x where x: "wire (gz_load_core a k (snd u)) = wire (snd u) @ x"
      using grows_load_core [of "snd u" a k] by (auto simp: grows_def)
    obtain pre post where "wire (gz_finish a (gz_load_core a k (snd u)))
        = wire (gz_load_core a k (snd u)) @ pre @ line (boot_command a) @ post"
      using finish_boots by blast
    then show ?thesis using x by (intro exI [of _ "x @ pre"] exI [of _ post]) simp
  qed
  ultimately show ?thesis unfolding run p0_def by (auto simp: Let_def)
qed

text \<open>
  C30: The retries work: whatever went wrong before, if one of the first \<open>--tftp-tries\<close> transfers is
  reported as done, the script does not give up on the transfer, and the window after it is the one
  that answers \<open>unzip\<close>: the exit status is 0 when that reports success and 3 when it does not.
\<close>

theorem gz_run_retries:
  assumes "rx (gz_setup knocks p) = x # concat fails @ good # answer # rest"
    and "list_all failed_try fails" "says ''Bytes transferred'' good" "int (length fails) < g_tries a"
  shows "fst (gz_run a knocks k p) = (if says ''Uncompressed size'' answer then 0 else 3)"
  by (rule gz_run_status [OF assms])

lemma says_self: "says s (ascii s)"
  unfolding says_def contains_append by (intro exI [of _ "[]"]) simp

definition gz_sample :: port where
  "gz_sample = \<lparr>tx = [], rx = [[], [], [], ascii ''is alive'', [], [], [], [], [], [], [],
     ascii ''Bytes transferred'', ascii ''Uncompressed size'']\<rparr>"

lemma gz_sample_setup:
  "rx (gz_setup 0 gz_sample) = [] # concat [[[], [], [], [], [], []]] @ ascii ''Bytes transferred''
     # ascii ''Uncompressed size'' # []"
proof -
  define p1 where "p1 = snd (say ''setenv ipaddr 10.0.0.2'' gz_sample)"
  define p2 where "p2 = snd (say ''setenv serverip 10.0.0.1'' p1)"
  define p3 where "p3 = snd (say ''usb start'' p2)"
  let ?rest = "[[], [], [], [], [], [], [], ascii ''Bytes transferred'', ascii ''Uncompressed size'']"
  have "rx p1 = [] # [] # ascii ''is alive'' # ?rest"
    unfolding p1_def by (rule rx_say [THEN conjunct2]) (simp add: gz_sample_def)
  then have "rx p2 = [] # ascii ''is alive'' # ?rest"
    unfolding p2_def by (rule rx_say [THEN conjunct2])
  then have p3: "rx p3 = ascii ''is alive'' # ?rest"
    unfolding p3_def by (rule rx_say [THEN conjunct2])
  have b: "gz_bind 6 p3 = gz_bind (Suc 5) p3" by simp
  have "gz_setup 0 gz_sample = gz_bind 6 p3"
    by (simp add: gz_setup_def p1_def p2_def p3_def)
  also have "\<dots> = snd (say ''ping 10.0.0.1'' p3)"
    unfolding b using rx_say [OF p3, of "''ping 10.0.0.1''"] says_self [of "''is alive''"]
    by (simp only: gz_bind.simps Let_def case_prod_beta) (metis fst_conv)
  finally show ?thesis using rx_say [OF p3, of "''ping 10.0.0.1''"] by simp
qed

lemma gz_run_retries_witness: "fst (gz_run (gz_defaults ''kernel8.img.gz'') 0 0 gz_sample) = 0"
  using gz_run_retries [OF gz_sample_setup, of "gz_defaults ''kernel8.img.gz''" 0]
    says_self [of "''Bytes transferred''"] says_self [of "''Uncompressed size''"] says_nonempty
  by (simp add: gz_defaults_def failed_try_def)

lemma gz_sample_status: "fst (gz_run (gz_defaults ''kernel8.img.gz'') 0 0 gz_sample) = 0"
  using gz_run_status [OF gz_sample_setup, of "gz_defaults ''kernel8.img.gz''" 0]
    says_self [of "''Bytes transferred''"] says_self [of "''Uncompressed size''"] says_nonempty
  by (simp add: gz_defaults_def failed_try_def)

lemma gz_run_boots_loaded_witness:
  "\<exists>m m' pre post. heard ''Bytes transferred'' (gz_setup 0 gz_sample) m \<and> heard ''Uncompressed size'' m m' \<and>
     wire (snd (gz_run (gz_defaults ''kernel8.img.gz'') 0 0 gz_sample)) =
     wire m' @ pre @ line (boot_command (gz_defaults ''kernel8.img.gz'')) @ post"
proof -
  obtain q where "gz_run (gz_defaults ''kernel8.img.gz'') 0 0 gz_sample = (0, q)"
    using gz_sample_status by (cases "gz_run (gz_defaults ''kernel8.img.gz'') 0 0 gz_sample") auto
  then show ?thesis
    using gz_run_boots_loaded [where a = "gz_defaults ''kernel8.img.gz''" and knocks = 0 and k = 0 and p = gz_sample] by auto
qed

text \<open>
  The core is different: with \<open>--core\<close>, neither the exit status nor the boot command depends on whether
  the core was transferred; and on that path the word at 0x18000000 is not cleared.
\<close>

lemma gz_core_not_fatal:
  "fst (gz_run (a\<lparr>g_core := c\<rparr>) knocks k p) = fst (gz_run a knocks k p)"
  by (simp add: gz_run_def case_prod_beta Let_def)

end
