(* ===== verification/PmuStubs.thy ===== *)
theory PmuStubs
  imports PyText "HOL-Library.Word"
begin

text \<open>
  The machine-code stubs of the PMU drivers (\<open>serial-pmu*.py\<close>, \<open>serial-id*.py\<close>): lists of A64 words,
  written in decimal in the forms, which the board stores into an executable page and calls.
  \<open>stub\<close> is the text of such a form.  \<open>a64\<close> decodes the few instructions the stubs use by the fields of
  the architecture's encoding and \<open>run\<close> executes a stub up to its \<open>ret\<close>; system registers are an
  environment that is read and a log of what is written.
\<close>

unbundle bit_operations_syntax

type_synonym insn_word = "32 word"
type_synonym reg_value = "64 word"

section \<open>The stubs\<close>

definition stub_body :: "insn_word list \<Rightarrow> string" where
  "stub_body ws =
     ''(let ((p (%mmap-exec-page 4096)) (i 0)) (dolist (w (list '' @ join '' '' (map (\<lambda>w. dec (unat w)) ws)
       @ '')) (setf (mem-ref (+ p i) :u32) w) (setq i (+ i 4))) (%jit-icache-flush p 128) (%jit-call p))''"

definition stub :: "string \<Rightarrow> insn_word list \<Rightarrow> string" where
  "stub name ws = ''(defun '' @ name @ '' () '' @ stub_body ws @ '')''"

text \<open>\<open>mrs x0, REG; lsl x0, x0, 1; ret\<close>: the three words of a stub that returns a register as a fixnum.\<close>

definition reader :: "insn_word \<Rightarrow> insn_word list" where
  "reader mrs = [mrs, 3548379136, 3596551104]"

text \<open>The sixteen words of \<open>evt-08\<close>, \<open>evt-1b\<close>, ...: they differ in the word that loads the event.\<close>

definition evt_words :: "insn_word \<Rightarrow> insn_word list" where
  "evt_words event =
     [3531606209, 3575356417, 3573759967, 3531604001, 3575356481, event, 4070703105, 3575376897,
      3531604001, 3575356449, 3573759967, 3531606241, 3575356417, 3573759967, 3531603968, 3596551104]"

definition pmu_init2 :: "insn_word list" where
  "pmu_init2 =
     [3531606241, 3575356417, 3533701089, 4072669153, 3575356481, 3533701089, 4072669153, 3575160385,
      3533701089, 4072669153, 3575356513, 3533766657, 3575377889, 3573759967, 3577453568, 3548379136,
      3596551104]"

definition ev0_swincr :: "insn_word list" where
  "ev0_swincr = [3533766657, 3575376897, 3531604001, 3575356449, 3573759967, 3531603968, 3596551104]"

definition swinc :: "insn_word list" where
  "swinc = [3531604001, 3575356545, 3573759967, 3577473024, 3548379136, 3596551104]"

definition ev0_inst :: "insn_word list" where
  "ev0_inst = [3531604225, 4070703105, 3575376897, 3531604001, 3575356449, 3573759967, 3531603968, 3596551104]"

text \<open>The fifteen words of \<open>pmu-init\<close>.\<close>

definition pmu_init :: "insn_word list" where
  "pmu_init =
     [3577483553, 2994274337, 2457593889, 2994668577, 3575386401, 3531604129, 3575356417, 3534749697,
      3575356449, 3533766657, 3575377889, 3573759967, 3577453568, 3548379136, 3596551104]"

text \<open>\<open>pmu-event-setup\<close> assembles its words on the board from the counter and the event.\<close>

definition event_setup :: "insn_word \<Rightarrow> insn_word \<Rightarrow> nat \<Rightarrow> insn_word list" where
  "event_setup n event bit_n =
     [3531603969 OR push_bit 5 n, 3575356577, 3573759967, 3531603969 OR push_bit 5 event, 4070703105,
      3575356705, 3531603969 OR push_bit 5 (push_bit bit_n 1), 3575356449, 3573759967, 3531603968, 3596551104]"

section \<open>The instructions\<close>

datatype insn =
    Movz nat reg_value nat
  | Movk nat reg_value nat
  | Msr insn_word nat
  | Mrs nat insn_word
  | OrrImm nat nat reg_value
  | AndImm nat nat reg_value
  | Isb
  | Lsl1
  | Ret

definition field :: "nat \<Rightarrow> nat \<Rightarrow> insn_word \<Rightarrow> insn_word" where
  "field lo width w = take_bit width (drop_bit lo w)"

text \<open>A logical immediate of the 64-bit element size: \<open>imms + 1\<close> ones, rotated right by \<open>immr\<close>.\<close>

definition bitmask_imm :: "insn_word \<Rightarrow> reg_value" where
  "bitmask_imm w = word_rotr (unat (field 16 6 w)) (mask (Suc (unat (field 10 6 w))))"

definition a64 :: "insn_word \<Rightarrow> insn option" where
  "a64 w =
     (if w = 0xD65F03C0 then Some Ret
      else if w = 0xD5033FDF then Some Isb
      else if w = 0xD37FF800 then Some Lsl1
      else if field 23 9 w = 0x1A5 then Some (Movz (unat (field 0 5 w)) (ucast (field 5 16 w)) (16 * unat (field 21 2 w)))
      else if field 23 9 w = 0x1E5 then Some (Movk (unat (field 0 5 w)) (ucast (field 5 16 w)) (16 * unat (field 21 2 w)))
      else if field 20 12 w = 0xD51 then Some (Msr (field 5 15 w) (unat (field 0 5 w)))
      else if field 20 12 w = 0xD53 then Some (Mrs (unat (field 0 5 w)) (field 5 15 w))
      else if field 22 10 w = 0x2C9 then Some (OrrImm (unat (field 0 5 w)) (unat (field 5 5 w)) (bitmask_imm w))
      else if field 22 10 w = 0x249 then Some (AndImm (unat (field 0 5 w)) (unat (field 5 5 w)) (bitmask_imm w))
      else None)"

text \<open>The system registers by the fields \<open>o0 op1 CRn CRm op2\<close> of the encoding.\<close>

definition sysreg :: "insn_word \<Rightarrow> insn_word \<Rightarrow> insn_word \<Rightarrow> insn_word \<Rightarrow> insn_word \<Rightarrow> insn_word" where
  "sysreg o0 op1 crn crm op2 =
     push_bit 14 o0 OR push_bit 11 op1 OR push_bit 7 crn OR push_bit 3 crm OR op2"

definition PMCR :: insn_word where "PMCR = sysreg 1 3 9 12 0"
definition PMCNTENSET :: insn_word where "PMCNTENSET = sysreg 1 3 9 12 1"
definition PMCNTENCLR :: insn_word where "PMCNTENCLR = sysreg 1 3 9 12 2"
definition PMOVSCLR :: insn_word where "PMOVSCLR = sysreg 1 3 9 12 3"
definition PMSELR :: insn_word where "PMSELR = sysreg 1 3 9 12 5"
definition PMXEVTYPER :: insn_word where "PMXEVTYPER = sysreg 1 3 9 13 1"
definition PMEVTYPER0 :: insn_word where "PMEVTYPER0 = sysreg 1 3 14 12 0"
definition PMCCFILTR :: insn_word where "PMCCFILTR = sysreg 1 3 14 15 7"
definition PMINTENCLR :: insn_word where "PMINTENCLR = sysreg 1 0 9 14 2"

definition MDCR_EL2 :: insn_word where "MDCR_EL2 = sysreg 1 4 1 1 1"

text \<open>The bits of a counter's filter that select counting at EL2 and at non-secure EL0.\<close>

definition NSH :: nat where "NSH = 27"
definition NSU :: nat where "NSU = 28"

section \<open>Running a stub\<close>

record cpu =
  gpr :: "nat \<Rightarrow> reg_value"
  msrs :: "(insn_word \<times> reg_value) list"

fun exec :: "(insn_word \<Rightarrow> reg_value) \<Rightarrow> insn \<Rightarrow> cpu \<Rightarrow> cpu" where
  "exec env (Movz d imm sh) c = c\<lparr>gpr := (gpr c)(d := push_bit sh imm)\<rparr>"
| "exec env (Movk d imm sh) c =
     c\<lparr>gpr := (gpr c)(d := (gpr c d AND NOT (push_bit sh 0xFFFF)) OR push_bit sh imm)\<rparr>"
| "exec env (Msr r t) c = c\<lparr>msrs := msrs c @ [(r, gpr c t)]\<rparr>"
| "exec env (Mrs t r) c = c\<lparr>gpr := (gpr c)(t := env r)\<rparr>"
| "exec env (OrrImm d n imm) c = c\<lparr>gpr := (gpr c)(d := gpr c n OR imm)\<rparr>"
| "exec env (AndImm d n imm) c = c\<lparr>gpr := (gpr c)(d := gpr c n AND imm)\<rparr>"
| "exec env Isb c = c"
| "exec env Lsl1 c = c\<lparr>gpr := (gpr c)(0 := push_bit 1 (gpr c 0))\<rparr>"
| "exec env Ret c = c"

text \<open>\<open>None\<close>: the stub holds a word that is not one of these instructions, or runs past its end.\<close>

fun run :: "(insn_word \<Rightarrow> reg_value) \<Rightarrow> insn_word list \<Rightarrow> cpu \<Rightarrow> cpu option" where
  "run env [] c = None"
| "run env (w # ws) c =
     (case a64 w of None \<Rightarrow> None | Some Ret \<Rightarrow> Some c | Some i \<Rightarrow> run env ws (exec env i c))"

section \<open>Well-formed stubs\<close>

text \<open>
  Every word is one of the instructions, \<open>ret\<close> comes last and only there, and what was written to a
  system register is synchronised by an \<open>isb\<close> before a register is read and before the return.
\<close>

fun well_formed :: "bool \<Rightarrow> insn_word list \<Rightarrow> bool" where
  "well_formed pending [] = False"
| "well_formed pending (w # ws) =
     (case a64 w of
        None \<Rightarrow> False
      | Some Ret \<Rightarrow> ws = [] \<and> \<not> pending
      | Some Isb \<Rightarrow> well_formed False ws
      | Some (Msr r t) \<Rightarrow> well_formed True ws
      | Some (Mrs t r) \<Rightarrow> \<not> pending \<and> well_formed pending ws
      | Some _ \<Rightarrow> well_formed pending ws)"

lemma well_formed_returns: "well_formed pending ws \<Longrightarrow> run env ws c \<noteq> None"
proof (induction pending ws arbitrary: c rule: well_formed.induct)
  case (2 pending w ws)
  then show ?case by (auto split: option.splits insn.splits)
qed simp

section \<open>Decoding the words\<close>

lemma small_bits: "(e :: insn_word) < 0x10000 \<Longrightarrow> bit e n \<Longrightarrow> n < 16"
proof -
  assume e: "e < 0x10000" "bit e n"
  have "uint e < 2 ^ 16" using e(1) by (simp add: word_less_def)
  then have "take_bit 16 (uint e) = uint e" by (simp add: take_bit_int_eq_self)
  moreover have "bit (uint e) n" using e(2) bit_imp_le_length [OF e(2)] by (simp add: bit_uint_iff)
  ultimately show "n < 16" by (metis bit_take_bit_iff)
qed

lemma field_or: "field lo n (a OR b) = field lo n a OR field lo n b"
  by (simp add: field_def)

lemma field_event_above:
  assumes "e < 0x10000" "21 \<le> lo" shows "field lo n (push_bit 5 e) = 0"
proof (rule bit_eqI)
  fix i assume "possible_bit TYPE(32 word) i"
  show "bit (field lo n (push_bit 5 e)) i = bit (0 :: insn_word) i"
    using small_bits [OF assms(1), of "lo + i - 5"] assms(2) by (auto simp: field_def bit_simps)
qed

lemma field_event_below: "field 0 5 (push_bit 5 e) = 0"
  by (rule bit_eqI) (auto simp: field_def bit_simps)

lemma field_event: "e < 0x10000 \<Longrightarrow> field 5 16 (push_bit 5 e) = e"
proof (rule bit_eqI)
  fix i assume e: "e < 0x10000" and "possible_bit TYPE(32 word) i"
  then show "bit (field 5 16 (push_bit 5 e)) i = bit e i"
    using small_bits [OF e, of i] by (auto simp: field_def bit_simps)
qed

lemma movz_fields:
  "field 23 9 3531603969 = 0x1A5" "field 0 5 3531603969 = 1" "field 5 16 3531603969 = 0" "field 21 2 3531603969 = 0"
  by code_simp+

lemma field_dist: "field lo n a \<noteq> field lo n b \<Longrightarrow> a \<noteq> b" by auto

lemma decode_event:
  assumes "(e :: insn_word) < 0x10000"
  shows "a64 (3531603969 OR push_bit 5 e) = Some (Movz 1 (ucast e) 0)"
proof -
  let ?w = "3531603969 OR push_bit 5 e :: insn_word"
  have f: "field 23 9 ?w = 0x1A5" "field 0 5 ?w = 1" "field 5 16 ?w = e" "field 21 2 ?w = 0"
    using assms by (simp_all add: field_or field_event_above field_event_below field_event movz_fields)
  have "field 23 9 0xD65F03C0 \<noteq> 0x1A5" "field 23 9 0xD5033FDF \<noteq> 0x1A5" "field 23 9 0xD37FF800 \<noteq> 0x1A5"
    by code_simp+
  then have "?w \<noteq> 0xD65F03C0" "?w \<noteq> 0xD5033FDF" "?w \<noteq> 0xD37FF800" using f(1) by metis+
  then show ?thesis unfolding a64_def using f by simp
qed

lemma decode_words:
  "a64 3531606209 = Some (Movz 1 0x46 0)" "a64 3575356417 = Some (Msr PMCR 1)" "a64 3573759967 = Some Isb"
  "a64 3531604001 = Some (Movz 1 1 0)" "a64 3575356481 = Some (Msr PMCNTENCLR 1)"
  "a64 4070703105 = Some (Movk 1 0x1000 16)" "a64 3575376897 = Some (Msr PMEVTYPER0 1)"
  "a64 3575356449 = Some (Msr PMCNTENSET 1)" "a64 3531606241 = Some (Movz 1 0x47 0)"
  "a64 3531603968 = Some (Movz 0 0 0)" "a64 3596551104 = Some Ret" "a64 3548379136 = Some Lsl1"
  "a64 3575356577 = Some (Msr PMSELR 1)" "a64 3575356705 = Some (Msr PMXEVTYPER 1)"
  "a64 3533701089 = Some (Movz 1 0xFFFF 0)" "a64 4072669153 = Some (Movk 1 0xFFFF 16)"
  "a64 3575160385 = Some (Msr PMINTENCLR 1)" "a64 3575356513 = Some (Msr PMOVSCLR 1)"
  "a64 3533766657 = Some (Movz 1 0x800 16)" "a64 3575377889 = Some (Msr PMCCFILTR 1)" 
  "a64 3577453568 = Some (Mrs 0 PMCR)" "a64 3577483553 = Some (Mrs 1 MDCR_EL2)"
  "a64 2994274337 = Some (OrrImm 1 1 0x80)" "a64 2457593889 = Some (AndImm 1 1 (- 32))"
  "a64 2994668577 = Some (OrrImm 1 1 6)" "a64 3575386401 = Some (Msr MDCR_EL2 1)"
  "a64 3531604129 = Some (Movz 1 5 0)" "a64 3534749697 = Some (Movz 1 0x8000 16)"
  by code_simp+


lemma wide_event: "(e :: insn_word) < 0x10000 \<Longrightarrow> bit (ucast e :: reg_value) n \<Longrightarrow> n < 16"
  using small_bits [of e n] by (simp add: bit_simps)

lemma keyed:
  assumes "(e :: insn_word) < 0x10000"
  shows "(ucast e AND NOT (push_bit 16 0xFFFF)) OR push_bit 16 0x1000 = (ucast e OR push_bit NSU 1 :: reg_value)"
proof -
  have above: "bit (push_bit 16 x :: reg_value) n \<Longrightarrow> 16 \<le> n" for x n by (simp add: bit_simps)
  have "ucast e AND NOT (push_bit 16 x) = (ucast e :: reg_value)" for x
  proof (rule bit_eqI)
    fix n
    assume "possible_bit TYPE(64 word) n"
    then show "bit (ucast e AND NOT (push_bit 16 x) :: reg_value) n = bit (ucast e :: reg_value) n"
      using wide_event [OF assms, of n] above [of x n] unfolding bit_and_iff bit_not_iff by auto
  qed
  moreover have "push_bit 16 0x1000 = (push_bit NSU 1 :: reg_value)" by (simp add: NSU_def)
  ultimately show ?thesis by (simp only:)
qed

section \<open>Properties\<close>

lemma evt_stub:
  assumes "(e :: insn_word) < 0x10000"
  shows "\<exists>c'. run env (evt_words (3531603969 OR push_bit 5 e)) c = Some c' \<and> gpr c' 0 = 0
     \<and> msrs c' = msrs c @ [(PMCR, 0x46), (PMCNTENCLR, 1), (PMEVTYPER0, ucast e OR push_bit NSU 1),
          (PMCNTENSET, 1), (PMCR, 0x47)]
     \<and> bit (ucast e OR push_bit NSU 1 :: reg_value) NSU \<and> \<not> bit (ucast e OR push_bit NSU 1 :: reg_value) NSH"
proof -
  have "\<not> bit (ucast e :: reg_value) NSH" using wide_event [OF assms, of NSH] by (auto simp: NSH_def)
  then have "bit (ucast e OR push_bit NSU 1 :: reg_value) NSU \<and> \<not> bit (ucast e OR push_bit NSU 1 :: reg_value) NSH"
    by (simp add: bit_simps NSU_def NSH_def)
  then show ?thesis
    using keyed [OF assms] unfolding evt_words_def by (simp add: decode_event [OF assms] decode_words)
qed

definition cold_cpu :: cpu where
  "cold_cpu = \<lparr>gpr = \<lambda>_. 0, msrs = []\<rparr>"

text \<open>The literal words of the drivers are these stubs, and \<open>pmu-event-setup\<close> sets the same bit.\<close>

lemma event_setup_filter:
  "(e :: insn_word) < 0x10000 \<Longrightarrow> n < 0x10000 \<Longrightarrow> k < 16 \<Longrightarrow>
     \<exists>c'. run env (event_setup n e k) c = Some c'
       \<and> msrs c' = msrs c @ [(PMSELR, ucast n), (PMXEVTYPER, ucast e OR push_bit NSU 1), (PMCNTENSET, push_bit k 1)]"
proof -
  assume e: "e < 0x10000" and n: "n < 0x10000" and k: "k < 16"
  have b: "push_bit k 1 < (0x10000 :: insn_word)"
  proof -
    have "k \<in> set [0..<16]" using k by simp
    then show ?thesis by (auto simp: upt_rec)
  qed
  have "ucast (push_bit k 1 :: insn_word) = (push_bit k 1 :: reg_value)"
    by (rule bit_eqI) (use k in \<open>auto simp: bit_simps\<close>)
  then show ?thesis using keyed [OF e] decode_event [OF b] unfolding event_setup_def
    by (simp add: decode_event [OF e] decode_event [OF n] decode_words)
qed

text \<open>
  What \<open>pmu-init\<close> programs.  It gives every event counter to EL2 (six counters, HPME set) without
  changing the other bits of \<open>MDCR_EL2\<close>, resets and enables, enables the cycle counter, and sets its
  filter to NSH; the value returned is the control register, as a fixnum.
\<close>

lemma pmu_init_stub:
  "\<exists>c'. run env pmu_init c = Some c' \<and> gpr c' 0 = 2 * env PMCR
     \<and> msrs c' = msrs c @ [(MDCR_EL2, ((env MDCR_EL2 OR 0x80) AND NOT 0x1F) OR 6), (PMCR, 5),
          (PMCNTENSET, 0x80000000), (PMCCFILTR, push_bit NSH 1)]"
  unfolding pmu_init_def by (simp add: decode_words NSH_def push_bit_eq_mult)

text \<open>
  A reading stub returns the register.  If the register's value has its top bit clear, the fixnum in
  \<open>x0\<close> is exactly twice the value, so the number the board prints is the register's.
\<close>

lemma reader_returns:
  assumes "a64 w = Some (Mrs 0 r)" and "unat (env r) < 2 ^ 63"
  shows "\<exists>c'. run env (reader w) c = Some c' \<and> msrs c' = msrs c \<and> unat (gpr c' 0) = 2 * unat (env r)"
proof -
  have "unat (2 * env r) = 2 * unat (env r)"
  proof -
    have "unat (2 :: reg_value) * unat (env r) < 2 ^ LENGTH(64)" using assms(2) by simp
    then have "unat (2 * env r) = unat (2 :: reg_value) * unat (env r)" using unat_mult_lem by blast
    then show ?thesis by simp
  qed
  then show ?thesis using assms(1) by (simp add: reader_def decode_words push_bit_eq_mult mult.commute)
qed

lemma reader_returns_witness:
  "\<exists>c'. run (\<lambda>_. 5) (reader 3577453568) cold_cpu = Some c' \<and> msrs c' = msrs cold_cpu
     \<and> unat (gpr c' 0) = 2 * unat (5 :: reg_value)"
  by (rule reader_returns [of _ PMCR]) (simp_all add: decode_words)

end
