(* ===== verification/ReplReply.thy ===== *)
theory ReplReply
  imports PyText
begin

text \<open>
  The replies of the Lisp REPL, as the board drivers of \<open>docs/reel-on-zero\<close> recognise them.  A form is
  sent as \<open>(list TAG FORM)\<close> and its value is what \<open>re.search(r"\(TAG (.+?)\)\s*\n", out)\<close> captures.
  \<open>reply_value\<close> is the lazy group, \<open>reply\<close> the search; \<open>is_reply\<close> says declaratively when a text holds a
  reply and the lemmas relate the two.
\<close>

section \<open>The search\<close>

text \<open>\<open>\s*\n\<close> matches at the start of the text: a newline comes before anything that is not a space.\<close>

fun newline_after :: "string \<Rightarrow> bool" where
  "newline_after [] = False"
| "newline_after (c # cs) = (c = nl \<or> (py_space c \<and> newline_after cs))"

text \<open>\<open>(.+?)\)\s*\n\<close> at the start of the text, with \<open>acc\<close> the characters of the group so far.\<close>

fun reply_value :: "string \<Rightarrow> string \<Rightarrow> string option" where
  "reply_value acc [] = None"
| "reply_value acc (c # cs) =
     (if acc \<noteq> [] \<and> c = CHR '')'' \<and> newline_after cs then Some acc
      else if c = nl then None
      else reply_value (acc @ [c]) cs)"

definition tag_prefix :: "nat \<Rightarrow> string" where
  "tag_prefix t = CHR ''('' # dec t @ '' ''"

fun reply :: "nat \<Rightarrow> string \<Rightarrow> string option" where
  "reply t [] = None"
| "reply t (c # cs) =
     (if starts_with (tag_prefix t) (c # cs)
      then case reply_value [] (drop (length (tag_prefix t)) (c # cs)) of
             Some v \<Rightarrow> Some v | None \<Rightarrow> reply t cs
      else reply t cs)"

text \<open>What the form is sent as.\<close>

definition tagged :: "nat \<Rightarrow> string \<Rightarrow> string" where
  "tagged t form = ''(list '' @ dec t @ '' '' @ form @ '')'' @ [CHR 0x0D, nl]"

text \<open>The line that closes whatever the reader was left in, and a form to throw away.\<close>

definition resync :: string where
  "resync = replicate 9 CHR '')'' @ [CHR 0x0D, nl] @ ''(+ 0 0)'' @ [CHR 0x0D, nl]"

text \<open>The pattern \<open>never\<close> with which the drivers drain the line.\<close>

definition never :: "string \<Rightarrow> bool" where
  "never x = contains ''never'' x"

section \<open>What it finds\<close>

lemma length_resync [simp]: "length resync = 20"
  by (simp add: resync_def)

definition is_reply :: "nat \<Rightarrow> string \<Rightarrow> string \<Rightarrow> bool" where
  "is_reply t v s \<longleftrightarrow>
     (\<exists>a r. s = a @ tag_prefix t @ v @ '')'' @ r \<and> v \<noteq> [] \<and> nl \<notin> set v \<and> newline_after r)"

lemma newline_after_append: "newline_after r \<Longrightarrow> newline_after (r @ z)"
  by (induction r) auto

lemma not_space_close [simp]: "\<not> py_space CHR '')''"
  by (simp add: py_space_def)

lemma newline_after_close [simp]: "newline_after (x @ CHR '')'' # y) = newline_after x"
  by (induction x) auto

lemma newline_after_same:
  "CHR '')'' \<in> set r \<Longrightarrow> newline_after (r @ z) = newline_after r"
  by (induction r) auto

lemma reply_value_sound:
  "reply_value acc s = Some v \<Longrightarrow> nl \<notin> set acc \<Longrightarrow>
     \<exists>w r. v = acc @ w \<and> s = w @ '')'' @ r \<and> v \<noteq> [] \<and> nl \<notin> set v \<and> newline_after r"
proof (induction acc s rule: reply_value.induct)
  case (2 acc c cs)
  show ?case
  proof (cases "acc \<noteq> [] \<and> c = CHR '')'' \<and> newline_after cs")
    case True
    then show ?thesis using "2.prems" by (intro exI [of _ "[]"] exI [of _ cs]) simp
  next
    case False
    then have c: "c \<noteq> nl" "reply_value (acc @ [c]) cs = Some v" using "2.prems"(1) by (auto split: if_splits)
    have "nl \<notin> set (acc @ [c])" using "2.prems"(2) c(1) by simp
    from "2.IH" [OF False c(1) c(2) this]
    obtain w r where "v = (acc @ [c]) @ w" "cs = w @ '')'' @ r" "v \<noteq> []" "nl \<notin> set v" "newline_after r"
      by blast
    then show ?thesis by (intro exI [of _ "c # w"] exI [of _ r]) simp
  qed
qed simp

lemma reply_value_close: "reply_value acc s = Some v \<Longrightarrow> CHR '')'' \<in> set s"
  by (induction acc s rule: reply_value.induct) (auto split: if_splits)

lemma reply_value_append: "reply_value acc s = Some v \<Longrightarrow> reply_value acc (s @ z) = Some v"
proof (induction acc s rule: reply_value.induct)
  case (2 acc c cs)
  show ?case
  proof (cases "acc \<noteq> [] \<and> c = CHR '')'' \<and> newline_after cs")
    case True
    then show ?thesis using "2.prems" by (simp add: newline_after_append)
  next
    case False
    then have c: "c \<noteq> nl" "reply_value (acc @ [c]) cs = Some v" using "2.prems" by (auto split: if_splits)
    have "\<not> (acc \<noteq> [] \<and> c = CHR '')'' \<and> newline_after (cs @ z))"
      using False newline_after_same [OF reply_value_close [OF c(2)]] by blast
    then show ?thesis using "2.IH" [OF False c] c(1) by (auto simp del: not_None_eq)
  qed
qed simp

lemma reply_value_None_append:
  "reply_value acc (a @ '')'' @ r) = None \<Longrightarrow> newline_after r \<Longrightarrow> acc @ a \<noteq> [] \<Longrightarrow>
     reply_value acc (a @ '')'' @ r @ z) = None"
proof (induction a arbitrary: acc)
  case (Cons c a)
  then show ?case by (auto split: if_splits)
qed simp

text \<open>A body whose closing parentheses are never followed by a newline is captured whole.\<close>

fun no_early_close :: "string \<Rightarrow> string \<Rightarrow> bool" where
  "no_early_close [] rest = True"
| "no_early_close (c # cs) rest = ((c = CHR '')'' \<longrightarrow> \<not> newline_after (cs @ rest)) \<and> no_early_close cs rest)"

lemma reply_value_complete:
  "no_early_close v ('')'' @ r) \<Longrightarrow> nl \<notin> set v \<Longrightarrow> newline_after r \<Longrightarrow> acc @ v \<noteq> [] \<Longrightarrow>
     reply_value acc (v @ '')'' @ r) = Some (acc @ v)"
proof (induction v arbitrary: acc)
  case (Cons c v)
  have "\<not> (acc \<noteq> [] \<and> c = CHR '')'' \<and> newline_after (v @ '')'' @ r))" using Cons.prems(1) by simp
  moreover have "reply_value (acc @ [c]) (v @ '')'' @ r) = Some ((acc @ [c]) @ v)"
    using Cons.prems by (intro Cons.IH) auto
  ultimately show ?case using Cons.prems(2) by auto
qed simp

text \<open>A reply in the text always makes the lazy group match, perhaps with a shorter value.\<close>

lemma reply_value_exists:
  "nl \<notin> set v \<Longrightarrow> newline_after r \<Longrightarrow> acc @ v \<noteq> [] \<Longrightarrow> reply_value acc (v @ '')'' @ r) \<noteq> None"
proof (induction v arbitrary: acc)
  case (Cons c v)
  have "reply_value (acc @ [c]) (v @ '')'' @ r) \<noteq> None" using Cons.prems by (intro Cons.IH) auto
  then show ?case using Cons.prems(1) by auto
qed simp

lemma reply_sound: "reply t s = Some v \<Longrightarrow> is_reply t v s"
proof (induction t s rule: reply.induct)
  case (2 t c cs)
  show ?case
  proof (cases "starts_with (tag_prefix t) (c # cs) \<and>
      reply_value [] (drop (length (tag_prefix t)) (c # cs)) = Some v")
    case True
    then obtain r where "drop (length (tag_prefix t)) (c # cs) = v @ '')'' @ r" "v \<noteq> []" "nl \<notin> set v" "newline_after r"
      using reply_value_sound [of "[]"] by fastforce
    moreover have "c # cs = tag_prefix t @ drop (length (tag_prefix t)) (c # cs)"
      using True unfolding starts_with_def by (metis append_take_drop_id)
    ultimately show ?thesis unfolding is_reply_def by (intro exI [of _ "[]"] exI [of _ r]) simp
  next
    case False
    then have cs: "reply t cs = Some v" using "2.prems" by (auto split: if_splits option.splits)
    have "is_reply t v cs"
    proof (cases "starts_with (tag_prefix t) (c # cs)")
      case True
      then have "reply_value [] (drop (length (tag_prefix t)) (c # cs)) = None"
        using False "2.prems" by (auto split: option.splits)
      then show ?thesis using "2.IH"(1) [OF True _ cs] by simp
    next
      case no: False
      show ?thesis by (rule "2.IH"(2) [OF no cs])
    qed
    then obtain a r where "cs = a @ tag_prefix t @ v @ '')'' @ r" "v \<noteq> []" "nl \<notin> set v" "newline_after r"
      unfolding is_reply_def by blast
    then show ?thesis unfolding is_reply_def by (intro exI [of _ "c # a"] exI [of _ r]) simp
  qed
qed simp

lemma tag_prefix_not_Nil [simp]: "tag_prefix t \<noteq> []"
  by (simp add: tag_prefix_def)

lemma reply_step:
  "x \<noteq> [] \<Longrightarrow> reply t x =
     (if starts_with (tag_prefix t) x \<and> reply_value [] (drop (length (tag_prefix t)) x) \<noteq> None
      then reply_value [] (drop (length (tag_prefix t)) x) else reply t (tl x))"
  by (cases x) (auto split: option.splits)

lemma starts_with_append [simp]: "starts_with p (p @ s)"
  by (simp add: starts_with_def)

lemma starts_with_long [simp]: "length p \<le> length s \<Longrightarrow> starts_with p (s @ z) = starts_with p s"
  by (simp add: starts_with_def)

lemma reply_complete: "is_reply t v s \<Longrightarrow> reply t s \<noteq> None"
proof -
  assume "is_reply t v s"
  then obtain a r where s: "s = a @ tag_prefix t @ v @ '')'' @ r" and v: "v \<noteq> []" "nl \<notin> set v" "newline_after r"
    unfolding is_reply_def by blast
  have "reply t (a @ tag_prefix t @ v @ '')'' @ r) \<noteq> None"
  proof (induction a)
    case Nil
    let ?x = "tag_prefix t @ v @ '')'' @ r"
    have "reply_value [] (drop (length (tag_prefix t)) ?x) \<noteq> None"
      using reply_value_exists [of v r "[]"] v by simp
    then show ?case by (subst reply_step) auto
  next
    case (Cons c a)
    then show ?case by (auto split: option.splits)
  qed
  then show ?thesis using s by simp
qed

text \<open>Text that comes after a reply does not change what is found.\<close>

lemma drop_append_le: "n \<le> length u \<Longrightarrow> drop n (u @ w) = drop n u @ w"
  by simp

lemma is_reply_length: "is_reply t v s \<Longrightarrow> length (tag_prefix t) < length s"
  unfolding is_reply_def by fastforce

lemma reply_append: "reply t s = Some v \<Longrightarrow> reply t (s @ z) = Some v"
proof (induction s)
  case (Cons c cs)
  let ?p = "tag_prefix t" and ?x = "c # cs"
  have sw: "starts_with ?p (?x @ z) = starts_with ?p ?x"
    using is_reply_length [OF reply_sound [OF Cons.prems]] by (intro starts_with_long) simp
  show ?case
  proof (cases "starts_with ?p ?x")
    case False
    then show ?thesis using Cons sw by simp
  next
    case True
    let ?y = "drop (length ?p) ?x"
    have y: "drop (length ?p) (?x @ z) = ?y @ z"
      using is_reply_length [OF reply_sound [OF Cons.prems]] by (intro drop_append_le) simp
    show ?thesis
    proof (cases "reply_value [] ?y")
      case (Some w)
      then show ?thesis using Cons.prems True sw y reply_value_append [OF Some, of z]
        by (simp del: append_Cons drop_append) simp
    next
      case None
      then have cs: "reply t cs = Some v" using Cons.prems True by simp
      then obtain a r where d: "cs = a @ ?p @ v @ '')'' @ r" "v \<noteq> []" "newline_after r"
        using reply_sound unfolding is_reply_def by blast
      have "\<exists>b. ?y = b @ '')'' @ r \<and> b \<noteq> []"
      proof -
        have "?x = ((c # a) @ ?p @ v) @ '')'' @ r" using d(1) by simp
        moreover have len: "length ?p < length ((c # a) @ ?p @ v)" by simp
        ultimately have "?y = drop (length ?p) ((c # a) @ ?p @ v) @ '')'' @ r"
          using drop_append_le by (metis less_imp_le)
        then show ?thesis using len by (intro exI [of _ "drop (length ?p) ((c # a) @ ?p @ v)"]) simp
      qed
      then obtain b where b: "?y = b @ '')'' @ r" "b \<noteq> []" by blast
      have "reply_value [] (?y @ z) = None"
        using reply_value_None_append [of "[]" b r z] None b d(3) by simp
      then show ?thesis using Cons.IH [OF cs] True sw y by simp
    qed
  qed
qed simp

text \<open>A text \<open>p\<close> that does not occur earlier is found at its place.\<close>

lemma contains_starts: "starts_with p s \<Longrightarrow> contains p s"
  by (cases s) (auto simp: starts_with_def)

lemma first_occurrence:
  assumes "\<not> contains p (butlast ((c # a) @ p))" and "p \<noteq> []"
  shows "\<not> starts_with p ((c # a) @ p @ y)" and "\<not> contains p (butlast (a @ p))"
proof -
  let ?b = "butlast ((c # a) @ p)"
  have m: "(c # a) @ p @ y = ?b @ [last p] @ y"
    using assms(2) by (simp add: butlast_append)
  have "length p \<le> length ?b" by simp
  then have "starts_with p (?b @ [last p] @ y) = starts_with p ?b" by (rule starts_with_long)
  then show "\<not> starts_with p ((c # a) @ p @ y)" using assms(1) contains_starts m by metis
  show "\<not> contains p (butlast (a @ p))" using assms by (auto simp: butlast_append)
qed

text \<open>A text without the tag before it does not hide a reply.\<close>

lemma reply_after_clean:
  "\<not> contains (tag_prefix t) (butlast (a @ tag_prefix t)) \<Longrightarrow> no_early_close v ('')'' @ r) \<Longrightarrow>
     nl \<notin> set v \<Longrightarrow> v \<noteq> [] \<Longrightarrow> newline_after r \<Longrightarrow>
     reply t (a @ tag_prefix t @ v @ '')'' @ r) = Some v"
proof (induction a)
  case Nil
  then have "reply_value [] (v @ '')'' @ r) = Some v" using reply_value_complete [of v r "[]"] by simp
  then show ?case by (subst reply_step) auto
next
  case (Cons c a)
  note clean = first_occurrence [OF Cons.prems(1) tag_prefix_not_Nil]
  have "\<not> starts_with (tag_prefix t) ((c # a) @ tag_prefix t @ v @ '')'' @ r)" by (rule clean(1))
  then show ?case using Cons.IH [OF clean(2) Cons.prems(2-)] by (subst reply_step) auto
qed

end
