(* ===== verification/ReplChannel.thy ===== *)
theory ReplChannel
  imports ReplReply Serial
begin

text \<open>
  The line between a driver and the REPL, with time.  What the other side will send is a list of bytes
  with the times (in milliseconds) at which they arrive; a read takes what has arrived and advances the
  clock as its timeout says, computation takes none.  \<open>board\<close> is the state the drivers share.  The
  locale \<open>reply_channel\<close> is what the query functions rely on: that \<open>rd_until\<close> returns a prefix of what
  arrives, that it stops only on a match or at the deadline, and that it stops soon after it.
\<close>

section \<open>The line\<close>

record board =
  clock :: nat
  inbound :: "(nat \<times> byte) list"
  outbound :: bytes
  tags :: "nat list"
  shown :: "string list"

text \<open>One write, after which the driver sleeps for \<open>ms\<close>.\<close>

definition emit :: "nat \<Rightarrow> bytes \<Rightarrow> board \<Rightarrow> board" where
  "emit ms b s = s\<lparr>outbound := outbound s @ b, clock := clock s + ms\<rparr>"

definition nap :: "nat \<Rightarrow> board \<Rightarrow> board" where
  "nap ms s = s\<lparr>clock := clock s + ms\<rparr>"

definition display :: "string \<Rightarrow> board \<Rightarrow> board" where
  "display x s = s\<lparr>shown := shown s @ [x]\<rparr>"

text \<open>\<open>%s\<close> of a value that may be \<open>None\<close>.\<close>

definition none_text :: "string option \<Rightarrow> string" where
  "none_text v = (case v of Some x \<Rightarrow> x | None \<Rightarrow> ''None'')"

text \<open>\<open>random.randint(a, b)\<close>, from a stream of numbers.\<close>

definition randint :: "nat \<Rightarrow> nat \<Rightarrow> board \<Rightarrow> nat \<times> board" where
  "randint a b s =
     (case tags s of [] \<Rightarrow> (a, s) | t # ts \<Rightarrow> (a + t mod (Suc b - a), s\<lparr>tags := ts\<rparr>))"

definition texts :: "(nat \<times> byte) list \<Rightarrow> string" where
  "texts ds = decode_text (map snd ds)"

lemma take_takeWhile_le: "n \<le> length (takeWhile P xs) \<Longrightarrow> take n (takeWhile P xs) = take n xs"
  by (induction xs arbitrary: n) (auto simp: take_Cons' split: if_splits)

lemma takeWhile_append_drop: "takeWhile P xs @ drop (length (takeWhile P xs)) xs = xs"
  by (metis dropWhile_eq_drop takeWhile_dropWhile_id)

lemma dropWhile_above: "sorted (map fst xs) \<Longrightarrow> list_all (\<lambda>x. c \<le> fst x) (dropWhile (\<lambda>x. fst x \<le> c) xs)"
  by (induction xs) (auto simp: list_all_iff)

lemma take_take_takeWhile: "take (length (take n (takeWhile P xs))) xs = take n (takeWhile P xs)"
proof (cases "length (takeWhile P xs) \<le> n")
  case True
  then show ?thesis using take_takeWhile_le [of "length (takeWhile P xs)" P xs] by simp
next
  case False
  then show ?thesis using take_takeWhile_le [of n P xs] by (simp add: min_def)
qed

lemma dropWhile_suffix: "\<exists>a. xs = a @ dropWhile P xs"
  by (metis takeWhile_dropWhile_id)

lemma sorted_suffix: "sorted (map fst (ds @ xs)) \<Longrightarrow> sorted (map fst xs)"
  by (simp add: sorted_append)

section \<open>Reading until a pattern\<close>

text \<open>
  What the loops of \<open>rd_until\<close> share: a read takes a prefix of what arrives, lasts at most 300 ms, makes
  progress in time or in input, and leaves nothing behind that arrived before it returned; the loop
  reads until the pattern matches or the deadline is past.
\<close>

locale timed_reader =
  fixes rd1 :: "board \<Rightarrow> bytes \<times> board"
    and loop :: "(string \<Rightarrow> bool) \<Rightarrow> nat \<Rightarrow> bytes \<Rightarrow> board \<Rightarrow> bytes \<times> board"
  assumes loop_step: "loop pat e b s =
      (if clock s < e
       then let r = rd1 s in if pat (decode_text (b @ fst r)) then (b @ fst r, snd r) else loop pat e (b @ fst r) (snd r)
       else (b, s))"
    and takes: "rd1 s = (d, s') \<Longrightarrow> \<exists>ds. inbound s = ds @ inbound s' \<and> d = map snd ds"
    and untouched: "rd1 s = (d, s') \<Longrightarrow> outbound s' = outbound s \<and> tags s' = tags s \<and> shown s' = shown s"
    and lasts: "rd1 s = (d, s') \<Longrightarrow> clock s \<le> clock s' \<and> clock s' \<le> clock s + 300"
    and progress: "clock s < e \<Longrightarrow>
      e - clock (snd (rd1 s)) + length (inbound (snd (rd1 s))) < e - clock s + length (inbound s)"
    and left: "rd1 s = (d, s') \<Longrightarrow> sorted (map fst (inbound s)) \<Longrightarrow> clock s < clock s' \<Longrightarrow>
      list_all (\<lambda>x. clock s' \<le> fst x) (inbound s')"
begin

lemma loop_spec:
  "loop pat e b s = (b', s') \<Longrightarrow>
     \<exists>ds. inbound s = ds @ inbound s' \<and> b' = b @ map snd ds
        \<and> outbound s' = outbound s \<and> tags s' = tags s \<and> shown s' = shown s
        \<and> clock s \<le> clock s' \<and> clock s' \<le> max (clock s) (e + 300)
        \<and> (pat (decode_text b') \<or> e \<le> clock s')
        \<and> (clock s < e \<longrightarrow> sorted (map fst (inbound s)) \<longrightarrow>
             pat (decode_text b') \<or> list_all (\<lambda>x. e \<le> fst x) (inbound s'))"
proof (induction "e - clock s + length (inbound s)" arbitrary: b s b' s' rule: less_induct)
  case less
  show ?case
  proof (cases "clock s < e")
    case False
    then have "b' = b" "s' = s" using less.prems by (simp_all add: loop_step [of pat e b s])
    then show ?thesis using False by (intro exI [of _ "[]"]) simp
  next
    case True
    obtain d s1 where r: "rd1 s = (d, s1)" by (cases "rd1 s")
    obtain us where us: "inbound s = us @ inbound s1" "d = map snd us" using takes [OF r] by blast
    have c1: "clock s \<le> clock s1" "clock s1 \<le> clock s + 300" using lasts [OF r] by auto
    show ?thesis
    proof (cases "pat (decode_text (b @ d))")
      case True
      then have "b' = b @ d" "s' = s1" using less.prems \<open>clock s < e\<close> r by (simp_all add: loop_step [of pat e b s])
      then show ?thesis using us c1 untouched [OF r] True \<open>clock s < e\<close> by (intro exI [of _ us]) auto
    next
      case False
      then have l: "loop pat e (b @ d) s1 = (b', s')"
        using less.prems \<open>clock s < e\<close> r by (simp add: loop_step [of pat e b s])
      have m: "e - clock s1 + length (inbound s1) < e - clock s + length (inbound s)"
        using progress [OF True] r by simp
      obtain vs where vs: "inbound s1 = vs @ inbound s'" "b' = (b @ d) @ map snd vs"
        "outbound s' = outbound s1" "tags s' = tags s1" "shown s' = shown s1"
        "clock s1 \<le> clock s'" "clock s' \<le> max (clock s1) (e + 300)" "pat (decode_text b') \<or> e \<le> clock s'"
        and stop: "clock s1 < e \<Longrightarrow> sorted (map fst (inbound s1)) \<Longrightarrow>
             pat (decode_text b') \<or> list_all (\<lambda>x. e \<le> fst x) (inbound s')"
        using less.hyps [OF m l] by blast
      have "pat (decode_text b') \<or> list_all (\<lambda>x. e \<le> fst x) (inbound s')" if sorted: "sorted (map fst (inbound s))"
      proof (cases "clock s1 < e")
        case True
        have "sorted (map fst (inbound s1))" using sorted us(1) sorted_suffix by metis
        then show ?thesis using stop True by blast
      next
        case False
        then have "s' = s1" using l by (simp add: loop_step [of pat e "b @ d" s1])
        moreover have "list_all (\<lambda>x. clock s1 \<le> fst x) (inbound s1)"
          using left [OF r sorted] \<open>clock s < e\<close> False by simp
        ultimately show ?thesis using False by (auto simp: list_all_iff)
      qed
      then show ?thesis using us vs c1 untouched [OF r] \<open>clock s < e\<close>
        by (intro exI [of _ "us @ vs"]) auto
    qed
  qed
qed

end

section \<open>What a channel promises\<close>

locale reply_channel =
  fixes rd :: "(string \<Rightarrow> bool) \<Rightarrow> nat \<Rightarrow> 's \<Rightarrow> string \<times> 's"
    and pend :: "'s \<Rightarrow> (nat \<times> byte) list"
    and now :: "'s \<Rightarrow> nat"
    and clean :: "string \<Rightarrow> string"
  assumes clean_append: "clean (x @ y) = clean x @ clean y"
    and clean_plain: "CHR 0x00 \<notin> set x \<Longrightarrow> clean x = x"
    and rd_takes: "rd P w s = (out, s') \<Longrightarrow> \<exists>ds. pend s = ds @ pend s' \<and> out = clean (texts ds)"
    and rd_waits: "rd P w s = (out, s') \<Longrightarrow> 0 < w \<Longrightarrow> sorted (map fst (pend s)) \<Longrightarrow>
       pend s = ds @ pend s' \<Longrightarrow> P (texts ds) \<or> list_all (\<lambda>x. now s + w \<le> fst x) (pend s')"
    and rd_time: "rd P w s = (out, s') \<Longrightarrow> now s \<le> now s' \<and> now s' \<le> now s + w + 300"

lemma texts_ascii:
  "list_all (\<lambda>x. snd x < 128) xs \<Longrightarrow> texts (xs @ ys) = map (\<lambda>x. char_of (unat (snd x))) xs @ texts ys"
  unfolding texts_def by (induction xs) auto

context reply_channel begin

text \<open>
  Something that is found in a text and in all its extensions alike, and whose bytes arrive before the
  deadline, is found in what \<open>rd\<close> returns.
\<close>

lemma answered:
  assumes stable: "\<And>x v z. srch x = Some v \<Longrightarrow> srch (x @ z) = Some v"
    and rd: "rd (\<lambda>x. srch x \<noteq> None) w s = (out, s')"
    and w: "0 < w" and sorted: "sorted (map fst (pend s))"
    and pend: "pend s = xs @ ys" and timely: "list_all (\<lambda>x. fst x < now s + w) xs"
    and plain: "list_all (\<lambda>x. snd x < 128 \<and> snd x \<noteq> 0) xs"
    and found: "srch (texts xs) = Some v"
  shows "srch (out @ z) = Some v"
proof -
  obtain ds where ds: "pend s = ds @ pend s'" "out = clean (texts ds)" using rd_takes [OF rd] by blast
  have asc: "list_all (\<lambda>x. snd x < 128) xs" using plain by (simp add: list_all_iff)
  let ?chars = "map (\<lambda>x :: nat \<times> byte. char_of (unat (snd x)) :: char)"
  have split: "texts (us @ vs) = ?chars us @ texts vs" if "list_all (\<lambda>x. snd x < 128) us" for us vs
    by (rule texts_ascii [OF that])
  have whole: "texts us = ?chars us" if "list_all (\<lambda>x. snd x < 128) us" for us
    using split [OF that, of "[]"] by (simp add: texts_def)
  have nonul: "clean (?chars us) = ?chars us" if "set us \<subseteq> set xs" for us
  proof (rule clean_plain)
    have "char_of (unat (snd x)) \<noteq> CHR 0x00" if "x \<in> set xs" for x :: "nat \<times> byte"
    proof
      assume "char_of (unat (snd x)) = CHR 0x00"
      then have "(of_char (char_of (unat (snd x))) :: nat) = 0" by simp
      then have "unat (snd x) = 0" by simp
      then show False using plain that by (auto simp: list_all_iff unat_eq_0)
    qed
    then show "CHR 0x00 \<notin> set (?chars us)" using that by fastforce
  qed
  consider zs where "ds = xs @ zs" | us where "xs = ds @ us" "us \<noteq> []"
    using ds(1) pend by (metis append_Nil2 append_eq_append_conv2)
  then show ?thesis
  proof cases
    case 1
    have "out = ?chars xs @ clean (texts zs)"
      using ds(2) 1 split [OF asc] nonul [of xs] by (simp add: clean_append)
    then show ?thesis using found stable [of "?chars xs" v] whole [OF asc] by simp
  next
    case 2
    have "pend s' = us @ ys" using ds(1) pend 2(1) by simp
    then have "\<not> list_all (\<lambda>x. now s + w \<le> fst x) (pend s')"
      using 2 timely by (cases us) auto
    then obtain v' where v': "srch (texts ds) = Some v'"
      using rd_waits [OF rd w sorted ds(1)] by auto
    have d: "list_all (\<lambda>x. snd x < 128) ds" using asc 2(1) by simp
    have "out = texts ds" using ds(2) whole [OF d] nonul [of ds] 2(1) by simp
    moreover have "v' = v"
      using stable [OF v', of "texts us"] found 2(1) split [OF d, of us] whole [OF d] by simp
    ultimately show ?thesis using stable [OF v'] by simp
  qed
qed

end

end
