(* ===== verification/BoardRepl.thy ===== *)
theory BoardRepl
  imports ReplChannel
begin

text \<open>
  The serial drivers \<open>docs/reel-on-zero/serial-*.py\<close>: thirty-one files that begin with the same
  functions and then run a fixed list of forms on the board.  \<open>rd_until\<close>, \<open>q\<close>, \<open>ev\<close> and \<open>raw\<close> are the
  functions of those names, \<open>ready\<close> is the loop that resynchronises the reader, \<open>step\<close> the statements a
  driver is made of, and \<open>drive\<close> the program around a list of them.
\<close>

section \<open>The functions\<close>

text \<open>
  \<open>s.read(n)\<close> of pyserial: it returns when \<open>n\<close> bytes are there or the timeout is over.
\<close>

definition serial_read :: "nat \<Rightarrow> nat \<Rightarrow> board \<Rightarrow> bytes \<times> board" where
  "serial_read n timeout s =
     (let avail = takeWhile (\<lambda>x. fst x \<le> clock s + timeout) (inbound s)
      in if length avail < n
         then (map snd avail, s\<lparr>clock := clock s + timeout, inbound := drop (length avail) (inbound s)\<rparr>)
         else (map snd (take n avail),
               s\<lparr>clock := max (clock s) (fst (last (take n avail))), inbound := drop n (inbound s)\<rparr>))"

definition reset_input_buffer :: "board \<Rightarrow> board" where
  "reset_input_buffer s = s\<lparr>inbound := dropWhile (\<lambda>x. fst x \<le> clock s) (inbound s)\<rparr>"

lemma serial_read_less:
  "0 < n \<Longrightarrow> 0 < timeout \<Longrightarrow> clock s < e \<Longrightarrow>
     e - clock (snd (serial_read n timeout s)) + length (inbound (snd (serial_read n timeout s)))
       < e - clock s + length (inbound s)"
proof -
  assume a: "0 < n" "0 < timeout" "clock s < e"
  let ?avail = "takeWhile (\<lambda>x. fst x \<le> clock s + timeout) (inbound s)"
  have "length ?avail \<le> length (inbound s)" by (rule length_takeWhile_le)
  then show ?thesis using a by (auto simp: serial_read_def Let_def)
qed

function rd_loop :: "(string \<Rightarrow> bool) \<Rightarrow> nat \<Rightarrow> bytes \<Rightarrow> board \<Rightarrow> bytes \<times> board" where
  "rd_loop pat e b s =
     (if clock s < e
      then let r = serial_read 8192 300 s
           in if pat (decode_text (b @ fst r)) then (b @ fst r, snd r) else rd_loop pat e (b @ fst r) (snd r)
      else (b, s))"
  by pat_completeness auto
termination
  by (relation "measure (\<lambda>(pat, e, b, s). e - clock s + length (inbound s))", simp)
    (use serial_read_less [of 8192 300] in simp)

declare rd_loop.simps [simp del]

definition drop_nul :: "string \<Rightarrow> string" where
  "drop_nul x = filter (\<lambda>c. c \<noteq> CHR 0x00) x"

definition rd_until :: "(string \<Rightarrow> bool) \<Rightarrow> nat \<Rightarrow> board \<Rightarrow> string \<times> board" where
  "rd_until pat t s = (let (b, s) = rd_loop pat (clock s + t) [] s in (drop_nul (decode_text b), s))"

text \<open>\<open>for ch in x: s.write(ch.encode()); time.sleep(0.006)\<close>\<close>

definition type_out :: "string \<Rightarrow> board \<Rightarrow> board" where
  "type_out x s = fold (\<lambda>ch. emit 6 (utf8_char ch)) x s"

definition q :: "string \<Rightarrow> nat \<Rightarrow> board \<Rightarrow> (string option \<times> string) \<times> board" where
  "q form w s =
     (let (t, s) = randint 1000 9999 s;
          s = type_out (tagged t form) (reset_input_buffer s);
          (out, s) = rd_until (\<lambda>x. reply t x \<noteq> None) w s
      in ((reply t (out @ [nl]), out), s))"

definition ev :: "string \<Rightarrow> nat \<Rightarrow> board \<Rightarrow> string option \<times> board" where
  "ev form w s =
     (let ((v, out), s) = q form w s
      in (v, display (''  '' @ ljust 50 (take 50 form) @ '' => '' @
                (case v of Some x \<Rightarrow> x | None \<Rightarrow> ''?? '' @ last_n 120 (strip out))) s))"

definition probe :: string where "probe = ''(+ 21 21)''"

text \<open>The loop of at most \<open>n\<close> attempts; true when the \<open>else\<close> branch is not taken.\<close>

fun ready :: "nat \<Rightarrow> board \<Rightarrow> bool \<times> board" where
  "ready 0 s = (False, s)"
| "ready (Suc n) s =
     (let s = nap 600 (type_out resync s); ((v, _), s) = q probe 4000 s
      in if v = Some ''42'' then (True, s) else ready n s)"

definition raw :: "string \<Rightarrow> nat \<Rightarrow> board \<Rightarrow> string \<times> board" where
  "raw x settle s = rd_until never settle (type_out (x @ [CHR 0x0D, nl]) (reset_input_buffer s))"

text \<open>
  The statements of a driver: an acknowledged form with its waiting time, a form sent as it is, a drain,
  a line of output, a sleep, and a camera command, which takes some time and does not use the port.
\<close>

datatype step =
    is_Ev: Ev string nat
  | Raw string nat
  | Drain nat
  | Say string
  | Sleep nat
  | Camera nat

fun run_step :: "step \<Rightarrow> board \<Rightarrow> board" where
  "run_step (Ev form w) s = snd (ev form w s)"
| "run_step (Raw x settle) s = snd (raw x settle s)"
| "run_step (Drain t) s = snd (rd_until never t s)"
| "run_step (Say x) s = display x s"
| "run_step (Sleep ms) s = nap ms s"
| "run_step (Camera ms) s = nap ms s"

definition drive :: "step list \<Rightarrow> board \<Rightarrow> nat \<times> board" where
  "drive script s =
     (let s = reset_input_buffer s; (ok, s) = ready 5 s
      in if \<not> ok then (1, display ''SERIAL REPL NOT READY'' s)
         else (0, fold run_step script (display ''SERIAL READY'' s)))"

section \<open>Reading\<close>

lemma inbound_read:
  "serial_read n timeout s = (d, s') \<Longrightarrow>
     \<exists>ds. inbound s = ds @ inbound s' \<and> d = map snd ds"
proof -
  assume r: "serial_read n timeout s = (d, s')"
  let ?P = "\<lambda>x. fst x \<le> clock s + timeout"
  show ?thesis
  proof (cases "length (takeWhile ?P (inbound s)) < n")
    case True
    then show ?thesis using r takeWhile_append_drop [of ?P "inbound s"]
      by (intro exI [of _ "takeWhile ?P (inbound s)"]) (auto simp: serial_read_def Let_def)
  next
    case False
    then show ?thesis using r take_takeWhile_le [of n ?P "inbound s"]
      by (intro exI [of _ "take n (inbound s)"]) (auto simp: serial_read_def Let_def)
  qed
qed

lemma clock_read:
  "serial_read n timeout s = (d, s') \<Longrightarrow> 0 < n \<Longrightarrow> clock s \<le> clock s' \<and> clock s' \<le> clock s + timeout"
proof -
  assume r: "serial_read n timeout s = (d, s')" and n: "0 < n"
  let ?avail = "takeWhile (\<lambda>x. fst x \<le> clock s + timeout) (inbound s)"
  have "fst (last (take n ?avail)) \<le> clock s + timeout" if "\<not> length ?avail < n"
  proof -
    have "take n ?avail \<noteq> []" using that n by auto
    then have "last (take n ?avail) \<in> set ?avail" using last_in_set in_set_takeD by metis
    then show ?thesis using set_takeWhileD by metis
  qed
  then show ?thesis using r by (auto simp: serial_read_def Let_def split: if_splits)
qed

text \<open>Nothing that arrived by the end of a read is left, unless the read was cut short.\<close>

lemma left_read:
  "serial_read n timeout s = (d, s') \<Longrightarrow> 0 < n \<Longrightarrow> sorted (map fst (inbound s)) \<Longrightarrow>
     clock s < clock s' \<Longrightarrow> list_all (\<lambda>x. clock s' \<le> fst x) (inbound s')"
proof -
  assume r: "serial_read n timeout s = (d, s')" and n: "0 < n" and sorted: "sorted (map fst (inbound s))"
    and adv: "clock s < clock s'"
  let ?avail = "takeWhile (\<lambda>x. fst x \<le> clock s + timeout) (inbound s)"
  show ?thesis
  proof (cases "length ?avail < n")
    case True
    have rest: "drop (length ?avail) (inbound s) = dropWhile (\<lambda>x. fst x \<le> clock s + timeout) (inbound s)"
      by (simp add: dropWhile_eq_drop)
    then show ?thesis using r True rest dropWhile_above [OF sorted, of "clock s + timeout"] by (auto simp: serial_read_def Let_def)
  next
    case False
    have l: "n \<le> length (inbound s)" using False length_takeWhile_le [of _ "inbound s"] by (meson le_trans not_less)
    have t: "take n ?avail = take n (inbound s)"
      using False by (intro take_takeWhile_le) simp
    have s': "clock s' = fst (last (take n (inbound s)))" "inbound s' = drop n (inbound s)"
      using r False adv t by (auto simp: serial_read_def Let_def max_def split: if_splits)
    have "sorted (map fst (take n (inbound s) @ drop n (inbound s)))" using sorted by simp
    moreover have "last (take n (inbound s)) \<in> set (take n (inbound s))" using n l by (intro last_in_set) auto
    ultimately show ?thesis using s' unfolding map_append sorted_append list_all_iff by auto
  qed
qed

lemma untouched_read:
  "serial_read n timeout s = (d, s') \<Longrightarrow>
     outbound s' = outbound s \<and> tags s' = tags s \<and> shown s' = shown s"
  by (auto simp: serial_read_def Let_def split: if_splits)

interpretation serial_reader: timed_reader "serial_read 8192 300" rd_loop
  by unfold_locales (rule rd_loop.simps, erule inbound_read, erule untouched_read, erule clock_read, simp,
    rule serial_read_less, simp_all add: left_read)

lemma drop_nul_append: "drop_nul (x @ y) = drop_nul x @ drop_nul y"
  by (simp add: drop_nul_def)

lemma drop_nul_plain: "CHR 0x00 \<notin> set x \<Longrightarrow> drop_nul x = x"
  unfolding drop_nul_def by (induction x) auto

lemma rd_until_spec:
  assumes "rd_until pat w s = (out, s')"
  shows "\<exists>ds. inbound s = ds @ inbound s' \<and> out = drop_nul (texts ds)"
    and "outbound s' = outbound s" and "tags s' = tags s" and "shown s' = shown s"
    and "clock s \<le> clock s'" and "clock s' \<le> clock s + w + 300"
  using assms serial_reader.loop_spec [of pat "clock s + w" "[]" s] unfolding rd_until_def texts_def
  by (auto split: prod.splits)

interpretation serial: reply_channel rd_until inbound clock drop_nul
proof
  fix P :: "string \<Rightarrow> bool" and w s out s' ds
  assume r: "rd_until P w s = (out, s')" "0 < w" "sorted (map fst (inbound s))" "inbound s = ds @ inbound s'"
  obtain b where b: "rd_loop P (clock s + w) [] s = (b, s')" "out = drop_nul (decode_text b)"
    using r(1) by (auto simp: rd_until_def split: prod.splits)
  obtain us where "inbound s = us @ inbound s'" "b = map snd us"
    "P (decode_text b) \<or> list_all (\<lambda>x. clock s + w \<le> fst x) (inbound s')"
    using serial_reader.loop_spec [OF b(1)] r(2,3) by auto
  then show "P (texts ds) \<or> list_all (\<lambda>x. clock s + w \<le> fst x) (inbound s')"
    using r(4) by (simp add: texts_def)
qed (use rd_until_spec in \<open>auto simp: drop_nul_append drop_nul_plain\<close>)


section \<open>Sending\<close>

lemma outbound_emit [simp]: "outbound (emit ms b s) = outbound s @ b"
  by (simp add: emit_def)

lemma outbound_read [simp]: "outbound (snd (serial_read n timeout s)) = outbound s"
  using untouched_read [of n timeout s] by (metis prod.collapse)

interpretation line: transmitter outbound "emit 0" "serial_read 8192 300"
  by unfold_locales simp_all

lemma type_out_effect:
  "type_out x s = s\<lparr>outbound := outbound s @ encode x, clock := clock s + 6 * length x\<rparr>"
  unfolding type_out_def encode_def by (induction x arbitrary: s) (simp_all add: emit_def)

lemma encode_append [simp]: "encode (x @ y) = encode x @ encode y"
  by (simp add: encode_def)

definition tag_of :: "nat list \<Rightarrow> nat" where
  "tag_of ts = (case ts of [] \<Rightarrow> 1000 | t # _ \<Rightarrow> 1000 + t mod 9000)"

lemma tag_of_range: "1000 \<le> tag_of ts \<and> tag_of ts \<le> 9999"
proof -
  have "t mod 9000 \<le> 8999" for t :: nat
    using mod_less_divisor [of 9000 t] by linarith
  then show ?thesis by (auto simp: tag_of_def split: list.splits intro: le_trans add_le_mono)
qed

lemma randint_tag: "randint 1000 9999 s = (tag_of (tags s), s\<lparr>tags := tl (tags s)\<rparr>)"
  by (cases "tags s") (simp_all add: randint_def tag_of_def)

lemma length_dec4: "1000 \<le> n \<Longrightarrow> n \<le> 9999 \<Longrightarrow> length (dec n) = 4"
proof -
  assume n: "1000 \<le> n" "n \<le> 9999"
  have small: "length (dec m) = 1" if "m < 10" for m using that by (simp add: digits_of.simps [of 97 10 m])
  have more: "length (dec m) = Suc (length (dec (m div 10)))" if "10 \<le> m" for m
    using that by (simp add: digits_of.simps [of 97 10 m])
  have "n div 10 div 10 div 10 < 10" "10 \<le> n div 10 div 10" "10 \<le> n div 10" using n by auto
  then show ?thesis using n small [of "n div 10 div 10 div 10"] more [of n] more [of "n div 10"]
      more [of "n div 10 div 10"] by simp
qed

lemma length_tagged: "length (tagged (tag_of ts) form) = length form + 14"
  using length_dec4 [of "tag_of ts"] tag_of_range [of ts] by (simp add: tagged_def)

text \<open>The state in which \<open>q\<close> starts to listen.\<close>

definition listening :: "string \<Rightarrow> board \<Rightarrow> board" where
  "listening form s =
     s\<lparr>outbound := outbound s @ encode (tagged (tag_of (tags s)) form), tags := tl (tags s),
       clock := clock s + 6 * (length form + 14),
       inbound := dropWhile (\<lambda>x. fst x \<le> clock s) (inbound s)\<rparr>"

lemma listening_eq:
  "type_out (tagged (tag_of (tags s)) form) (reset_input_buffer (s\<lparr>tags := tl (tags s)\<rparr>)) = listening form s"
  by (cases s) (simp add: type_out_effect reset_input_buffer_def listening_def length_tagged)

lemma q_eq:
  "q form w s =
     (let t = tag_of (tags s); (out, s') = rd_until (\<lambda>x. reply t x \<noteq> None) w (listening form s)
      in ((reply t (out @ [nl]), out), s'))"
  unfolding q_def randint_tag Let_def case_prod_beta fst_conv snd_conv listening_eq by simp

lemma listening_simps [simp]:
  "outbound (listening form s) = outbound s @ encode (tagged (tag_of (tags s)) form)"
  "tags (listening form s) = tl (tags s)" "shown (listening form s) = shown s"
  "clock (listening form s) = clock s + 6 * (length form + 14)"
  "inbound (listening form s) = dropWhile (\<lambda>x. fst x \<le> clock s) (inbound s)"
  by (simp_all add: listening_def)

lemma q_listens:
  assumes "q form w s = (r, s')"
  shows "rd_until (\<lambda>x. reply (tag_of (tags s)) x \<noteq> None) w (listening form s) = (snd r, s')"
    and "fst r = reply (tag_of (tags s)) (snd r @ [nl])"
proof -
  obtain out s1 where rd: "rd_until (\<lambda>x. reply (tag_of (tags s)) x \<noteq> None) w (listening form s) = (out, s1)"
    by (cases "rd_until (\<lambda>x. reply (tag_of (tags s)) x \<noteq> None) w (listening form s)")
  have "r = (reply (tag_of (tags s)) (out @ [nl]), out)" "s' = s1"
    using assms unfolding q_eq Let_def rd prod.case by blast+
  then show "rd_until (\<lambda>x. reply (tag_of (tags s)) x \<noteq> None) w (listening form s) = (snd r, s')"
    and "fst r = reply (tag_of (tags s)) (snd r @ [nl])" using rd by simp_all
qed

lemma q_effects:
  assumes "q form w s = (r, s')"
  shows "outbound s' = outbound s @ encode (tagged (tag_of (tags s)) form)"
    and "tags s' = tl (tags s)" and "shown s' = shown s"
    and "clock s' \<le> clock s + 6 * (length form + 14) + w + 300"
  using rd_until_spec(2-4,6) [OF q_listens(1) [OF assms]] by simp_all

lemma ev_effects:
  assumes "ev form w s = (v, s')"
  shows "outbound s' = outbound s @ encode (tagged (tag_of (tags s)) form)"
    and "tags s' = tl (tags s)"
    and "clock s' \<le> clock s + 6 * (length form + 14) + w + 300"
proof -
  obtain r s1 where "q form w s = (r, s1)" by (cases "q form w s")
  with assms q_effects [OF this]
  show "outbound s' = outbound s @ encode (tagged (tag_of (tags s)) form)"
    and "tags s' = tl (tags s)"
    and "clock s' \<le> clock s + 6 * (length form + 14) + w + 300"
    unfolding ev_def by (auto simp: display_def split: prod.splits)
qed

text \<open>What a script sends, and the longest it can take, whatever the board answers.\<close>

fun script_text :: "step list \<Rightarrow> nat list \<Rightarrow> string" where
  "script_text [] ts = []"
| "script_text (Ev form w # xs) ts = tagged (tag_of ts) form @ script_text xs (tl ts)"
| "script_text (Raw x settle # xs) ts = x @ [CHR 0x0D, nl] @ script_text xs ts"
| "script_text (_ # xs) ts = script_text xs ts"

fun step_time :: "step \<Rightarrow> nat" where
  "step_time (Ev form w) = 6 * (length form + 14) + w + 300"
| "step_time (Raw x settle) = 6 * (length x + 2) + settle + 300"
| "step_time (Drain t) = t + 300"
| "step_time (Say x) = 0"
| "step_time (Sleep ms) = ms"
| "step_time (Camera ms) = ms"

lemma raw_effects:
  assumes "raw x settle s = (out, s')"
  shows "outbound s' = outbound s @ encode (x @ [CHR 0x0D, nl])" and "tags s' = tags s"
    and "clock s' \<le> clock s + 6 * (length x + 2) + settle + 300"
  using assms rd_until_spec [of never settle "type_out (x @ [CHR 0x0D, nl]) (reset_input_buffer s)" out s']
  unfolding raw_def by (auto simp: type_out_effect reset_input_buffer_def)

lemma run_step_wire:
  "outbound (run_step c s) @ encode (script_text xs (tags (run_step c s)))
     = outbound s @ encode (script_text (c # xs) (tags s))"
proof (cases c)
  case (Ev form w)
  obtain v s' where "ev form w s = (v, s')" by (cases "ev form w s")
  then show ?thesis using ev_effects [of form w s v s'] Ev by simp
next
  case (Raw x settle)
  obtain v s' where "raw x settle s = (v, s')" by (cases "raw x settle s")
  then show ?thesis using raw_effects [of x settle s v s'] Raw by (simp only: run_step.simps snd_conv script_text.simps encode_append append.assoc)
next
  case (Drain t)
  obtain v s' where "rd_until never t s = (v, s')" by (cases "rd_until never t s")
  then show ?thesis using rd_until_spec(2,3) [of never t s v s'] Drain by simp
qed (simp_all add: display_def nap_def)

lemma run_step_time: "clock (run_step c s) \<le> clock s + step_time c"
proof (cases c)
  case (Ev form w)
  obtain v s' where "ev form w s = (v, s')" by (cases "ev form w s")
  then show ?thesis using ev_effects(3) [of form w s v s'] Ev by simp
next
  case (Raw x settle)
  obtain v s' where "raw x settle s = (v, s')" by (cases "raw x settle s")
  then show ?thesis using raw_effects(3) [of x settle s v s'] Raw by simp
next
  case (Drain t)
  obtain v s' where "rd_until never t s = (v, s')" by (cases "rd_until never t s")
  then show ?thesis using rd_until_spec(6) [of never t s v s'] Drain by simp
qed (simp_all add: display_def nap_def)

lemma reset_simps [simp]:
  "outbound (reset_input_buffer s) = outbound s" "tags (reset_input_buffer s) = tags s"
  "shown (reset_input_buffer s) = shown s" "clock (reset_input_buffer s) = clock s"
  "inbound (reset_input_buffer s) = dropWhile (\<lambda>x. fst x \<le> clock s) (inbound s)"
  by (simp_all add: reset_input_buffer_def)

lemma display_simps [simp]:
  "outbound (display x s) = outbound s" "tags (display x s) = tags s" "clock (display x s) = clock s"
  "inbound (display x s) = inbound s"
  by (simp_all add: display_def)

fun handshakes :: "string \<Rightarrow> nat \<Rightarrow> nat list \<Rightarrow> string" where
  "handshakes pre 0 ts = []"
| "handshakes pre (Suc n) ts = pre @ tagged (tag_of ts) probe @ handshakes pre n (tl ts)"

abbreviation handshake :: "nat \<Rightarrow> nat list \<Rightarrow> string" where
  "handshake \<equiv> handshakes resync"

text \<open>What \<open>q\<close> hears: a segment of what arrives, after everything that had arrived before.\<close>

lemma q_hears:
  assumes "q form w s = (r, s')"
  shows "\<exists>ds. dropWhile (\<lambda>x. fst x \<le> clock s) (inbound s) = ds @ inbound s'
     \<and> snd r = drop_nul (texts ds) \<and> fst r = reply (tag_of (tags s)) (snd r @ [nl])"
  using rd_until_spec(1) [OF q_listens(1) [OF assms]] q_listens(2) [OF assms] by simp

definition heard :: "nat \<Rightarrow> string \<Rightarrow> (nat \<times> byte) list \<Rightarrow> bool" where
  "heard t v xs \<longleftrightarrow> (\<exists>a ds b. xs = a @ ds @ b \<and> is_reply t v (drop_nul (texts ds) @ [nl]))"

abbreviation heard_42 :: "nat \<Rightarrow> (nat \<times> byte) list \<Rightarrow> bool" where
  "heard_42 t xs \<equiv> heard t ''42'' xs"

lemma heard_prepend: "heard t v xs \<Longrightarrow> heard t v (a @ xs)"
  unfolding heard_def by (metis append.assoc)

lemma q_heard:
  assumes "q form w s = (r, s')"
  shows "case fst r of Some v \<Rightarrow> heard (tag_of (tags s)) v (inbound s) | None \<Rightarrow> True"
    and "\<exists>a. inbound s = a @ inbound s'"
proof -
  obtain a ds where ds: "inbound s = a @ ds @ inbound s'" "snd r = drop_nul (texts ds)"
    "fst r = reply (tag_of (tags s)) (snd r @ [nl])"
    using q_hears [OF assms] dropWhile_suffix [of "inbound s"] by metis
  then show "case fst r of Some v \<Rightarrow> heard (tag_of (tags s)) v (inbound s) | None \<Rightarrow> True"
  proof (cases "fst r")
    case (Some v)
    then have "is_reply (tag_of (tags s)) v (drop_nul (texts ds) @ [nl])" using ds(2,3) reply_sound by metis
    then have "heard (tag_of (tags s)) v (inbound s)" unfolding heard_def using ds(1) by blast
    then show ?thesis using Some by simp
  qed simp
  show "\<exists>a. inbound s = a @ inbound s'" using ds(1) by (intro exI [of _ "a @ ds"]) simp
qed

lemma ev_heard:
  assumes "ev form w s = (v, s')"
  shows "case v of Some x \<Rightarrow> heard (tag_of (tags s)) x (inbound s) | None \<Rightarrow> True"
    and "\<exists>a. inbound s = a @ inbound s'"
proof -
  obtain r s1 where "q form w s = (r, s1)" by (cases "q form w s")
  with assms q_heard [OF this]
  show "case v of Some x \<Rightarrow> heard (tag_of (tags s)) x (inbound s) | None \<Rightarrow> True"
    and "\<exists>a. inbound s = a @ inbound s'"
    unfolding ev_def by (auto simp: display_def split: prod.splits)
qed

lemma run_step_inbound: "\<exists>a. inbound s = a @ inbound (run_step c s)"
proof (cases c)
  case (Ev form w)
  then show ?thesis using ev_heard(2) [of form w s] by (cases "ev form w s") auto
next
  case (Raw x settle)
  obtain out s' where r: "raw x settle s = (out, s')" by (cases "raw x settle s")
  let ?s = "type_out (x @ [CHR 0x0D, nl]) (reset_input_buffer s)"
  have "\<exists>ds. inbound ?s = ds @ inbound s'" using r rd_until_spec(1) [of never settle ?s out s'] by (auto simp: raw_def)
  moreover have "inbound ?s = dropWhile (\<lambda>x. fst x \<le> clock s) (inbound s)" by (simp add: type_out_effect reset_input_buffer_def)
  ultimately show ?thesis using dropWhile_suffix [of "inbound s"] Raw r by (simp, metis append.assoc)
next
  case (Drain t)
  obtain out s' where "rd_until never t s = (out, s')" by (cases "rd_until never t s")
  then show ?thesis using rd_until_spec(1) [of never t s out s'] Drain by auto
qed (auto simp: display_def nap_def)

lemma script_text_append:
  "script_text (xs @ ys) ts = script_text xs ts @ script_text ys (drop (length (filter is_Ev xs)) ts)"
  by (induction xs ts rule: script_text.induct) (simp_all add: drop_Suc)

lemma run_step_tags: "tags (run_step c s) = (if is_Ev c then tl (tags s) else tags s)"
proof (cases c)
  case (Ev form w)
  then show ?thesis using ev_effects(2) [of form w s] by (cases "ev form w s") auto
next
  case (Raw x settle)
  then show ?thesis using raw_effects(2) [of x settle s] by (cases "raw x settle s") auto
next
  case (Drain t)
  then show ?thesis using rd_until_spec(3) [of never t s] by (cases "rd_until never t s") auto
qed (simp_all add: display_def nap_def)

text \<open>
  What a way of running statements promises: each statement sends the text of a step (\<open>sends\<close>), uses up its
  tag and takes a prefix of what arrives.  A script then does.
\<close>

locale script_runner =
  fixes exec :: "'c \<Rightarrow> board \<Rightarrow> board" and sends :: "'c \<Rightarrow> step"
  assumes wire: "outbound (exec c s) @ encode (script_text xs (tags (exec c s)))
      = outbound s @ encode (script_text (sends c # xs) (tags s))"
    and tags: "tags (exec c s) = (if is_Ev (sends c) then tl (tags s) else tags s)"
    and inbound: "\<exists>a. inbound s = a @ inbound (exec c s)"
begin

lemma script_wire: "outbound (fold exec script s) = outbound s @ encode (script_text (map sends script) (tags s))"
proof (induction script arbitrary: s)
  case (Cons c xs)
  then show ?case using wire [of c s "map sends xs"] by simp
qed (simp add: encode_def)

lemma script_tags: "tags (fold exec script s) = drop (length (filter is_Ev (map sends script))) (tags s)"
proof (induction script arbitrary: s)
  case (Cons c xs)
  show ?case using Cons [of "exec c s"] tags [of c s] by (simp add: drop_Suc)
qed simp

lemma script_inbound: "\<exists>a. inbound s = a @ inbound (fold exec script s)"
proof (induction script arbitrary: s)
  case (Cons c xs)
  show ?case using inbound [of s c] Cons [of "exec c s"] by (metis append.assoc fold_simps(2))
qed simp

end

locale timed_runner = script_runner +
  assumes exec_time: "clock (exec c s) \<le> clock s + step_time (sends c)"
begin

lemma script_time: "clock (fold exec script s) \<le> clock s + sum_list (map (\<lambda>c. step_time (sends c)) script)"
proof (induction script arbitrary: s)
  case (Cons c xs)
  show ?case using exec_time [of c s] Cons [of "exec c s"] by simp
qed simp

end

interpretation runner: timed_runner run_step "\<lambda>c. c"
  by unfold_locales (rule run_step_wire, rule run_step_tags, rule run_step_inbound, rule run_step_time)

section \<open>The handshake loop\<close>

lemma length_probe [simp]: "length probe = 9"
  by (simp add: probe_def)

text \<open>
  What the loops that wait for the REPL share: an attempt sends some text and the probe under its tag, and
  it succeeds only when 42 is heard as the reply to that tag.
\<close>

locale prober =
  fixes attempt :: "board \<Rightarrow> bool \<times> board" and loop :: "nat \<Rightarrow> board \<Rightarrow> bool \<times> board" and pre :: string
  assumes loop_0: "loop 0 s = (False, s)"
    and loop_Suc: "loop (Suc n) s = (if fst (attempt s) then (True, snd (attempt s)) else loop n (snd (attempt s)))"
    and sends: "outbound (snd (attempt s)) = outbound s @ encode (pre @ tagged (tag_of (tags s)) probe)"
    and one_tag: "tags (snd (attempt s)) = tl (tags s)"
    and takes: "\<exists>a. inbound s = a @ inbound (snd (attempt s))"
    and hears: "fst (attempt s) \<Longrightarrow> heard_42 (tag_of (tags s)) (inbound s)"
begin

lemma loop_spec:
  "loop n s = (ok, s') \<Longrightarrow>
     \<exists>k. k \<le> n \<and> outbound s' = outbound s @ encode (handshakes pre k (tags s)) \<and> tags s' = drop k (tags s)
       \<and> (\<exists>a. inbound s = a @ inbound s')
       \<and> (if ok then 0 < k \<and> heard_42 (tag_of (drop (k - 1) (tags s))) (inbound s) else k = n)"
proof (induction n arbitrary: s)
  case 0
  then show ?case by (simp add: loop_0 encode_def)
next
  case (Suc n)
  obtain b s1 where t: "attempt s = (b, s1)" by (cases "attempt s")
  obtain a where a: "inbound s = a @ inbound s1" using takes [of s] t by auto
  have o1: "outbound s1 = outbound s @ encode (pre @ tagged (tag_of (tags s)) probe)" "tags s1 = tl (tags s)"
    using sends [of s] one_tag [of s] t by simp_all
  show ?case
  proof (cases b)
    case True
    then show ?thesis using Suc.prems t loop_Suc [of n s] o1 a hears [of s]
      by (intro exI [of _ 1]) (simp add: drop_Suc)
  next
    case False
    then have "loop n s1 = (ok, s')" using Suc.prems t loop_Suc [of n s] by simp
    then obtain k c where k: "k \<le> n" "outbound s' = outbound s1 @ encode (handshakes pre k (tags s1))"
      "tags s' = drop k (tags s1)" "inbound s1 = c @ inbound s'"
      "if ok then 0 < k \<and> heard_42 (tag_of (drop (k - 1) (tags s1))) (inbound s1) else k = n"
      using Suc.IH by blast
    have "drop (k - 1) (tl (tags s)) = drop k (tags s)" if "0 < k"
      using that by (cases k) (auto simp: drop_Suc)
    then have "if ok then 0 < Suc k \<and> heard_42 (tag_of (drop (Suc k - 1) (tags s))) (inbound s) else Suc k = Suc n"
      using k(5) o1(2) a heard_prepend [of _ _ "inbound s1" a] by (auto split: if_splits)
    moreover have "\<exists>a. inbound s = a @ inbound s'" using a k(4) by (intro exI [of _ "a @ c"]) simp
    ultimately show ?thesis using k(1,2,3) o1 by (intro exI [of _ "Suc k"]) (simp add: drop_Suc)
  qed
qed

text \<open>The drivers throw away what had arrived before the first attempt.\<close>

lemma opened:
  assumes "loop n (reset_input_buffer s) = (ok, s')"
  shows "\<exists>k \<le> n. outbound s' = outbound s @ encode (handshakes pre k (tags s)) \<and> tags s' = drop k (tags s)
       \<and> (\<exists>a. inbound s = a @ inbound s')
       \<and> (if ok then 0 < k \<and> heard_42 (tag_of (drop (k - 1) (tags s))) (inbound s) else k = n)"
proof -
  obtain c where c: "inbound s = c @ inbound (reset_input_buffer s)"
    using dropWhile_suffix [of "inbound s" "\<lambda>x. fst x \<le> clock s"] unfolding reset_simps by blast
  obtain k a where k: "k \<le> n" "outbound s' = outbound s @ encode (handshakes pre k (tags s))" "tags s' = drop k (tags s)"
    "inbound (reset_input_buffer s) = a @ inbound s'"
    "if ok then 0 < k \<and> heard_42 (tag_of (drop (k - 1) (tags s))) (inbound (reset_input_buffer s)) else k = n"
    using loop_spec [OF assms] unfolding reset_simps(1,2) by blast
  have "inbound s = (c @ a) @ inbound s'" using c k(4) by simp
  moreover have "if ok then 0 < k \<and> heard_42 (tag_of (drop (k - 1) (tags s))) (inbound s) else k = n"
    unfolding c using k(5) heard_prepend by (cases ok) simp_all
  ultimately show ?thesis using k(1-3) by blast
qed

end

locale timed_prober = prober +
  fixes per :: nat
  assumes attempt_time: "clock (snd (attempt s)) \<le> clock s + per"
begin

lemma loop_time: "clock (snd (loop n s)) \<le> clock s + per * n"
proof (induction n arbitrary: s)
  case 0
  then show ?case by (simp add: loop_0)
next
  case (Suc n)
  show ?case using attempt_time [of s] Suc [of "snd (attempt s)"] by (simp add: loop_Suc)
qed

end

definition ready_attempt :: "board \<Rightarrow> bool \<times> board" where
  "ready_attempt s = (let ((v, _), s) = q probe 4000 (nap 600 (type_out resync s)) in (v = Some ''42'', s))"

interpretation serial_ready: timed_prober ready_attempt ready resync 5158
proof
  fix n s
  show "ready 0 s = (False, s)" by simp
  show "ready (Suc n) s = (if fst (ready_attempt s) then (True, snd (ready_attempt s)) else ready n (snd (ready_attempt s)))"
    by (simp add: ready_attempt_def Let_def case_prod_beta)
next
  fix s
  define s1 where "s1 = nap 600 (type_out resync s)"
  obtain r s2 where r: "q probe 4000 s1 = (r, s2)" by (cases "q probe 4000 s1")
  have s1: "outbound s1 = outbound s @ encode resync" "tags s1 = tags s" "inbound s1 = inbound s" "clock s1 = clock s + 720"
    by (simp_all add: s1_def nap_def type_out_effect)
  have a: "ready_attempt s = (fst r = Some ''42'', s2)" using r by (simp add: ready_attempt_def s1_def case_prod_beta)
  show "outbound (snd (ready_attempt s)) = outbound s @ encode (resync @ tagged (tag_of (tags s)) probe)"
    "tags (snd (ready_attempt s)) = tl (tags s)" "clock (snd (ready_attempt s)) \<le> clock s + 5158"
    using q_effects [OF r] s1 a by simp_all
  show "\<exists>a. inbound s = a @ inbound (snd (ready_attempt s))" "fst (ready_attempt s) \<Longrightarrow> heard_42 (tag_of (tags s)) (inbound s)"
    using q_heard [OF r] s1 a by auto
qed

section \<open>Properties\<close>

text \<open>
  C8: What \<open>q\<close> sends and what it believes.  One line goes out, the form under a tag of four digits.  The
  text it looks at arrived after the call began, so nothing the board printed before can be taken for the
  answer; a value is returned exactly if that text holds a reply to this tag, and then it is one.
\<close>

theorem q_sound:
  "case q form w s of ((v, out), s') \<Rightarrow>
     let t = tag_of (tags s)
     in 1000 \<le> t \<and> t \<le> 9999 \<and> outbound s' = outbound s @ encode (tagged t form)
        \<and> (\<exists>ds. dropWhile (\<lambda>x. fst x \<le> clock s) (inbound s) = ds @ inbound s' \<and> out = drop_nul (texts ds))
        \<and> (case v of Some x \<Rightarrow> is_reply t x (out @ [nl]) | None \<Rightarrow> \<not> (\<exists>x. is_reply t x (out @ [nl])))"
proof -
  obtain v out s' where r: "q form w s = ((v, out), s')" by (metis surj_pair)
  have "case v of Some x \<Rightarrow> is_reply (tag_of (tags s)) x (out @ [nl])
      | None \<Rightarrow> \<not> (\<exists>x. is_reply (tag_of (tags s)) x (out @ [nl]))"
  proof (cases v)
    case None
    then show ?thesis using q_listens(2) [OF r] reply_complete [of "tag_of (tags s)" _ "out @ [nl]"] by auto
  next
    case (Some x)
    then have "reply (tag_of (tags s)) (out @ [nl]) = Some x" using q_listens(2) [OF r] by simp
    then show ?thesis using Some reply_sound by simp
  qed
  then show ?thesis using q_effects(1) [OF r] q_hears [OF r] tag_of_range [of "tags s"]
    unfolding r Let_def by auto
qed

text \<open>
  C19: A board that answers is heard.  If the bytes that arrive after the call, up to some point before the
  deadline, spell some text without the tag, then the reply with a one-line value none of whose closing
  parentheses ends a line, \<open>q\<close> returns that value, whatever follows.
\<close>

theorem q_answered:
  assumes "sorted (map fst (inbound s))" and "0 < w"
    and "dropWhile (\<lambda>x. fst x \<le> clock s) (inbound s) = xs @ ys"
    and "list_all (\<lambda>x. fst x < clock s + 6 * length (tagged (tag_of (tags s)) form) + w) xs"
    and "list_all (\<lambda>x. snd x < 128 \<and> snd x \<noteq> 0) xs"
    and "texts xs = a @ tag_prefix (tag_of (tags s)) @ v @ '')'' @ r"
    and "\<not> contains (tag_prefix (tag_of (tags s))) (butlast (a @ tag_prefix (tag_of (tags s))))"
    and "v \<noteq> []" and "nl \<notin> set v" and "no_early_close v ('')'' @ r)" and "newline_after r"
  shows "fst (fst (q form w s)) = Some v"
proof -
  obtain p s' where p: "q form w s = (p, s')" by (cases "q form w s")
  have "sorted (map fst (xs @ ys))"
    using assms(1,3) dropWhile_suffix [of "inbound s"] sorted_suffix by metis
  then have "reply (tag_of (tags s)) (snd p @ [nl]) = Some v"
    using assms reply_after_clean [of "tag_of (tags s)" a v r]
    by (intro serial.answered [OF reply_append q_listens(1) [OF p], of xs ys]) (simp_all add: length_tagged)
  then show ?thesis using p q_listens(2) [OF p] by simp
qed

definition board_sample :: board where
  "board_sample = \<lparr>clock = 0, inbound = map (Pair 200) [40, 49, 48, 48, 48, 32, 52, 50, 41, 13, 10],
     outbound = [], tags = [], shown = []\<rparr>"

lemma code_points:
  "char_of (40 :: nat) = CHR ''(''" "char_of (49 :: nat) = CHR ''1''" "char_of (48 :: nat) = CHR ''0''"
  "char_of (32 :: nat) = CHR '' ''" "char_of (52 :: nat) = CHR ''4''" "char_of (50 :: nat) = CHR ''2''"
  "char_of (41 :: nat) = CHR '')''" "char_of (13 :: nat) = CHR 0x0D" "char_of (10 :: nat) = nl"
  by code_simp+

lemma dec_1000: "dec 1000 = ''1000''"
  by (simp add: digits_of.simps digit_char_def code_points)

lemma q_answered_witness: "fst (fst (q probe 4000 board_sample)) = Some ''42''"
proof (rule q_answered [where a = "[]" and v = "''42''" and r = "[CHR 0x0D, nl]" and ys = "[]"
      and xs = "map (Pair 200) [40, 49, 48, 48, 48, 32, 52, 50, 41, 13, 10]"])
  have t: "tag_of (tags board_sample) = 1000" by (simp add: board_sample_def tag_of_def)
  show "texts (map (Pair 200) [40, 49, 48, 48, 48, 32, 52, 50, 41, 13, 10])
      = [] @ tag_prefix (tag_of (tags board_sample)) @ ''42'' @ '')'' @ [CHR 0x0D, nl]"
    unfolding t by (simp add: texts_def tag_prefix_def dec_1000 code_points)
  show "\<not> contains (tag_prefix (tag_of (tags board_sample))) (butlast ([] @ tag_prefix (tag_of (tags board_sample))))"
    unfolding t by (simp add: tag_prefix_def dec_1000 starts_with_def)
qed (simp_all add: board_sample_def tagged_def dec_1000 tag_of_def py_space_def)

text \<open>
  C11: The wire of a whole session is fixed by the script.  A driver that ends with status 0 has sent at
  most five handshakes, has heard 42 as the reply to the tag of the last of them, and has then sent every
  form of its script in order, each once and each under its tag, whatever was answered; a driver that
  ends with status 1 has sent five handshakes and no form.
\<close>

theorem drive_wire:
  "case drive script s of (st, s') \<Rightarrow>
     \<exists>k \<le> 5. if st = 0
       then outbound s' = outbound s @ encode (handshake k (tags s) @ script_text script (drop k (tags s)))
            \<and> 0 < k \<and> heard_42 (tag_of (drop (k - 1) (tags s))) (inbound s)
       else st = 1 \<and> k = 5 \<and> outbound s' = outbound s @ encode (handshake 5 (tags s))"
proof -
  obtain ok s1 where r: "ready 5 (reset_input_buffer s) = (ok, s1)"
    by (cases "ready 5 (reset_input_buffer s)")
  then show ?thesis
    using serial_ready.opened [OF r] runner.script_wire [of script "display ''SERIAL READY'' s1"]
    by (cases ok) (auto simp: drive_def Let_def)
qed

text \<open>
  C24: A session ends.  From start to end it takes at most five handshakes of 5.158 seconds and, for each
  step of the script, the typing, the waiting time given and one read timeout, even if the board is
  silent or never stops printing.
\<close>

theorem drive_time:
  "clock (snd (drive script s)) \<le> clock s + 25790 + sum_list (map step_time script)"
proof -
  obtain ok s1 where r: "ready 5 (reset_input_buffer s) = (ok, s1)"
    by (cases "ready 5 (reset_input_buffer s)")
  have "clock s1 \<le> clock s + 25790" using serial_ready.loop_time [of 5 "reset_input_buffer s"] r by simp
  then show ?thesis using r runner.script_time [of script "display ''SERIAL READY'' s1"]
    by (auto simp: drive_def Let_def)
qed


end
