(* ===== verification/PmuDrivers.thy ===== *)
theory PmuDrivers
  imports PmuStubs BoardRepl
begin

text \<open>
  The drivers that program the performance counters of the board: \<open>serial-pmu.py\<close>, \<open>serial-pmu2.py\<close>,
  \<open>serial-pmu4.py\<close> to \<open>serial-pmu6.py\<close>, \<open>serial-id.py\<close> and \<open>serial-idm.py\<close>.  A driver is its list of
  steps after the handshake; the stubs it sends are kept as tables of names and words, which several
  drivers share.
\<close>

section \<open>The stubs of the drivers\<close>

definition base_stubs :: "(string \<times> insn_word list) list" where
  "base_stubs =
     [(''dfr0'', reader 3577218304),
      (''ceid1'', reader 3577453792),
      (''pmu-init2'', pmu_init2),
      (''ev0-swincr'', ev0_swincr),
      (''swinc'', swinc),
      (''ev0-inst'', ev0_inst),
      (''cntr0'', reader 3577473024)]"

definition debug_stubs :: "(string \<times> insn_word list) list" where
  "debug_stubs =
     [(''dbgauth'', reader 3576725184),
      (''mdcr2'', reader 3577483552),
      (''enset'', reader 3577453600),
      (''typer0'', reader 3577474048),
      (''inst-linux-order'', evt_words 3531604225)]"

definition event_stubs :: "(string \<times> insn_word list) list" where
  "event_stubs =
     [(''evt-08'', evt_words 3531604225),
      (''evt-1b'', evt_words 3531604833),
      (''evt-04'', evt_words 3531604097),
      (''evt-11'', evt_words 3531604513),
      (''evt-10'', evt_words 3531604481),
      (''evt-03'', evt_words 3531604065),
      (''evt-00'', evt_words 3531603969),
      (''ceid0'', reader 3577453760)]"

definition id_stubs :: "(string \<times> insn_word list) list" where
  "id_stubs =
     [(''midr'', reader 3577217024),
      (''dfr0b'', reader 3577218304),
      (''pfr0'', reader 3577218048)]"

definition readback_stubs :: "(string \<times> insn_word list) list" where
  "readback_stubs =
     [(''rb-enset'', reader 3577453600),
      (''rb-typer0'', reader 3577474048),
      (''rb-cntr0'', reader 3577473024),
      (''rb-ceid0'', reader 3577453760),
      (''rb-pmcr'', reader 3577453568),
      (''rb-selr'', reader 3577453728)]"

definition pmu_stubs :: "(string \<times> insn_word list) list" where
  "pmu_stubs =
     [(''pmu-pmcr-read'', reader 3577453568),
      (''pmu-init'', pmu_init),
      (''pmu-cycles'', reader 3577453824),
      (''pmu-ctr-read'', reader 3577413664),
      (''pmu-mdcr-read'', reader 3577483552)]"

definition send_stubs :: "(string \<times> insn_word list) list \<Rightarrow> step list" where
  "send_stubs xs = map (\<lambda>(name, ws). Raw (stub name ws) 3000) xs"

definition jit_all :: step where
  "jit_all = Ev ''(setq *jit-hot-only* nil)'' 10000"

definition def_addloop :: step where
  "def_addloop = Ev ''(progn (defun addloop (n) (let ((s 0)) (dotimes (i n) (setq s (+ s i))) s)) (addloop 10))'' 20000"

definition serial_pmu4 :: "step list" where
  "serial_pmu4 = [jit_all] @ send_stubs base_stubs @
    [def_addloop,
     Ev ''(list :dfr0 (dfr0) :ceid1 (ceid1))'' 10000,
     Ev ''(list :pmcr-after-init2 (pmu-init2))'' 10000,
     Ev ''(list :swincr-setup (ev0-swincr) :after-3-swinc (progn (swinc) (swinc) (swinc)))'' 10000,
     Ev ''(list :inst-setup (ev0-inst) :cntr0-before (cntr0) :after-addloop (progn (addloop 100000) (cntr0)))'' 60000,
     Say ''=== PMU4 DONE ==='']"

definition serial_pmu5 :: "step list" where
  "serial_pmu5 = [jit_all] @ send_stubs base_stubs @ [def_addloop] @ send_stubs debug_stubs @
    [Ev ''(list :dbgauthstatus (dbgauth) :mdcr-el2 (mdcr2))'' 10000,
     Ev ''(list :linux-order (inst-linux-order) :typer0 (typer0) :enset (enset) :cntr0-before (cntr0) :after-addloop (progn (addloop 100000) (cntr0)) :mdcr-el2 (mdcr2))'' 60000,
     Say ''=== PMU5 DONE ==='']"

definition measured_events :: "(nat \<times> string) list" where
  "measured_events = [(8, ''evt-08''), (27, ''evt-1b''), (4, ''evt-04''), (17, ''evt-11''), (16, ''evt-10''), (3, ''evt-03''), (0, ''evt-00'')]"

definition measure_event :: "nat \<times> string \<Rightarrow> step" where
  "measure_event m =
     Ev (''(list :event '' @ dec (fst m) @ '' ('' @ snd m @ '') :before (cntr0) :after-addloop (progn (addloop 100000) (cntr0)))'') 60000"

definition serial_pmu6 :: "step list" where
  "serial_pmu6 = [jit_all] @ send_stubs base_stubs @ [def_addloop] @ send_stubs (debug_stubs @ event_stubs) @
    [Ev ''(list :ceid0 (ceid0) :ceid1 (ceid1))'' 10000] @ map measure_event measured_events @ [Say ''=== PMU6 DONE ==='']"

definition serial_id :: "step list" where
  "serial_id = [jit_all] @ send_stubs base_stubs @ [def_addloop] @ send_stubs (debug_stubs @ event_stubs @ id_stubs) @
    [Ev ''(list :midr (midr) :dfr0 (dfr0b) :dfr0-again (dfr0b) :pfr0 (pfr0) :current-el (cur-el))'' 10000,
     Say ''=== ID DONE ==='']"

text \<open>The stubs of \<open>serial-idm.py\<close> store the register into the page before they return it.\<close>

definition memory_stub :: "string \<times> nat \<Rightarrow> string" where
  "memory_stub m =
     ''(defun '' @ fst m @ '' () (let* ((p (%mmap-exec-page 4096)) (i 0) (w (list '' @ dec (snd m) @
     '' (logior 3531603969 (ash (logand p 65535) 5)) (logior 4070572033 (ash (logand (ash p -16) 65535) 5)) 4072669185 4177559584 3548379136 3596551104))) (setf (mem-ref (+ p 256) :u64) 0) (dolist (x w) (setf (mem-ref (+ p i) :u32) x) (setq i (+ i 4))) (%jit-icache-flush p 128) (list (%jit-call p) (mem-ref (+ p 256) :u64))))''"

definition memory_stubs :: "(string \<times> nat) list" where
  "memory_stubs = [(''dfr0m'', 3577218304), (''ceid0m'', 3577453760), (''midrm'', 3577217024), (''pmcrm'', 3577453568)]"

definition serial_idm :: "step list" where
  "serial_idm = [jit_all] @ send_stubs base_stubs @ [def_addloop] @ send_stubs (debug_stubs @ event_stubs) @
    map (\<lambda>m. Raw (memory_stub m) 3000) memory_stubs @
    [Ev ''(list :dfr0 (dfr0m) :ceid0 (ceid0m) :midr (midrm) :pmcr (pmcrm))'' 20000,
     Say ''=== IDM DONE ==='']"

definition send_readback :: "string \<times> insn_word list \<Rightarrow> step" where
  "send_readback s = Ev (''(progn '' @ stub (fst s) (snd s) @ '' :'' @ fst s @ '')'') 10000"

definition serial_pmu2 :: "step list" where
  "serial_pmu2 = [jit_all] @ map send_readback readback_stubs @
    [Ev ''(list :init (pmu-init) :setup (pmu-event-setup 0 8) :enset (rb-enset) :typer0 (rb-typer0) :selr (rb-selr) :pmcr (rb-pmcr) :ceid0 (rb-ceid0))'' 20000,
     Ev ''(let ((a (rb-cntr0)) (b (pmu-event-read 0))) (addloop 100000) (list :cntr0-before a :xev-before b :cntr0-after (rb-cntr0) :xev-after (pmu-event-read 0)))'' 60000,
     Say ''=== PMU2 DONE ==='']"

definition serial_pmu :: "step list" where
  "serial_pmu = [jit_all] @ send_stubs (take 4 pmu_stubs) @
    [Raw ''(defun pmu-event-setup (n ev) (let ((p (%mmap-exec-page 4096)) (i 0)) (dolist (w (list (logior 3531603969 (ash n 5)) 3575356577 3573759967 (logior 3531603969 (ash ev 5)) 4070703105 3575356705 (logior 3531603969 (ash (ash 1 n) 5)) 3575356449 3573759967 3531603968 3596551104)) (setf (mem-ref (+ p i) :u32) w) (setq i (+ i 4))) (%jit-icache-flush p 128) (%jit-call p)))'' 3000,
     Raw ''(defun pmu-event-read (n) (let ((p (%mmap-exec-page 4096)) (i 0)) (dolist (w (list (logior 3531603969 (ash n 5)) 3575356577 3573759967 3577453888 3548379136 3596551104)) (setf (mem-ref (+ p i) :u32) w) (setq i (+ i 4))) (%jit-icache-flush p 128) (%jit-call p)))'' 3000,
     Ev ''(progn (defun addloop (n) (let ((s 0)) (dotimes (i n) (setq s (+ s i))) s)) (addloop 10))'' 20000] @ send_stubs (drop 4 pmu_stubs) @
    [Ev ''(list :mdcr-before (pmu-mdcr-read))'' 20000,
     Ev ''(list :pmcr (pmu-pmcr-read))'' 20000,
     Ev ''(list :pmcr-after-init (pmu-init) :mdcr-after (pmu-mdcr-read))'' 20000,
     Ev ''(list :cyc (pmu-cycles) (pmu-cycles))'' 20000,
     Ev ''(let ((a (pmu-cycles))) (addloop 1000000) (list :cycles-per-addloop-iter (/ (logand (- (pmu-cycles) a) 4294967295) 1000000.0)))'' 120000,
     Ev ''(list :setup (pmu-event-setup 0 8) (pmu-event-setup 1 16))'' 20000,
     Ev ''(let ((c (pmu-cycles)) (i (pmu-event-read 0)) (b (pmu-event-read 1))) (addloop 1000000) (list :cycles (logand (- (pmu-cycles) c) 4294967295) :inst (logand (- (pmu-event-read 0) i) 4294967295) :brmis (logand (- (pmu-event-read 1) b) 4294967295)))'' 120000,
     Ev ''(list :temp-mC (modus-int::hdmi-mbox-property-1 196614 0 0) :clock (modus-int::hdmi-arm-clock))'' 20000,
     Say ''=== PMU DONE ==='']"

section \<open>Properties\<close>


text \<open>
  C5: What the event stubs program.  For each event that \<open>serial-pmu6.py\<close> measures, the stub sent under
  the name it calls returns 0 after stopping and resetting the counters, selecting that event for counter
  0, enabling it and starting.  The value written to the event type register carries the event number
  and one filter bit, which is NSU; NSH, without which nothing counts at EL2, is clear.
\<close>

theorem events_programmed:
  "list_all (\<lambda>(n, name). \<exists>ws filter. map_of event_stubs name = Some ws \<and>
       filter = of_nat n OR push_bit NSU 1 \<and> bit filter NSU \<and> \<not> bit filter NSH \<and>
       (\<forall>env c. \<exists>c'. run env ws c = Some c' \<and> gpr c' 0 = 0 \<and>
          msrs c' = msrs c @ [(PMCR, 0x46), (PMCNTENCLR, 1), (PMEVTYPER0, filter), (PMCNTENSET, 1), (PMCR, 0x47)]))
     measured_events"
  (is "list_all (\<lambda>(n, name). ?P n name) measured_events")
proof -
  have ev: "?P n name"
    if "map_of event_stubs name = Some (evt_words (3531603969 OR push_bit 5 e))" "e < 0x10000"
      "ucast e = (of_nat n :: reg_value)" for n name e
    using evt_stub [OF that(2)] that(1,3) by auto
  have "?P 8 ''evt-08''" by (rule ev [of _ 8]) (simp_all add: event_stubs_def)
  moreover have "?P 27 ''evt-1b''" by (rule ev [of _ 27]) (simp_all add: event_stubs_def)
  moreover have "?P 4 ''evt-04''" by (rule ev [of _ 4]) (simp_all add: event_stubs_def)
  moreover have "?P 17 ''evt-11''" by (rule ev [of _ 17]) (simp_all add: event_stubs_def)
  moreover have "?P 16 ''evt-10''" by (rule ev [of _ 16]) (simp_all add: event_stubs_def)
  moreover have "?P 3 ''evt-03''" by (rule ev [of _ 3]) (simp_all add: event_stubs_def)
  moreover have "?P 0 ''evt-00''" by (rule ev [of _ 0]) (simp_all add: event_stubs_def)
  ultimately show ?thesis
    unfolding measured_events_def by (simp only: list.pred_inject prod.case simp_thms)
qed

text \<open>The drivers run their scripts under \<open>drive\<close>; \<open>serial-id.py\<close> calls a stub that it never sends.\<close>

lemma serial_id_calls_unsent:
  "\<not> list_ex (\<lambda>(name, ws). name = ''cur-el'') (base_stubs @ debug_stubs @ event_stubs @ id_stubs)"
  by (simp add: base_stubs_def debug_stubs_def event_stubs_def id_stubs_def)


end
