(* ===== verification/DecodeDrivers.thy ===== *)
theory DecodeDrivers
  imports BoardRepl
begin

text \<open>
  The drivers that time the stages of the video decoder on the board: \<open>serial-bisect.py\<close>,
  \<open>serial-bisect2.py\<close> and \<open>serial-prof.py\<close>.  They wrap functions of the decoder one after the other; a
  \<open>stage\<close> is the key of a wrapper, the function it replaces and that function's arguments, and the forms
  that save the original, replace it and measure a pass are built from it as they are written in the
  files.  The runbook's rule for a restored core is the property: re-link, then play.
\<close>

section \<open>The scripts\<close>

type_synonym stage = "string \<times> string \<times> string"

definition save_original :: "stage \<Rightarrow> step" where
  "save_original = (\<lambda>(key, fn, args).
     Ev (''(progn (defvar reel.decode::*o-'' @ key @ ''* (symbol-function (quote reel.decode::'' @ fn @
       ''))) (defvar reel.decode::*t-'' @ key @ ''* 0) :ok-'' @ key @ '')'') 10000)"

definition wrap_stage :: "stage \<Rightarrow> step" where
  "wrap_stage = (\<lambda>(key, fn, args).
     Ev (''(progn (defun reel.decode::'' @ fn @ '' ('' @ args @
       '') (let ((t0 (rdtsc))) (multiple-value-prog1 (funcall reel.decode::*o-'' @ key @ ''* '' @ args @
       '') (setq reel.decode::*t-'' @ key @ ''* (+ reel.decode::*t-'' @ key @ ''* (- (rdtsc) t0)))))) :def-'' @ key @ '')'') 20000)"

definition stage_ms :: "string \<Rightarrow> string" where
  "stage_ms key = ''(round reel.decode::*t-'' @ key @ ''* (* 90 (floor (cntfrq) 1000)))''"

definition measure_pass :: "string \<Rightarrow> string \<Rightarrow> step" where
  "measure_pass label key = Ev (''(list :'' @ label @ '' (reel-demo-pass 1) '' @ stage_ms key @ '')'') 120000"

definition stage_loopf :: stage where
  "stage_loopf = (''loopf'', ''loop-filter-frame'', ''vd key'')"

definition stage_residue :: stage where
  "stage_residue = (''residue'', ''decode-residue'', ''d bd mbx skip has-y2 dq'')"

definition stage_mbloop :: stage where
  "stage_mbloop = (''mbloop'', ''decode-macroblocks'', ''vd part0 tokens nparts key'')"

definition stage_luma16 :: stage where
  "stage_luma16 = (''luma16'', ''reconstruct-luma16'', ''d mx my ymode ha hl'')"

definition stage_bpred :: stage where
  "stage_bpred = (''bpred'', ''reconstruct-bpred'', ''d mx my'')"

definition stage_chroma :: stage where
  "stage_chroma = (''chroma'', ''reconstruct-chroma'', ''d mbx mby uvmode ha hl'')"

definition stage_interpred :: stage where
  "stage_interpred = (''interpred'', ''predict-inter-mb'', ''vd mi mbx mby mode'')"

definition stage_interres :: stage where
  "stage_interres = (''interres'', ''add-inter-residual'', ''d mx my cx cy'')"

definition stage_mbmodes :: stage where
  "stage_mbmodes = (''mbmodes'', ''read-mb-modes'', ''d part0 mbx'')"

definition stage_intermodes :: stage where
  "stage_intermodes = (''intermodes'', ''read-inter-modes'', ''vd part0 mi mbx mby'')"

definition stage_intramodes :: stage where
  "stage_intramodes = (''intramodes'', ''read-intra-modes-inter-frame'', ''vd part0'')"

definition stage_lfparams :: stage where
  "stage_lfparams = (''lfparams'', ''mb-filter-params'', ''vd d mi key'')"

definition stage_refcopy :: stage where
  "stage_refcopy = (''refcopy'', ''plane->rframe-plane'', ''pl dst stride border w h'')"

definition relink :: "step list" where
  "relink =
    [Ev ''(progn (in-package :cl-user) (package-name *package*))'' 10000,
     Ev ''(setq *jit-hot-only* nil)'' 10000,
     Ev ''(list :armclk (modus-int::hdmi-arm-clock-max))'' 30000,
     Ev ''(init)'' 180000,
     Ev ''(list :eager (jit-eager))'' 900000]"

definition bisect_stage :: "string \<Rightarrow> stage \<Rightarrow> step list" where
  "bisect_stage label s = [save_original s, wrap_stage s, measure_pass label (fst s)]"

definition serial_bisect :: "step list" where
  "serial_bisect = [Drain 2000] @ relink @ [Ev ''(list :base (reel-demo-pass 1))'' 120000] @
    [save_original stage_loopf, wrap_stage stage_loopf,
     Ev ''(list :native (modus-int::%jit-fn-native-p \"REEL.DECODE::LOOP-FILTER-FRAME\") (cntfrq))'' 10000,
     measure_pass ''one-wrapper'' ''loopf''] @
    bisect_stage ''two-wrappers'' stage_residue @ bisect_stage ''three-wrappers'' stage_mbloop @
    [Say ''=== BISECT DONE ==='']"

definition bisect2_stages :: "stage list" where
  "bisect2_stages =
     [stage_loopf, stage_residue, stage_mbloop, stage_luma16, stage_bpred, stage_chroma, stage_interpred, stage_interres, stage_mbmodes, stage_intermodes, stage_intramodes, stage_lfparams, stage_refcopy]"

definition serial_bisect2 :: "step list" where
  "serial_bisect2 = [Drain 2000] @ relink @ [Ev ''(list :base (reel-demo-pass 1))'' 120000] @
    concat (map (\<lambda>s. bisect_stage (''after-'' @ fst s) s) bisect2_stages) @
    [Say ''=== BISECT DONE ==='']"

definition prof_stages :: "stage list" where
  "prof_stages =
     [stage_residue, stage_luma16, stage_bpred, stage_chroma, stage_interpred, stage_interres, stage_mbmodes, stage_intermodes, stage_intramodes, stage_lfparams, stage_loopf, stage_refcopy, stage_mbloop]"

definition reset_keys :: "string list" where
  "reset_keys =
     [''residue'', ''luma16'', ''bpred'', ''chroma'', ''interpred'', ''interres'', ''mbmodes'', ''intermodes'', ''intramodes'', ''lfparams'', ''loopf'', ''refcopy'', ''mbloop'']"

definition report_keys :: "string list" where
  "report_keys =
     [''residue'', ''luma16'', ''bpred'', ''chroma'', ''interpred'', ''interres'', ''mbmodes'', ''intermodes'', ''intramodes'', ''lfparams'', ''loopf'', ''refcopy'', ''mbloop'']"

definition serial_prof :: "step list" where
  "serial_prof = [Drain 3000] @ relink @
    concat (map (\<lambda>s. [save_original s, wrap_stage s]) prof_stages) @
    [Ev ''(list (fboundp (quote reel.decode::decode-residue)) reel.decode::*t-residue*)'' 30000,
     Ev ''(progn (reel-demo-pass 1) :warm)'' 900000,
     Ev (''(progn '' @ concat (map (\<lambda>k. ''(setq reel.decode::*t-'' @ k @ ''* 0) '') reset_keys) @ '':reset)'') 30000,
     Ev ''(reel-demo-pass 1)'' 900000,
     Ev (''(list '' @ join '' '' (map (\<lambda>k. ''(list :'' @ k @ '' '' @ stage_ms k @ '')'') report_keys) @ '')'') 60000,
     Say ''=== PROF DONE (ms per frame, 90 frames) ==='']"

section \<open>The rule of the runbook\<close>

text \<open>Some step of the script satisfies \<open>P\<close> before the first that satisfies \<open>Q\<close>, if any does.\<close>

fun guarded :: "(step \<Rightarrow> bool) \<Rightarrow> (step \<Rightarrow> bool) \<Rightarrow> step list \<Rightarrow> bool" where
  "guarded P Q [] = True"
| "guarded P Q (x # xs) = (if P x then True else if Q x then False else guarded P Q xs)"

fun sends :: "string \<Rightarrow> step \<Rightarrow> bool" where
  "sends t (Ev form w) = contains t form"
| "sends t (Raw x settle) = contains t x"
| "sends t _ = False"

text \<open>A pass of the decoder.\<close>

definition plays :: "step \<Rightarrow> bool" where
  "plays = sends ''(reel-demo-pass''"

lemma guarded_prefix: "guarded P Q xs \<Longrightarrow> list_ex P xs \<Longrightarrow> guarded P Q (xs @ ys)"
  by (induction xs) (auto split: if_splits)

lemma relink_prefix:
  "guarded (sends ''(jit-eager)'') plays relink" "list_ex (sends ''(jit-eager)'') relink"
  "guarded (sends ''(init)'') plays relink" "list_ex (sends ''(init)'') relink"
  by (simp_all add: relink_def plays_def starts_with_def)

lemma relink_guards:
  "guarded (sends ''(jit-eager)'') plays ([Drain t] @ relink @ ys)"
  "guarded (sends ''(init)'') plays ([Drain t] @ relink @ ys)"
  using guarded_prefix [OF relink_prefix(1,2)] guarded_prefix [OF relink_prefix(3,4)]
  by (simp_all add: plays_def)

section \<open>Properties\<close>

text \<open>
  The drivers keep the runbook's rule.  Each of the three sends \<open>(init)\<close> and \<open>(jit-eager)\<close> before the
  first pass of the decoder.
\<close>

lemma relinked_before_pass:
  "list_all (\<lambda>s. guarded (sends ''(init)'') plays s \<and> guarded (sends ''(jit-eager)'') plays s)
     [serial_bisect, serial_bisect2, serial_prof]"
  unfolding serial_bisect_def serial_bisect2_def serial_prof_def
  by (simp only: list.pred_inject relink_guards simp_thms)

text \<open>
  The profile is complete and consistent.  Every stage that \<open>serial-prof.py\<close> wraps is reset and
  reported, exactly once and in the order of wrapping; it wraps exactly the stages that
  \<open>serial-bisect2.py\<close> introduces, and no stage, saved function or timed function occurs twice, so no
  wrapper can save another wrapper as the original.
\<close>

lemma prof_complete:
  "reset_keys = map fst prof_stages \<and> report_keys = map fst prof_stages
   \<and> set prof_stages = set bisect2_stages \<and> length prof_stages = length bisect2_stages
   \<and> distinct (map fst prof_stages) \<and> distinct (map (fst \<circ> snd) prof_stages)
   \<and> distinct (map (fst \<circ> snd) bisect2_stages)"
  by (intro conjI; code_simp)

end
