(* ===== verification/QemuRepl.thy ===== *)
theory QemuRepl
  imports ReplChannel
begin

text \<open>
  The drivers that run a board image under QEMU and dump its core through the debugger:
  \<open>docs/reel-on-zero/qinstall.py\<close>, \<open>qsave.py\<close> and \<open>qcore.py\<close>.  They talk to the same REPL as the serial
  drivers, but over a UNIX socket: a \<open>recv\<close> returns what is there as soon as anything is, so what one
  read sees depends on how the bytes arrive.  \<open>core_end\<close> is the search for the \<open>CORE-END=\<close> number that
  the image prints, and \<open>qcore_save\<close> and \<open>qsave_save\<close> are the two versions of the dump.
\<close>

section \<open>Reading the socket\<close>

text \<open>
  \<open>s.recv(65536)\<close> with a timeout of 0.3 seconds; the empty result stands for \<open>socket.timeout\<close>, which the
  callers ignore.
\<close>

definition socket_read :: "board \<Rightarrow> bytes \<times> board" where
  "socket_read s =
     (case inbound s of
        [] \<Rightarrow> ([], nap 300 s)
      | x # _ \<Rightarrow>
          if clock s + 300 < fst x then ([], nap 300 s)
          else let now = max (clock s) (fst x);
                   got = take 65536 (takeWhile (\<lambda>y. fst y \<le> now) (inbound s))
               in (map snd got, s\<lparr>clock := now, inbound := drop (length got) (inbound s)\<rparr>))"

lemma socket_read_cases:
  "(socket_read s = ([], nap 300 s) \<and> (\<forall>x xs. inbound s = x # xs \<longrightarrow> clock s + 300 < fst x))
   \<or> (\<exists>got rest now. inbound s = got @ rest \<and> got \<noteq> [] \<and> clock s \<le> now \<and> now \<le> clock s + 300
       \<and> socket_read s = (map snd got, s\<lparr>clock := now, inbound := rest\<rparr>))"
proof (cases "inbound s")
  case Nil
  then show ?thesis by (simp add: socket_read_def)
next
  case (Cons x xs)
  show ?thesis
  proof (cases "clock s + 300 < fst x")
    case True
    then show ?thesis using Cons by (simp add: socket_read_def)
  next
    case False
    let ?now = "max (clock s) (fst x)"
    let ?w = "takeWhile (\<lambda>y. fst y \<le> ?now) (inbound s)"
    let ?got = "take 65536 ?w"
    have p: "take (length ?got) (inbound s) = ?got"
      by (rule take_take_takeWhile)
    then have "inbound s = ?got @ drop (length ?got) (inbound s)" by (metis append_take_drop_id)
    moreover have "?got \<noteq> []" using Cons by simp
    moreover have "clock s \<le> ?now \<and> ?now \<le> clock s + 300" using False by auto
    moreover have "socket_read s = (map snd ?got, s\<lparr>clock := ?now, inbound := drop (length ?got) (inbound s)\<rparr>)"
      using Cons False by (simp add: socket_read_def Let_def)
    ultimately show ?thesis by blast
  qed
qed

lemma socket_read_less:
  "clock s < e \<Longrightarrow>
     e - clock (snd (socket_read s)) + length (inbound (snd (socket_read s))) < e - clock s + length (inbound s)"
  using socket_read_cases [of s] by (auto simp: nap_def neq_Nil_conv)

function q_loop :: "(string \<Rightarrow> bool) \<Rightarrow> nat \<Rightarrow> bytes \<Rightarrow> board \<Rightarrow> bytes \<times> board" where
  "q_loop pat e b s =
     (if clock s < e
      then let r = socket_read s
           in if pat (decode_text (b @ fst r)) then (b @ fst r, snd r) else q_loop pat e (b @ fst r) (snd r)
      else (b, s))"
  by pat_completeness auto
termination
  by (relation "measure (\<lambda>(pat, e, b, s). e - clock s + length (inbound s))", simp)
    (use socket_read_less in simp)

declare q_loop.simps [simp del]

definition q_until :: "(string \<Rightarrow> bool) \<Rightarrow> nat \<Rightarrow> board \<Rightarrow> string \<times> board" where
  "q_until pat t s = (let (b, s) = q_loop pat (clock s + t) [] s in (decode_text b, s))"

lemma socket_read_left:
  "socket_read s = (d, s') \<Longrightarrow> sorted (map fst (inbound s)) \<Longrightarrow> clock s < clock s' \<Longrightarrow>
     list_all (\<lambda>x. clock s' \<le> fst x) (inbound s')"
proof (cases "inbound s")
  case Nil
  assume "socket_read s = (d, s')"
  then show ?thesis using Nil by (auto simp: socket_read_def nap_def)
next
  case (Cons x xs)
  assume r: "socket_read s = (d, s')" and sorted: "sorted (map fst (inbound s))" and adv: "clock s < clock s'"
  have all: "list_all (\<lambda>y. fst x \<le> fst y) (inbound s)" using sorted Cons by (auto simp: list_all_iff)
  show ?thesis
  proof (cases "clock s + 300 < fst x")
    case True
    then have "s' = nap 300 s" using r Cons by (simp add: socket_read_def)
    then show ?thesis using True all by (auto simp: nap_def list_all_iff)
  next
    case False
    then have "clock s' = fst x" using r Cons adv by (auto simp: socket_read_def Let_def max_def split: if_splits)
    moreover have "\<exists>us. inbound s = us @ inbound s'" using socket_read_cases [of s] r by (auto simp: nap_def)
    ultimately show ?thesis using all by (auto simp: list_all_iff)
  qed
qed

lemma socket_read_effect:
  assumes "socket_read s = (d, s')"
  shows "\<exists>ds. inbound s = ds @ inbound s' \<and> d = map snd ds"
    and "outbound s' = outbound s \<and> tags s' = tags s \<and> shown s' = shown s"
    and "clock s \<le> clock s' \<and> clock s' \<le> clock s + 300"
  using socket_read_cases [of s] assms by (auto simp: nap_def)

interpretation socket_reader: timed_reader socket_read q_loop
  by unfold_locales (rule q_loop.simps, erule socket_read_effect(1), erule socket_read_effect(2),
    erule socket_read_effect(3), erule socket_read_less, rule socket_read_left)

lemma q_until_spec:
  assumes "q_until pat w s = (out, s')"
  shows "\<exists>ds. inbound s = ds @ inbound s' \<and> out = texts ds"
    and "outbound s' = outbound s" and "tags s' = tags s" and "shown s' = shown s"
    and "clock s \<le> clock s'" and "clock s' \<le> clock s + w + 300" and "pat out \<or> clock s + w \<le> clock s'"
  using assms socket_reader.loop_spec [of pat "clock s + w" "[]" s] unfolding q_until_def texts_def
  by (auto split: prod.splits)

interpretation socket: reply_channel q_until inbound clock "\<lambda>x. x"
proof
  fix P :: "string \<Rightarrow> bool" and w s out s' ds
  assume r: "q_until P w s = (out, s')" "0 < w" "sorted (map fst (inbound s))" "inbound s = ds @ inbound s'"
  obtain b where b: "q_loop P (clock s + w) [] s = (b, s')" "out = decode_text b"
    using r(1) by (auto simp: q_until_def split: prod.splits)
  obtain us where "inbound s = us @ inbound s'" "b = map snd us"
    "P (decode_text b) \<or> list_all (\<lambda>x. clock s + w \<le> fst x) (inbound s')"
    using socket_reader.loop_spec [OF b(1)] r(2,3) by auto
  then show "P (texts ds) \<or> list_all (\<lambda>x. clock s + w \<le> fst x) (inbound s')"
    using r(4) by (simp add: texts_def)
qed (use q_until_spec in auto)


section \<open>The programs\<close>

text \<open>\<open>q\<close> of \<open>qinstall.py\<close> and \<open>qcore.py\<close>: the form goes out at once, under a tag of five digits.\<close>

definition ask :: "string \<Rightarrow> nat \<Rightarrow> board \<Rightarrow> string option \<times> board" where
  "ask form wait s =
     (let (t, s) = randint 10000 99999 s;
          s = emit 0 (encode (tagged t form)) s;
          (out, s) = q_until (\<lambda>x. reply t x \<noteq> None) wait s
      in (reply t (out @ [nl]), s))"

definition send_line :: "string \<Rightarrow> board \<Rightarrow> board" where
  "send_line x s = emit 0 (encode (x @ [CHR 0x0D, nl])) s"

text \<open>\<open>push\<close>: the non-empty lines of a file, one at a time, each up to the next prompt.\<close>

fun push_lines :: "nat \<Rightarrow> string list \<Rightarrow> board \<Rightarrow> board" where
  "push_lines wait [] s = s"
| "push_lines wait (l # ls) s =
     (if strip l = [] then push_lines wait ls s
      else push_lines wait ls (snd (q_until (contains [nl, CHR ''>'', CHR '' '']) wait (send_line (strip l) s))))"

text \<open>
  \<open>re.search(r"CORE-END=(\d+)", out)\<close>: the digits, and the text after them.  The second version of the
  pattern wants a character that is not a digit behind them.
\<close>

fun end_match :: "string \<Rightarrow> (string \<times> string) option" where
  "end_match [] = None"
| "end_match (c # cs) =
     (if starts_with ''CORE-END='' (c # cs) \<and> takeWhile is_digit (drop 9 (c # cs)) \<noteq> []
      then Some (takeWhile is_digit (drop 9 (c # cs)), dropWhile is_digit (drop 9 (c # cs)))
      else end_match cs)"

definition core_end :: "string \<Rightarrow> string option" where
  "core_end x = map_option fst (end_match x)"

definition closed_end :: "string \<Rightarrow> string option" where
  "closed_end x = (case end_match x of Some (ds, c # r) \<Rightarrow> Some ds | _ \<Rightarrow> None)"

definition core_base :: nat where "core_base = 0x18000000"

text \<open>
  The dump: the end address given to the debugger's \<open>dump binary memory FILE 0x18000000 END\<close>, or the exit.
\<close>

definition qsave_save :: "board \<Rightarrow> nat res \<times> board" where
  "qsave_save s =
     (let s = send_line ''(modus-int::%save-image \"reel.core\")'' s;
          (out, s) = q_until (\<lambda>x. core_end x \<noteq> None) 1200000 s
      in (case core_end out of None \<Rightarrow> Inl (SystemExit 1) | Some ds \<Rightarrow> Inr (dec_val ds), s))"

definition qcore_save :: "board \<Rightarrow> nat res \<times> board" where
  "qcore_save s =
     (let s = send_line ''(modus-int::%save-image \"reel-lc.core\")'' s;
          (out, s) = q_until (\<lambda>x. closed_end x \<noteq> None) 1800000 s
      in (case core_end out of
            None \<Rightarrow> Inl (SystemExit 1)
          | Some ds \<Rightarrow> let e = dec_val ds in Inr (if e < core_base then core_base + e else e), s))"


text \<open>What a driver does between the banner and the dump: a query, a line that is not acknowledged, a file.\<close>

datatype qstep =
    Ask string nat
  | Send string nat
  | Push "string list" nat

fun run_q :: "qstep \<Rightarrow> board \<Rightarrow> board" where
  "run_q (Ask form wait) s = snd (ask form wait s)"
| "run_q (Send x wait) s = snd (q_until never wait (send_line x s))"
| "run_q (Push ls wait) s = push_lines wait ls s"

definition ramv_form :: string where
  "ramv_form =
     ''(defun ramv (a n) (let ((v (make-array n :element-type (quote (unsigned-byte 8))))) (dotimes (i n) (setf (aref v i) (mem-ref (+ a i) :u8))) v))''"

text \<open>The start of \<open>qinstall.py\<close> and \<open>qcore.py\<close>: the banner, two seconds, and the reader resynchronised.\<close>

definition settle :: "nat \<Rightarrow> board \<Rightarrow> board" where
  "settle banner s =
     (let s = snd (q_until (contains ''Modus CL REPL'') banner s);
          s = snd (q_until never 1500 (nap 2000 s));
          s = emit 0 (encode resync) s
      in snd (q_until never 1500 s))"

definition qcore_script :: "string list \<Rightarrow> string list \<Rightarrow> string list \<Rightarrow> qstep list" where
  "qcore_script demo hvs reel =
     [Ask ''(+ 20 22)'' 10000,
      Ask ''(setq *jit-on* t)'' 10000,
      Ask ''*jit-hot-only*'' 10000,
      Ask ''*jit-linkage-cells*'' 10000,
      Ask ''(setq modus-int::*tar-block-size* 512)'' 10000,
      Send ramv_form 2000,
      Ask ''(progn (setq *rh-tarv* (ramv 436207616 163840)) (length *rh-tarv*))'' 300000,
      Ask ''(list (aref *rh-tarv* 0) (aref *rh-tarv* 1) (aref *rh-tarv* 2))'' 10000,
      Ask ''(modus-int::install-tarball-from-bytes *rh-tarv*)'' 5400000,
      Ask ''(if (find-package \"REEL\") 1 0)'' 10000,
      Ask ''(if (fboundp (quote reel::make-decoder)) 1 0)'' 10000,
      Ask ''(if (fboundp (quote reel.decode::%edge-sub-h8)) 1 0)'' 10000,
      Push demo 60000, Push hvs 60000, Push reel 60000,
      Ask ''(if (fboundp (quote reel-demo-pass)) 1 0)'' 10000,
      Ask ''(if (fboundp (quote rh-play)) 1 0)'' 10000,
      Ask ''(progn (setq *rh-ivf* (ramv 452984832 151295) *rh-len* 151295 *demo-ivf* *rh-ivf* *demo-len* 151295) *rh-len*)'' 300000,
      Ask ''(list (aref *rh-ivf* 0) (aref *rh-ivf* 1) (aref *rh-ivf* 2) (aref *rh-ivf* 3))'' 10000,
      Ask ''(setq *rh-tarv* nil)'' 10000,
      Ask ''(setq *jit-hot-only* nil)'' 10000,
      Ask ''(jit-eager)'' 3600000,
      Ask ''(list *jit-native-defun-count* (modus-int::%jit-fn-native-p \"DECODE-FRAME\") (modus-int::%jit-fn-native-p \"MC-FILTER\"))'' 10000]"

definition qcore_main :: "string list \<Rightarrow> string list \<Rightarrow> string list \<Rightarrow> board \<Rightarrow> nat res \<times> board" where
  "qcore_main demo hvs reel s = qcore_save (fold run_q (qcore_script demo hvs reel) (settle 1500000 s))"

text \<open>\<open>qinstall.py\<close>; the result says whether the package was there already.\<close>

definition install_script :: "qstep list" where
  "install_script =
     [Ask ''(if (fboundp (quote ramv)) 1 0)'' 10000,
      Send ramv_form 2000,
      Ask ''(progn (setq *rh-tarv* (ramv 436207616 143360)) (length *rh-tarv*))'' 300000,
      Ask ''(modus-int::install-tarball-from-bytes *rh-tarv*)'' 5400000]"

definition find_reel :: string where "find_reel = ''(if (find-package \"REEL\") 1 0)''"

definition qinstall_main :: "board \<Rightarrow> bool res \<times> board" where
  "qinstall_main s =
     (let s = settle 240000 s;
          s = fold run_q [Ask ''(+ 20 22)'' 10000, Ask ''(setq *jit-on* t)'' 10000] s;
          (v, s) = ask ''*jit-on*'' 10000 s
      in if v \<noteq> Some ''T'' then (Inl (SystemExit 1), s)
         else let s = fold run_q [Ask ''*jit-hot-only*'' 10000, Ask ''(setq modus-int::*tar-block-size* 512)'' 10000] s;
                  (r, s) = ask find_reel 10000 s;
                  s = (if r \<noteq> Some ''1'' then fold run_q install_script s else s);
                  s = fold run_q [Ask find_reel 10000, Ask ''(if (fboundp (quote reel::make-decoder)) 1 0)'' 10000] s
              in (Inr (r = Some ''1''), s))"

text \<open>
  \<open>qsave.py\<close> reads until the line has been quiet: every byte moves the end of the wait to a second and a
  half later.
\<close>

lemma socket_read_progress:
  "clock s < e \<Longrightarrow> length (inbound (snd (socket_read s))) < length (inbound s)
     \<or> (length (inbound (snd (socket_read s))) = length (inbound s) \<and> clock s < clock (snd (socket_read s))
         \<and> fst (socket_read s) = [])"
  using socket_read_cases [of s] by (auto simp: nap_def neq_Nil_conv)

function quiet_loop :: "nat \<Rightarrow> nat \<Rightarrow> bytes \<Rightarrow> board \<Rightarrow> bytes \<times> board" where
  "quiet_loop w e b s =
     (if clock s < e
      then let (d, s') = socket_read s
           in if d \<noteq> [] then quiet_loop w (clock s' + min w 1500) (b @ d) s' else quiet_loop w e b s'
      else (b, s))"
  by pat_completeness auto
termination
proof (relation "measures [\<lambda>(w, e, b, s). length (inbound s), \<lambda>(w, e, b, s). e - clock s]", goal_cases)
  case (2 w e b s r d s')
  then show ?case using socket_read_cases [of s] by (auto simp: nap_def neq_Nil_conv)
next
  case (3 w e b s r d s')
  then show ?case using socket_read_cases [of s] by (auto simp: nap_def neq_Nil_conv)
qed simp

declare quiet_loop.simps [simp del]

definition quiet :: "nat \<Rightarrow> board \<Rightarrow> string \<times> board" where
  "quiet w s = (let (b, s) = quiet_loop w (clock s + w) [] s in (decode_text b, s))"

definition snd_line :: "string \<Rightarrow> nat \<Rightarrow> board \<Rightarrow> string \<times> board" where
  "snd_line x w s = quiet w (send_line x s)"

definition qsave_q :: "string \<Rightarrow> nat \<Rightarrow> board \<Rightarrow> (string option \<times> string) \<times> board" where
  "qsave_q form w s =
     (let (t, s) = randint 1000 9999 s;
          (out, s) = snd_line (''(list '' @ dec t @ '' '' @ form @ '')'') w s
      in ((reply t (out @ [nl]), out), s))"

text \<open>\<open>push\<close> counts the forms it sends and the replies that mention an error.\<close>

fun qsave_push :: "string list \<Rightarrow> nat \<Rightarrow> nat \<Rightarrow> board \<Rightarrow> (nat \<times> nat) \<times> board" where
  "qsave_push [] n bad s = ((n, bad), s)"
| "qsave_push (l # ls) n bad s =
     (if strip l = [] then qsave_push ls n bad s
      else let (out, s) = snd_line (strip l) 3000 s
           in qsave_push ls (n + 1) (if contains ''ERROR'' out then bad + 1 else bad) s)"

text \<open>The loop that waits until the REPL has drained what was queued: a tagged probe answers 42.\<close>

definition tag_42 :: "nat \<Rightarrow> string" where
  "tag_42 t = CHR ''('' # dec t @ '' 42)''"

definition probe_42 :: "board \<Rightarrow> (nat \<times> string) \<times> board" where
  "probe_42 s =
     (let (t, s) = randint 10000 99999 s;
          s = emit 0 (encode (tagged t ''(+ 20 22)'')) s;
          (out, s) = q_until (contains (tag_42 t)) 30000 s
      in ((t, out), s))"

lemma probe_42_waits: "probe_42 s = ((t, out), s') \<Longrightarrow> contains (tag_42 t) out \<or> clock s + 30000 \<le> clock s'"
proof -
  assume p: "probe_42 s = ((t, out), s')"
  obtain t1 s1 where r: "randint 10000 99999 s = (t1, s1)" by (cases "randint 10000 99999 s")
  have c: "clock s1 = clock s" using r by (auto simp: randint_def split: list.splits)
  let ?s2 = "emit 0 (encode (tagged t1 ''(+ 20 22)'')) s1"
  obtain o1 s3 where q: "q_until (contains (tag_42 t1)) 30000 ?s2 = (o1, s3)"
    by (cases "q_until (contains (tag_42 t1)) 30000 ?s2")
  then have "t1 = t" "o1 = out" "s3 = s'" using p r by (auto simp: probe_42_def)
  then show ?thesis using q_until_spec(7) [OF q] c by (auto simp: emit_def)
qed

function wait_repl :: "nat \<Rightarrow> board \<Rightarrow> bool \<times> board" where
  "wait_repl t0 s =
     (if clock s < t0 + 5400000
      then let r = probe_42 s
           in if contains (tag_42 (fst (fst r))) (snd (fst r)) then (True, snd r) else wait_repl t0 (snd r)
      else (False, s))"
  by pat_completeness auto
termination
proof (relation "measure (\<lambda>(t0, s). t0 + 5400000 - clock s)", goal_cases)
  case (2 t0 s r)
  then show ?case using probe_42_waits [of s "fst (fst r)" "snd (fst r)" "snd r"] by auto
qed simp

declare wait_repl.simps [simp del]

definition qsave_evs :: "(string \<times> nat) list \<Rightarrow> board \<Rightarrow> board" where
  "qsave_evs xs s = fold (\<lambda>(form, w) s. snd (qsave_q form w s)) xs s"

definition qsave_main :: "string list \<Rightarrow> string list \<Rightarrow> board \<Rightarrow> nat res \<times> board" where
  "qsave_main hvs reel s =
     (let s = snd (quiet 2000 s); (ok, s) = wait_repl (clock s) s
      in if \<not> ok then (Inl (SystemExit 1), s)
         else let s = qsave_evs [(''(+ 20 22)'', 8000), (find_reel, 8000)] s;
                  s = snd (qsave_push hvs 0 0 s);
                  s = snd (qsave_push reel 0 0 s);
                  s = qsave_evs
                    [(''(if (fboundp (quote hvs-scaled-plane)) 1 0)'', 8000),
                     (''(if (fboundp (quote rh-play)) 1 0)'', 8000),
                     (''(progn (setq *rh-ivf* (ramv 452984832 63792) *rh-len* 63792) *rh-len*)'', 120000),
                     (''(list (aref *rh-ivf* 0) (aref *rh-ivf* 1) (aref *rh-ivf* 2) (aref *rh-ivf* 3))'', 8000),
                     (''(setq *rh-tarv* nil)'', 8000),
                     (''(jit-eager)'', 1800000),
                     (''(list *jit-native-defun-count* (if (fboundp (quote reel::decode-frame)) (modus-int::%jit-fn-native-p \"DECODE-FRAME\") :nofn))'', 8000)] s
              in qsave_save s)"

section \<open>What is sent\<close>

definition qtag_of :: "nat list \<Rightarrow> nat" where
  "qtag_of ts = (case ts of [] \<Rightarrow> 10000 | t # _ \<Rightarrow> 10000 + t mod 90000)"

lemma randint_qtag: "randint 10000 99999 s = (qtag_of (tags s), s\<lparr>tags := tl (tags s)\<rparr>)"
  by (cases "tags s") (simp_all add: randint_def qtag_of_def)

definition hears :: "nat \<Rightarrow> string \<Rightarrow> (nat \<times> byte) list \<Rightarrow> bool" where
  "hears t v xs \<longleftrightarrow> (\<exists>a ds b. xs = a @ ds @ b \<and> is_reply t v (texts ds @ [nl]))"

lemma encode_simps: "encode (x @ y) = encode x @ encode y" "encode [] = []" "encode (c # x) = utf8_char c @ encode x"
  by (simp_all add: encode_def)

lemma ask_effects:
  assumes "ask form w s = (v, s')"
  shows "outbound s' = outbound s @ encode (tagged (qtag_of (tags s)) form)"
    and "tags s' = tl (tags s)" and "\<exists>ds. inbound s = ds @ inbound s'"
    and "v = Some x \<Longrightarrow> hears (qtag_of (tags s)) x (inbound s)"
proof -
  let ?t = "qtag_of (tags s)"
  let ?s = "emit 0 (encode (tagged ?t form)) (s\<lparr>tags := tl (tags s)\<rparr>)"
  obtain out s1 where q: "q_until (\<lambda>x. reply ?t x \<noteq> None) w ?s = (out, s1)"
    by (cases "q_until (\<lambda>x. reply ?t x \<noteq> None) w ?s")
  have a: "v = reply ?t (out @ [nl])" "s' = s1"
    using assms unfolding ask_def randint_qtag Let_def prod.case q by simp_all
  obtain ds where ds: "inbound s = ds @ inbound s1" "out = texts ds"
    using q_until_spec(1) [OF q] by (auto simp: emit_def)
  show "outbound s' = outbound s @ encode (tagged ?t form)" and "tags s' = tl (tags s)"
    using a(2) q_until_spec(2,3) [OF q] by (simp_all add: emit_def)
  show "\<exists>ds. inbound s = ds @ inbound s'" using ds a(2) by blast
  show "hears ?t x (inbound s)" if v: "v = Some x"
  proof -
    have "is_reply ?t x (texts ds @ [nl])" using v a(1) ds(2) reply_sound [of ?t "out @ [nl]" x] by simp
    then show ?thesis using ds(1) unfolding hears_def by (intro exI [of _ "[]"] exI [of _ ds] exI [of _ "inbound s1"]) simp
  qed
qed

fun push_text :: "string list \<Rightarrow> string" where
  "push_text [] = []"
| "push_text (l # ls) = (if strip l = [] then [] else strip l @ [CHR 0x0D, nl]) @ push_text ls"

fun q_text :: "qstep list \<Rightarrow> nat list \<Rightarrow> string" where
  "q_text [] ts = []"
| "q_text (Ask form w # xs) ts = tagged (qtag_of ts) form @ q_text xs (tl ts)"
| "q_text (Send x w # xs) ts = x @ [CHR 0x0D, nl] @ q_text xs ts"
| "q_text (Push ls w # xs) ts = push_text ls @ q_text xs ts"

lemma until_effects:
  "outbound (snd (q_until P w s)) = outbound s" "tags (snd (q_until P w s)) = tags s"
  "\<exists>ds. inbound s = ds @ inbound (snd (q_until P w s))"
  using q_until_spec(1-3) [of P w s] by (metis prod.collapse)+

lemma push_effects:
  "outbound (push_lines w ls s) = outbound s @ encode (push_text ls) \<and> tags (push_lines w ls s) = tags s
     \<and> (\<exists>ds. inbound s = ds @ inbound (push_lines w ls s))"
proof (induction w ls s rule: push_lines.induct)
  case (1 w s)
  then show ?case by (simp add: encode_def)
next
  case (2 w l ls s)
  show ?case
  proof (cases "strip l = []")
    case True
    then show ?thesis using "2.IH"(1) by simp
  next
    case False
    let ?p = "contains [nl, CHR ''>'', CHR '' '']" and ?s = "send_line (strip l) s"
    note u = until_effects [where P = ?p and w = w and s = ?s]
    have "\<exists>ds. inbound s = ds @ inbound (snd (q_until ?p w ?s))"
      using u(3) by (simp add: send_line_def emit_def)
    then have "\<exists>ds. inbound s = ds @ inbound (push_lines w (l # ls) s)"
      using "2.IH"(2) [OF False] False by (metis append.assoc push_lines.simps(2))
    then show ?thesis using "2.IH"(2) [OF False] False u(1,2) by (simp add: send_line_def emit_def encode_simps)
  qed
qed

lemma run_q_effects:
  "outbound (fold run_q xs s) = outbound s @ encode (q_text xs (tags s))
     \<and> tags (fold run_q xs s) = drop (length [x \<leftarrow> xs. \<exists>f w. x = Ask f w]) (tags s)
     \<and> (\<exists>ds. inbound s = ds @ inbound (fold run_q xs s))"
proof (induction xs arbitrary: s)
  case Nil
  then show ?case by (simp add: encode_def)
next
  case (Cons x xs)
  show ?case
  proof (cases x)
    case (Ask form w)
    obtain v s' where a: "ask form w s = (v, s')" by (cases "ask form w s")
    show ?thesis using Ask a ask_effects(1-3) [OF a] Cons [of s'] by (auto simp: drop_Suc encode_simps)
  next
    case (Send t w)
    then show ?thesis using until_effects [where P = never and w = w and s = "send_line t s"]
        Cons [of "snd (q_until never w (send_line t s))"]
      by (auto simp: send_line_def emit_def encode_simps)
  next
    case (Push ls w)
    then show ?thesis using push_effects [of w ls s] Cons [of "push_lines w ls s"] by (auto simp: encode_simps)
  qed
qed

lemma settle_effects:
  "outbound (settle b s) = outbound s @ encode resync" "tags (settle b s) = tags s"
  "\<exists>ds. inbound s = ds @ inbound (settle b s)"
proof -
  define s1 where "s1 = snd (q_until (contains ''Modus CL REPL'') b s)"
  define s2 where "s2 = snd (q_until never 1500 (nap 2000 s1))"
  have e: "settle b s = snd (q_until never 1500 (emit 0 (encode resync) s2))"
    by (simp add: settle_def s1_def s2_def Let_def)
  note u1 = until_effects [where P = "contains ''Modus CL REPL''" and w = b and s = s, folded s1_def]
  note u2 = until_effects [where P = never and w = 1500 and s = "nap 2000 s1", folded s2_def]
  note u3 = until_effects [where P = never and w = 1500 and s = "emit 0 (encode resync) s2", folded e]
  show "outbound (settle b s) = outbound s @ encode resync" "tags (settle b s) = tags s"
    using u1(1,2) u2(1,2) u3(1,2) by (simp_all add: emit_def nap_def)
  show "\<exists>ds. inbound s = ds @ inbound (settle b s)"
    using u1(3) u2(3) u3(3) by (auto simp: emit_def nap_def)
qed

lemma hears_suffix: "hears t v xs \<Longrightarrow> hears t v (a @ xs)"
  unfolding hears_def by (metis append.assoc)

text \<open>An answer heard after some steps was in what arrived since the start.\<close>

lemma ask_after:
  assumes "fst (ask form w (fold run_q xs (settle b s))) = Some v"
    and "length [x \<leftarrow> xs. \<exists>f w. x = Ask f w] = k"
  shows "hears (qtag_of (drop k (tags s))) v (inbound s)"
proof -
  let ?s = "fold run_q xs (settle b s)"
  obtain ds where "inbound s = ds @ inbound ?s"
    using settle_effects(3) [of s b] run_q_effects [of xs "settle b s"] by (metis append.assoc)
  moreover have "tags ?s = drop k (tags s)"
    using run_q_effects [of xs "settle b s"] settle_effects(2) [of b s] assms(2) by simp
  moreover have "hears (qtag_of (tags ?s)) v (inbound ?s)"
    using ask_effects(4) [of form w ?s "Some v" "snd (ask form w ?s)" v] assms(1) by (metis prod.collapse)
  ultimately show ?thesis using hears_suffix by metis
qed

section \<open>The number that ends a core\<close>

lemma end_match_length: "end_match x = Some (ds, r) \<Longrightarrow> 9 < length x"
proof (induction x rule: end_match.induct)
  case (2 c cs)
  show ?case
  proof (rule ccontr)
    assume "\<not> 9 < length (c # cs)"
    then have "drop 9 (c # cs) = []" by simp
    then have "end_match cs = Some (ds, r)" using "2.prems" by (simp del: drop_Suc_Cons)
    then show False using "2.IH" \<open>drop 9 (c # cs) = []\<close> \<open>\<not> 9 < length (c # cs)\<close> by simp
  qed
qed simp

lemma takeWhile_extend: "dropWhile P x = c # r \<Longrightarrow> takeWhile P (x @ z) = takeWhile P x \<and> dropWhile P (x @ z) = c # r @ z"
  by (induction x) auto

lemma closed_end_append: "closed_end x = Some ds \<Longrightarrow> closed_end (x @ z) = Some ds"
proof -
  have "end_match x = Some (ds, c # r) \<Longrightarrow> end_match (x @ z) = Some (ds, c # r @ z)" for c r
  proof (induction x rule: end_match.induct)
    case (2 d cs)
    have len: "9 < length (d # cs)" by (rule end_match_length [OF "2.prems"])
    have sw: "starts_with ''CORE-END='' ((d # cs) @ z) = starts_with ''CORE-END='' (d # cs)"
      using len by (intro starts_with_long) simp
    have dr: "drop 9 ((d # cs) @ z) = drop 9 (d # cs) @ z" using len by (intro drop_append_le) simp
    show ?case
    proof (cases "starts_with ''CORE-END='' (d # cs) \<and> takeWhile is_digit (drop 9 (d # cs)) \<noteq> []")
      case True
      then have "takeWhile is_digit (drop 9 (d # cs)) = ds" "dropWhile is_digit (drop 9 (d # cs)) = c # r"
        using "2.prems" by (auto simp del: drop_Suc_Cons)
      then show ?thesis using True sw dr takeWhile_extend [of is_digit "drop 9 (d # cs)" c r z]
        by (simp del: drop_Suc_Cons)
    next
      case False
      then have cs: "end_match cs = Some (ds, c # r)" using "2.prems" by (auto simp del: drop_Suc_Cons split: if_splits)
      have "\<not> (starts_with ''CORE-END='' ((d # cs) @ z) \<and> takeWhile is_digit (drop 9 ((d # cs) @ z)) \<noteq> [])"
        unfolding sw dr using False len by (cases "drop 9 (d # cs)") auto
      then have "end_match ((d # cs) @ z) = end_match (cs @ z)"
        by (simp only: append_Cons end_match.simps if_False)
      then show ?thesis using "2.IH" [OF False cs] by simp
    qed
  qed simp
  then show "closed_end x = Some ds \<Longrightarrow> closed_end (x @ z) = Some ds"
    unfolding closed_end_def by (fastforce split: option.splits prod.splits list.splits)
qed

lemma closed_is_end: "closed_end x = Some ds \<Longrightarrow> core_end x = Some ds"
  by (auto simp: closed_end_def core_end_def split: option.splits list.splits)

lemma end_match_step:
  "x \<noteq> [] \<Longrightarrow> end_match x =
     (if starts_with ''CORE-END='' x \<and> takeWhile is_digit (drop 9 x) \<noteq> []
      then Some (takeWhile is_digit (drop 9 x), dropWhile is_digit (drop 9 x)) else end_match (tl x))"
  by (cases x) (simp, simp only: end_match.simps list.sel)

lemma end_match_here:
  assumes "list_all is_digit ds" "ds \<noteq> []" "\<not> is_digit c"
  shows "end_match (''CORE-END='' @ ds @ c # r) = Some (ds, c # r)"
proof -
  let ?x = "''CORE-END='' @ ds @ c # r"
  have "drop 9 ?x = ds @ c # r" by simp
  moreover have "takeWhile is_digit (ds @ c # r) = ds" "dropWhile is_digit (ds @ c # r) = c # r"
    using assms(1,3) by (auto simp: list_all_iff takeWhile_append2 dropWhile_append2)
  ultimately show ?thesis
    using end_match_step [of ?x] assms(2) starts_with_append [of "''CORE-END=''" "ds @ c # r"] by simp
qed

lemma end_match_after:
  "\<not> contains ''CORE-END='' (butlast (a @ ''CORE-END='')) \<Longrightarrow>
     end_match (a @ ''CORE-END='' @ y) = end_match (''CORE-END='' @ y)"
proof (induction a)
  case (Cons c a)
  let ?x = "(c # a) @ ''CORE-END='' @ y"
  note clean = first_occurrence [OF Cons.prems]
  have "end_match (a @ ''CORE-END='' @ y) = end_match (''CORE-END='' @ y)"
    by (rule Cons.IH [OF clean(2)]) simp
  moreover have "end_match ?x = end_match (tl ?x)"
    using clean(1) [of y] by (subst end_match_step) simp_all
  ultimately show ?case by simp
qed simp

section \<open>Properties\<close>

text \<open>
  C15: The corrected dump reads the whole number.  If the image prints \<open>CORE-END=\<close>, a number and something
  behind it, all within the half hour, then however the bytes are cut into reads \<open>qcore.py\<close> dumps up to
  that number, taken as an address, or as a size from the start of the core when it is too small to be
  one.
\<close>

theorem qcore_save_whole:
  assumes "sorted (map fst (inbound s))" and "inbound s = xs @ ys"
    and "list_all (\<lambda>x. fst x < clock s + 1800000) xs"
    and "list_all (\<lambda>x. snd x < 128 \<and> snd x \<noteq> 0) xs"
    and "texts xs = a @ ''CORE-END='' @ dec n @ c # r" and "\<not> is_digit c"
    and "\<not> contains ''CORE-END='' (butlast (a @ ''CORE-END=''))"
  shows "fst (qcore_save s) = Inr (if n < core_base then core_base + n else n)"
proof -
  define s1 where "s1 = send_line ''(modus-int::%save-image \"reel-lc.core\")'' s"
  have s1: "inbound s1 = inbound s" "clock s1 = clock s" by (simp_all add: s1_def send_line_def emit_def)
  obtain out s2 where r: "q_until (\<lambda>x. closed_end x \<noteq> None) 1800000 s1 = (out, s2)"
    by (cases "q_until (\<lambda>x. closed_end x \<noteq> None) 1800000 s1")
  have "end_match (texts xs) = Some (dec n, c # r)"
    unfolding assms(5) end_match_after [OF assms(7)]
    by (rule end_match_here [OF dec_digits dec_not_Nil assms(6)])
  then have "closed_end (texts xs) = Some (dec n)" by (simp add: closed_end_def)
  then have "closed_end (out @ []) = Some (dec n)"
  proof (intro socket.answered [OF closed_end_append r])
    show "inbound s1 = xs @ ys" using s1(1) assms(2) by simp
    show "sorted (map fst (inbound s1))" using s1(1) assms(1) by simp
    show "list_all (\<lambda>x. fst x < clock s1 + 1800000) xs" using s1(2) assms(3) by simp
  qed (use assms(4) in simp_all)
  then have "core_end out = Some (dec n)" using closed_is_end by simp
  then show ?thesis using r by (simp add: qcore_save_def s1_def Let_def)
qed


definition split_core :: board where
  "split_core =
     \<lparr>clock = 0, inbound = map (Pair 100) (ascii ''CORE-END=41'') @ map (Pair 110) (ascii (''5417424'' @ [nl])),
      outbound = [], tags = [], shown = []\<rparr>"

lemma digit_chars:
  "digit_char 97 0 = CHR ''0''" "digit_char 97 (Suc 0) = CHR ''1''" "digit_char 97 2 = CHR ''2''"
  "digit_char 97 4 = CHR ''4''" "digit_char 97 5 = CHR ''5''" "digit_char 97 7 = CHR ''7''"
  by code_simp+

lemma dec_415417424: "dec 415417424 = ''415417424''"
  by (simp add: digits_of.simps digit_chars)

lemma ascii_plain: "list_all (\<lambda>c. 0 < (of_char c :: nat) \<and> (of_char c :: nat) < 128) x \<Longrightarrow>
    list_all (\<lambda>b. b < 128 \<and> b \<noteq> 0) (ascii x) \<and> decode_text (ascii x) = x"
proof (induction x)
  case (Cons c x)
  then have "unat (of_nat (of_char c) :: byte) = of_char c" by simp
  then show ?case using Cons by (auto simp: ascii_def word_less_nat_alt unat_eq_0 [symmetric])
qed (simp add: ascii_def)

lemma qcore_save_whole_witness: "fst (qcore_save split_core) = Inr 415417424"
proof -
  let ?x = "''CORE-END=41''" and ?y = "''5417424'' @ [nl]"
  have p: "list_all (\<lambda>c. 0 < (of_char c :: nat) \<and> (of_char c :: nat) < 128) ?x"
    "list_all (\<lambda>c. 0 < (of_char c :: nat) \<and> (of_char c :: nat) < 128) ?y"
    by code_simp+
  let ?xs = "inbound split_core"
  have t: "texts ?xs = ''CORE-END='' @ dec 415417424 @ nl # []"
    using ascii_plain [of "?x @ ?y"] p by (simp add: texts_def split_core_def dec_415417424 ascii_def)
  have "fst (qcore_save split_core) = Inr (if 415417424 < core_base then core_base + 415417424 else 415417424)"
  proof (rule qcore_save_whole [where xs = ?xs and ys = "[]" and a = "[]" and c = nl and r = "[]"])
    show "list_all (\<lambda>x. snd x < 128 \<and> snd x \<noteq> 0) ?xs"
      using ascii_plain [OF p(1)] ascii_plain [OF p(2)] by (simp add: split_core_def list.pred_map comp_def)
    show "sorted (map fst ?xs)" by (simp add: split_core_def sorted_append ascii_def)
    show "list_all (\<lambda>x. fst x < clock split_core + 1800000) ?xs" by (auto simp: split_core_def list_all_iff)
    show "texts ?xs = [] @ ''CORE-END='' @ dec 415417424 @ nl # []" using t by simp
    show "\<not> contains ''CORE-END='' (butlast ([] @ ''CORE-END=''))" by (simp add: starts_with_def)
  qed (simp_all add: is_digit_def)
  then show ?thesis by (simp add: core_base_def)
qed

text \<open>The first version takes the digits that have arrived: the same image gives 41.\<close>

lemma qsave_save_race: "fst (qsave_save split_core) = Inr 41"
proof -
  define s1 where "s1 = send_line ''(modus-int::%save-image \"reel.core\")'' split_core"
  let ?x = "''CORE-END=41''"
  have p: "list_all (\<lambda>c. 0 < (of_char c :: nat) \<and> (of_char c :: nat) < 128) ?x" by code_simp
  have i: "inbound s1 = map (Pair 100) (ascii ?x) @ map (Pair 110) (ascii (''5417424'' @ [nl]))" "clock s1 = 0"
    by (simp_all add: s1_def send_line_def emit_def split_core_def)
  have r: "fst (socket_read s1) = ascii ?x"
    using i by (simp add: socket_read_def ascii_def)
  have e: "core_end ?x = Some ''41''"
    by (simp add: core_end_def end_match_step starts_with_def is_digit_def)
  have v: "dec_val ''41'' = 41"
    by (simp add: dec_val_def digit_val_def)
  have "fst (q_until (\<lambda>x. core_end x \<noteq> None) 1200000 s1) = ?x"
    using i(2) r e ascii_plain [OF p] by (simp add: q_until_def q_loop.simps [of _ _ "[]" s1] case_prod_beta Let_def)
  then show ?thesis using e v by (simp add: qsave_save_def s1_def Let_def case_prod_beta)
qed


text \<open>
  C22: The installer installs only under the JIT.  \<open>qinstall.py\<close> gives up, with nothing but three queries
  sent, unless the image has answered T under the tag of the query for \<open>*jit-on*\<close>; otherwise the forms
  it sends are fixed, and the installation is left out only if the image has answered 1, that the
  package is there.
\<close>

theorem qinstall_wire:
  "case qinstall_main s of (res, s') \<Rightarrow>
     \<exists>had. outbound s' = outbound s @ encode (resync @ q_text
         ([Ask ''(+ 20 22)'' 10000, Ask ''(setq *jit-on* t)'' 10000, Ask ''*jit-on*'' 10000] @
          (if res = Inl (SystemExit 1) then []
           else [Ask ''*jit-hot-only*'' 10000, Ask ''(setq modus-int::*tar-block-size* 512)'' 10000, Ask find_reel 10000] @
             (if had then [] else install_script) @
             [Ask find_reel 10000, Ask ''(if (fboundp (quote reel::make-decoder)) 1 0)'' 10000])) (tags s))
       \<and> (res = Inl (SystemExit 1) \<or> (res = Inr had \<and> hears (qtag_of (drop 2 (tags s))) ''T'' (inbound s)
            \<and> (if had then hears (qtag_of (drop 5 (tags s))) ''1'' (inbound s) else True)))"
proof -
  let ?a = "[Ask ''(+ 20 22)'' 10000, Ask ''(setq *jit-on* t)'' 10000]"
  let ?b = "[Ask ''*jit-hot-only*'' 10000, Ask ''(setq modus-int::*tar-block-size* 512)'' 10000]"
  let ?c = "[Ask find_reel 10000, Ask ''(if (fboundp (quote reel::make-decoder)) 1 0)'' 10000]"
  define s0 where "s0 = settle 240000 s"
  define s1 where "s1 = fold run_q ?a s0"
  define v where "v = fst (ask ''*jit-on*'' 10000 s1)"
  define s2 where "s2 = fold run_q (?a @ [Ask ''*jit-on*'' 10000] @ ?b) s0"
  define r where "r = fst (ask find_reel 10000 s2)"
  have sent: "outbound (fold run_q xs s0) = outbound s @ encode (resync @ q_text xs (tags s))" for xs
    using run_q_effects [of xs s0] settle_effects(1,2) [of 240000 s] by (simp add: s0_def encode_simps)
  have m: "qinstall_main s =
      (if v \<noteq> Some ''T'' then (Inl (SystemExit 1), fold run_q (?a @ [Ask ''*jit-on*'' 10000]) s0)
       else (Inr (r = Some ''1''), fold run_q (?a @ [Ask ''*jit-on*'' 10000] @ ?b @ [Ask find_reel 10000] @
           (if r = Some ''1'' then [] else install_script) @ ?c) s0))"
    by (simp add: qinstall_main_def Let_def case_prod_beta s0_def s1_def s2_def v_def r_def)
  show ?thesis
  proof (cases "v = Some ''T''")
    case False
    then show ?thesis using sent [of "?a @ [Ask ''*jit-on*'' 10000]"] by (simp add: m)
  next
    case True
    have h: "hears (qtag_of (drop 2 (tags s))) ''T'' (inbound s)"
      using True unfolding v_def s1_def s0_def by (rule ask_after) simp
    have i: "if r = Some ''1'' then hears (qtag_of (drop 5 (tags s))) ''1'' (inbound s) else True"
      using ask_after [of find_reel 10000 "?a @ [Ask ''*jit-on*'' 10000] @ ?b" 240000 s "''1''" 5]
      unfolding r_def s2_def s0_def by simp
    have m2: "qinstall_main s = (Inr (r = Some ''1''), fold run_q (?a @ [Ask ''*jit-on*'' 10000] @ ?b @
        [Ask find_reel 10000] @ (if r = Some ''1'' then [] else install_script) @ ?c) s0)"
      using True m by simp
    show ?thesis
      unfolding m2 prod.case
      by (intro exI [of _ "r = Some ''1''"])
        (simp only: sent append.simps sum.distinct if_False h simp_thms refl, rule i)
  qed
qed


end
