(* ===== verification/NetbootPlain.thy ===== *)
theory NetbootPlain
  imports NetbootGz
begin

text \<open>
  The netboot scripts without retries: \<open>scripts/netboot-core.py\<close>, which loads a core and a kernel and
  starts it, and \<open>docs/reel-on-zero/zlinux/go-*.py\<close>, four copies of one script that start a bare payload.
  Neither looks at what U-Boot answers to a transfer, so what they send is fixed up to the number of
  times the network has to be bound; \<open>dialogue\<close> is that text.
\<close>

section \<open>The scripts\<close>

text \<open>A command written at once, and the pump after it.\<close>

definition tell :: "string \<Rightarrow> port \<Rightarrow> bytes \<times> port" where
  "tell s p = get (put (line s) p)"

fun core_knock :: "nat \<Rightarrow> port \<Rightarrow> port" where
  "core_knock 0 p = p"
| "core_knock (Suc n) p = core_knock n (snd (get (put [0x0D] p)))"

fun core_bind :: "nat \<Rightarrow> port \<Rightarrow> port" where
  "core_bind 0 p = p"
| "core_bind (Suc n) p =
     (let (b, p) = tell ''ping 10.0.0.1'' p
      in if says ''is alive'' b then p else core_bind n (snd (tell ''usb reset'' p)))"

text \<open>The wait for the REPL, when there is something to send to it: at most \<open>k\<close> reads.\<close>

fun await_repl :: "nat \<Rightarrow> bytes \<Rightarrow> port \<Rightarrow> port" where
  "await_repl 0 buf p = p"
| "await_repl (Suc k) buf p =
     (let (b, p) = get p
      in if says ''Modus CL REPL'' (buf @ b) \<or> says ''CORE-RESTORED'' (buf @ b) then p
         else await_repl k (buf @ b) p)"

record core_args =
  c_img :: string
  c_core :: "string option"
  c_addr :: string
  c_send :: "string list"

definition core_run :: "core_args \<Rightarrow> nat \<Rightarrow> nat \<Rightarrow> port \<Rightarrow> port" where
  "core_run a knocks k p =
     (let p = core_knock knocks p;
          p = snd (tell ''setenv ipaddr 10.0.0.2'' p);
          p = snd (tell ''setenv serverip 10.0.0.1'' p);
          p = core_bind 6 (snd (tell ''usb start'' p));
          p = (case given (c_core a) of Some core \<Rightarrow> snd (tell (''tftpboot 0x18000000 '' @ core) p) | None \<Rightarrow> p);
          p = snd (tell (''tftpboot '' @ c_addr a @ '' '' @ c_img a) p);
          p = put (line (''go '' @ c_addr a)) p;
          p = snd (get (if c_send a \<noteq> [] then await_repl k [] p else p));
          p = fold (\<lambda>l p. snd (get (paced (encode (l @ [cr, nl])) p))) (c_send a) p
      in snd (get p))"

definition go_run :: "string \<Rightarrow> nat \<Rightarrow> port \<Rightarrow> port" where
  "go_run payload knocks p =
     (let p = knock knocks p;
          p = snd (say ''setenv ipaddr 10.0.0.2'' p);
          p = snd (say ''setenv serverip 10.0.0.1'' p);
          p = gz_bind 6 (snd (say ''usb start'' p));
          p = snd (say (''tftpboot 0x01000000 '' @ payload) p)
      in snd (say ''go 0x01000000'' p))"

definition go_pmu :: "nat \<Rightarrow> port \<Rightarrow> port" where "go_pmu = go_run ''pmu.bin''"
definition go_dfr0 :: "nat \<Rightarrow> port \<Rightarrow> port" where "go_dfr0 = go_run ''dfr0.bin''"
definition go_pmu_clk :: "nat \<Rightarrow> port \<Rightarrow> port" where "go_pmu_clk = go_run ''pmu-clk.bin''"
definition go_pmu_wfe :: "nat \<Rightarrow> port \<Rightarrow> port" where "go_pmu_wfe = go_run ''pmu-wfe.bin''"

section \<open>What they send\<close>

text \<open>The pings and resets when the network answers after \<open>k\<close> resets, or not within six pings.\<close>

definition binding :: "nat \<Rightarrow> nat \<Rightarrow> bytes" where
  "binding n k = concat (replicate k (line ''ping 10.0.0.1'' @ line ''usb reset'')) @
     (if k < n then line ''ping 10.0.0.1'' else [])"

definition greeting :: "nat \<Rightarrow> nat \<Rightarrow> bytes" where
  "greeting knocks k = replicate knocks 0x0D @ line ''setenv ipaddr 10.0.0.2'' @
     line ''setenv serverip 10.0.0.1'' @ line ''usb start'' @ binding 6 k"

lemma wire_tell [simp]: "wire (snd (tell s p)) = wire p @ line s"
  by (simp add: tell_def)

lemma wire_knock: "wire (knock n p) = wire p @ replicate n 0x0D"
  by (induction n arbitrary: p) (simp_all add: replicate_app_Cons_same)

lemma wire_core_knock: "wire (core_knock n p) = wire p @ replicate n 0x0D"
  by (induction n arbitrary: p) (simp_all add: replicate_app_Cons_same)

lemma binding_Suc: "binding (Suc n) (Suc k) = line ''ping 10.0.0.1'' @ line ''usb reset'' @ binding n k"
  by (simp add: binding_def)

lemma wire_bind: "\<exists>k \<le> n. wire (gz_bind n p) = wire p @ binding n k"
proof (induction n arbitrary: p)
  case (Suc n)
  define r where "r = say ''ping 10.0.0.1'' p"
  obtain k where k: "k \<le> n" "wire (gz_bind n (snd (say ''usb reset'' (snd r)))) = wire (snd (say ''usb reset'' (snd r))) @ binding n k"
    using Suc.IH by blast
  have "gz_bind (Suc n) p = (if says ''is alive'' (fst r) then snd r else gz_bind n (snd (say ''usb reset'' (snd r))))"
    by (simp add: r_def case_prod_beta)
  note step = this
  show ?case
  proof (cases "says ''is alive'' (fst r)")
    case True
    have "binding (Suc n) 0 = line ''ping 10.0.0.1''" by (simp add: binding_def)
    then show ?thesis unfolding step using True by (intro exI [of _ 0]) (simp add: r_def)
  next
    case False
    then show ?thesis unfolding step using k binding_Suc [of n k]
      by (intro exI [of _ "Suc k"]) (simp add: r_def)
  qed
qed (simp add: binding_def)

lemma wire_core_bind: "\<exists>k \<le> n. wire (core_bind n p) = wire p @ binding n k"
proof (induction n arbitrary: p)
  case (Suc n)
  define r where "r = tell ''ping 10.0.0.1'' p"
  obtain k where k: "k \<le> n" "wire (core_bind n (snd (tell ''usb reset'' (snd r)))) = wire (snd (tell ''usb reset'' (snd r))) @ binding n k"
    using Suc.IH by blast
  have "core_bind (Suc n) p = (if says ''is alive'' (fst r) then snd r else core_bind n (snd (tell ''usb reset'' (snd r))))"
    by (simp add: r_def case_prod_beta)
  note step = this
  show ?case
  proof (cases "says ''is alive'' (fst r)")
    case True
    have "binding (Suc n) 0 = line ''ping 10.0.0.1''" by (simp add: binding_def)
    then show ?thesis unfolding step using True by (intro exI [of _ 0]) (simp add: r_def)
  next
    case False
    then show ?thesis unfolding step using k binding_Suc [of n k]
      by (intro exI [of _ "Suc k"]) (simp add: r_def)
  qed
qed (simp add: binding_def)

lemma wire_await [simp]: "wire (await_repl k buf p) = wire p"
proof (induction k arbitrary: buf p)
  case (Suc k)
  have "wire (snd (get p)) = wire p" by simp
  then show ?case using Suc by (simp add: case_prod_beta Let_def)
qed simp

lemma wire_sends:
  "wire (fold (\<lambda>l p. snd (get (paced (encode (l @ [cr, nl])) p))) ls p)
     = wire p @ concat (map (\<lambda>l. encode (l @ [cr, nl])) ls)"
  by (induction ls arbitrary: p) simp_all

section \<open>Properties\<close>

text \<open>
  C35: The whole dialogue of \<open>netboot-core.py\<close>.  Whatever U-Boot answers, the script sends the greeting
  with some number of network resets, the transfer of the core if one was given, the transfer of the
  kernel, then \<open>go\<close>, then the lines to send; the answers decide only the number of resets.
\<close>

theorem core_dialogue:
  "\<exists>k \<le> 6. wire (core_run a knocks j p) = wire p @ greeting knocks k @
     (case given (c_core a) of Some core \<Rightarrow> line (''tftpboot 0x18000000 '' @ core) | None \<Rightarrow> []) @
     line (''tftpboot '' @ c_addr a @ '' '' @ c_img a) @ line (''go '' @ c_addr a) @
     concat (map (\<lambda>l. encode (l @ [cr, nl])) (c_send a))"
proof -
  define p1 where "p1 = snd (tell ''usb start'' (snd (tell ''setenv serverip 10.0.0.1''
      (snd (tell ''setenv ipaddr 10.0.0.2'' (core_knock knocks p))))))"
  obtain k where k: "k \<le> 6" "wire (core_bind 6 p1) = wire p1 @ binding 6 k" using wire_core_bind by blast
  have "wire p1 @ binding 6 k = wire p @ greeting knocks k"
    by (simp add: p1_def greeting_def wire_core_knock)
  then show ?thesis using k
    unfolding core_run_def Let_def p1_def [symmetric]
    by (intro exI [of _ k]) (simp add: wire_sends split: option.splits)
qed

text \<open>
  The whole dialogue of the \<open>go\<close> scripts.  Each of the four sends the greeting, the transfer of its own
  payload to 0x01000000 and \<open>go 0x01000000\<close>, whatever U-Boot answers.
\<close>

lemma go_dialogue:
  "\<exists>k \<le> 6. wire (go_run payload knocks p) = wire p @ greeting knocks k @
     line (''tftpboot 0x01000000 '' @ payload) @ line ''go 0x01000000''"
proof -
  define p1 where "p1 = snd (say ''usb start'' (snd (say ''setenv serverip 10.0.0.1''
      (snd (say ''setenv ipaddr 10.0.0.2'' (knock knocks p))))))"
  obtain k where k: "k \<le> 6" "wire (gz_bind 6 p1) = wire p1 @ binding 6 k" using wire_bind by blast
  have "wire p1 @ binding 6 k = wire p @ greeting knocks k"
    by (simp add: p1_def greeting_def wire_knock)
  then show ?thesis using k
    unfolding go_run_def Let_def p1_def [symmetric] by (intro exI [of _ k]) simp
qed


end
