(* ===== verification/NetbootLinux.thy ===== *)
theory NetbootLinux
  imports NetbootPlain
begin

text \<open>
  \<open>docs/reel-on-zero/zlinux/netboot-linux.py\<close>: the netboot of a Linux kernel, an initial ramdisk and a
  device tree, with the retries of \<open>netboot-core-gz.py\<close>.  \<open>lx_tftp\<close> is the retry loop, \<open>file_size\<close> and
  \<open>dram_size\<close> are the two searches in what U-Boot prints, and \<open>lx_run\<close> is the script with its exit
  status.  Echoing to standard output is left out.
\<close>

section \<open>The script\<close>

record lx_args =
  l_kernel :: string
  l_initrd :: string
  l_dtb :: string
  l_daddr :: string
  l_kaddr :: string
  l_iaddr :: string
  l_bootargs :: string
  l_marker :: string
  l_tries :: int

definition lx_defaults :: lx_args where
  "lx_defaults =
     \<lparr>l_kernel = ''linux.img.gz'', l_initrd = ''initrd.gz'', l_dtb = ''zero2w.dtb'', l_daddr = ''0x02f00000'',
      l_kaddr = ''0x01000000'', l_iaddr = ''0x03000000'',
      l_bootargs = ''console=ttyS0,115200 earlycon=uart8250,mmio32,0x3f215040 keep_bootcon clk_ignore_unused rdinit=/init loglevel=7'',
      l_marker = ''ZLINUX END'', l_tries = 5\<rparr>"

fun lx_tftp :: "nat \<Rightarrow> string \<Rightarrow> string \<Rightarrow> port \<Rightarrow> bool \<times> port" where
  "lx_tftp 0 addr name p = (False, p)"
| "lx_tftp (Suc n) addr name p =
     (let (b, p) = say (''tftpboot '' @ addr @ '' '' @ name) p
      in if says ''Bytes transferred'' b then (True, p)
         else let p = snd (get (paced [0x03] p));
                  p = snd (get (paced [0x03, 0x0D] p));
                  p = snd (say ''ping 10.0.0.1'' (usb_cycle p))
              in lx_tftp n addr name p)"

text \<open>The classes \<open>[0-9a-f]\<close> and \<open>\s\<close> of a bytes pattern.\<close>

definition hex_byte :: "byte \<Rightarrow> bool" where
  "hex_byte b \<longleftrightarrow> (48 \<le> b \<and> b \<le> 57) \<or> (97 \<le> b \<and> b \<le> 102)"

definition space_byte :: "byte \<Rightarrow> bool" where
  "space_byte b \<longleftrightarrow> b = 32 \<or> (9 \<le> b \<and> b \<le> 13)"

text \<open>\<open>rb'filesize=([0-9a-f]+)'\<close>\<close>

fun file_size :: "bytes \<Rightarrow> bytes option" where
  "file_size [] = None"
| "file_size (b # bs) =
     (if starts_with (ascii ''filesize='') (b # bs) \<and> takeWhile hex_byte (drop 9 (b # bs)) \<noteq> []
      then Some (takeWhile hex_byte (drop 9 (b # bs))) else file_size bs)"

definition initrd_size :: "bytes \<Rightarrow> string" where
  "initrd_size b = (case file_size b of Some h \<Rightarrow> decode_text h | None \<Rightarrow> ''None'')"

text \<open>\<open>rb'-> size\s*=\s*0x([0-9a-f]+)'\<close>; the part after \<open>-> size\<close> first.\<close>

definition size_value :: "bytes \<Rightarrow> bytes option" where
  "size_value r =
     (case dropWhile space_byte r of
        b # r \<Rightarrow>
          if b = 61 then
            let v = dropWhile space_byte r
            in if starts_with (ascii ''0x'') v \<and> takeWhile hex_byte (drop 2 v) \<noteq> []
               then Some (takeWhile hex_byte (drop 2 v)) else None
          else None
      | [] \<Rightarrow> None)"

fun dram_size :: "bytes \<Rightarrow> bytes option" where
  "dram_size [] = None"
| "dram_size (b # bs) =
     (if starts_with (ascii ''-> size'') (b # bs) \<and> size_value (drop 7 (b # bs)) \<noteq> None
      then size_value (drop 7 (b # bs)) else dram_size bs)"

text \<open>The wait for the end marker: at most \<open>k\<close> reads.\<close>

fun lx_capture :: "nat \<Rightarrow> string \<Rightarrow> bytes \<Rightarrow> port \<Rightarrow> port" where
  "lx_capture 0 marker b p = p"
| "lx_capture (Suc k) marker b p =
     (let (c, p) = get p
      in if contains (encode marker) (b @ c) then p else lx_capture k marker (b @ c) p)"

definition lx_setup :: "nat \<Rightarrow> port \<Rightarrow> port" where
  "lx_setup knocks p =
     (let p = knock knocks p;
          p = snd (say ''setenv ipaddr 10.0.0.2'' p);
          p = snd (say ''setenv serverip 10.0.0.1'' p);
          p = snd (say ''setenv tftpblocksize 512'' p);
          p = snd (say ''usb start'' p)
      in gz_bind 6 p)"

text \<open>The device tree commands between the last transfer and the boot.\<close>

definition lx_tree :: "lx_args \<Rightarrow> string \<Rightarrow> string list" where
  "lx_tree a dram =
     [''fdt addr '' @ l_daddr a, ''fdt resize 0x8000'', ''fdt memory 0x0 0x'' @ dram, ''fdt print /memory@0'',
      ''fdt set /soc/serial@7e201000 status disabled'', ''fdt set /soc/serial@7e215040 status disabled'',
      ''fdt print /soc/serial@7e215040 status'', ''fdt print /aliases'', ''fdt header'',
      ''setenv bootargs '' @ l_bootargs a]"

definition lx_boot :: "lx_args \<Rightarrow> string \<Rightarrow> string" where
  "lx_boot a isize = ''booti '' @ l_kaddr a @ '' '' @ l_iaddr a @ '':0x'' @ isize @ '' '' @ l_daddr a"

definition lx_run :: "lx_args \<Rightarrow> nat \<Rightarrow> nat \<Rightarrow> port \<Rightarrow> nat \<times> port" where
  "lx_run a knocks k p =
     (let tries = nat (l_tries a); (ok, p) = lx_tftp tries ''0x08000000'' (l_kernel a) (lx_setup knocks p)
      in if \<not> ok then (2, p)
         else let (b, p) = say (''unzip 0x08000000 '' @ l_kaddr a) p
         in if \<not> says ''Uncompressed size'' b then (3, p)
         else let (ok, p) = lx_tftp tries (l_iaddr a) (l_initrd a) p
         in if \<not> ok then (2, p)
         else let (b, p) = say ''printenv filesize'' p;
                  isize = initrd_size b;
                  (ok, p) = lx_tftp tries (l_daddr a) (l_dtb a) p
         in if \<not> ok then (2, p)
         else let (b, p) = say ''bdinfo'' p;
                  dram = (case dram_size b of Some h \<Rightarrow> decode_text h | None \<Rightarrow> ''1c000000'');
                  p = fold (\<lambda>c p. snd (say c p)) (lx_tree a dram) p;
                  p = paced (line (lx_boot a isize)) p
              in (0, lx_capture k (l_marker a) [] p))"

section \<open>What it sends\<close>

definition no_boot :: "bytes \<Rightarrow> bool" where
  "no_boot l \<longleftrightarrow> \<not> starts_with (ascii ''booti'') l"

lemmas no_boot_eval = no_boot_def starts_with_def ascii_def line_def encode_def utf8_char_def

lemma no_boot_lines:
  "no_boot [0x0D]" "no_boot [0x03]" "no_boot [0x03, 0x0D]" "no_boot (line (CHR ''t'' # s))"
  "no_boot (line (CHR ''u'' # s))" "no_boot (line (CHR ''p'' # s))" "no_boot (line (CHR ''s'' # s))"
  "no_boot (line (CHR ''f'' # s))" "no_boot (line (CHR ''b'' # CHR ''d'' # s))"
  by (simp_all add: no_boot_eval)

text \<open>Only lines that are not a boot command between the two states.\<close>

abbreviation quiet_ext :: "port \<Rightarrow> port \<Rightarrow> bool" where "quiet_ext \<equiv> uart.ext no_boot"

lemma quiet_paced_get: "quiet_ext p q \<Longrightarrow> no_boot b \<Longrightarrow> quiet_ext p (snd (get (paced b q)))"
  unfolding paced_def by (intro uart.ext_recv uart.ext_paced)

lemma quiet_say: "quiet_ext p q \<Longrightarrow> no_boot (line s) \<Longrightarrow> quiet_ext p (snd (say s q))"
  unfolding say_def by (rule quiet_paced_get)

lemma quiet_cycle: "quiet_ext p q \<Longrightarrow> quiet_ext p (usb_cycle q)"
  unfolding usb_cycle_def by (intro quiet_say no_boot_lines)

lemma quiet_knock: "quiet_ext p q \<Longrightarrow> quiet_ext p (knock n q)"
proof (induction n arbitrary: q)
  case (Suc n)
  then show ?case using Suc.IH [OF quiet_paced_get [OF Suc.prems no_boot_lines(1)]] by simp
qed simp

lemma quiet_bind: "quiet_ext p q \<Longrightarrow> quiet_ext p (gz_bind n q)"
proof (induction n arbitrary: q)
  case (Suc n)
  define r where "r = say ''ping 10.0.0.1'' q"
  have r: "quiet_ext p (snd r)" unfolding r_def by (intro quiet_say Suc.prems no_boot_lines)
  then have "quiet_ext p (gz_bind n (snd (say ''usb reset'' (snd r))))" by (intro Suc.IH quiet_say no_boot_lines)
  then show ?case using r by (simp add: r_def [symmetric] case_prod_beta)
qed simp

lemma lx_tftp_step:
  "lx_tftp (Suc n) addr name p =
     (let r = say (''tftpboot '' @ addr @ '' '' @ name) p
      in if says ''Bytes transferred'' (fst r) then (True, snd r)
         else lx_tftp n addr name
           (snd (say ''ping 10.0.0.1'' (usb_cycle (snd (get (paced [0x03, 0x0D] (snd (get (paced [0x03] (snd r)))))))))))"
  by (simp add: case_prod_beta Let_def)

declare lx_tftp.simps(2) [simp del]

lemma quiet_tftp: "quiet_ext p q \<Longrightarrow> quiet_ext p (snd (lx_tftp n addr name q))"
proof (induction n arbitrary: q)
  case (Suc n)
  define r where "r = say (''tftpboot '' @ addr @ '' '' @ name) q"
  have r: "quiet_ext p (snd r)"
    unfolding r_def append_Cons by (intro quiet_say Suc.prems no_boot_lines)
  then have "quiet_ext p (snd (lx_tftp n addr name
      (snd (say ''ping 10.0.0.1'' (usb_cycle (snd (get (paced [0x03, 0x0D] (snd (get (paced [0x03] (snd r))))))))))))"
    by (intro Suc.IH quiet_say quiet_cycle quiet_paced_get no_boot_lines)
  then show ?case using r unfolding lx_tftp_step Let_def r_def [symmetric] by simp
qed simp

lemma lx_heard_tftp:
  "fst (lx_tftp n addr name q) \<Longrightarrow> later p q \<Longrightarrow> heard ''Bytes transferred'' p (snd (lx_tftp n addr name q))"
proof (induction n arbitrary: q)
  case (Suc n)
  define r where "r = say (''tftpboot '' @ addr @ '' '' @ name) q"
  show ?case
  proof (cases "says ''Bytes transferred'' (fst r)")
    case True
    then have "heard ''Bytes transferred'' p (snd r)"
      unfolding r_def by (intro heard_say Suc.prems(2)) simp_all
    then show ?thesis using True unfolding lx_tftp_step Let_def r_def [symmetric] by simp
  next
    case False
    define q3 where
      "q3 = snd (say ''ping 10.0.0.1'' (usb_cycle (snd (get (paced [0x03, 0x0D] (snd (get (paced [0x03] (snd r)))))))))"
    have "later p (snd r)" unfolding r_def by (intro later_say Suc.prems(2))
    then have "later p q3" unfolding q3_def usb_cycle_def by (intro later_say later_paced_get)
    then show ?thesis using Suc.IH [of q3] Suc.prems(1) False
      unfolding lx_tftp_step Let_def r_def [symmetric] q3_def [symmetric] by simp
  qed
qed simp

lemma quiet_setup: "quiet_ext p (lx_setup knocks p)"
  unfolding lx_setup_def Let_def by (intro quiet_bind quiet_say quiet_knock uart.ext_refl no_boot_lines)

lemma quiet_tree: "quiet_ext p q \<Longrightarrow> quiet_ext p (fold (\<lambda>c p. snd (say c p)) (lx_tree a dram) q)"
  unfolding lx_tree_def fold_simps comp_def id_def append_Cons by (intro quiet_say no_boot_lines)

lemma wire_capture [simp]: "wire (lx_capture k marker b p) = wire p"
proof (induction k arbitrary: b p)
  case (Suc k)
  have "wire (snd (get p)) = wire p" by simp
  then show ?case using Suc by (simp add: case_prod_beta Let_def)
qed simp

lemma later_capture: "later p q \<Longrightarrow> later p (lx_capture k marker b q)"
proof (induction k arbitrary: b q)
  case (Suc k)
  then show ?case using later_trans [OF Suc.prems later_get] by (simp add: case_prod_beta Let_def)
qed simp

lemma later_fold: "later p q \<Longrightarrow> later p (fold (\<lambda>c p. snd (say c p)) cs q)"
  by (induction cs arbitrary: q) (simp_all add: later_say)

lemma file_size_hex: "file_size b = Some h \<Longrightarrow> h \<noteq> [] \<and> list_all hex_byte h"
  by (induction b rule: file_size.induct) (auto simp: list_all_iff dest: set_takeWhileD split: if_splits)

section \<open>Properties\<close>


definition lx_sample :: port where
  "lx_sample = \<lparr>tx = [], rx = [[], [], [], [], ascii ''is alive'', ascii ''Bytes transferred'', ascii ''Uncompressed size'',
     ascii ''Bytes transferred'', ascii ''filesize=1a2b'', ascii ''Bytes transferred'', ascii ''-> size = 0x1c000000'']\<rparr>"

lemma said:
  assumes "rx p = w # ws"
  shows "fst (say s p) = w" "rx (snd (say s p)) = ws"
  using rx_say [OF assms] by (metis fst_conv, blast)

lemma lx_tftp_hit:
  assumes "rx p = w # ws" "says ''Bytes transferred'' w"
  shows "fst (lx_tftp (Suc n) addr name p)" "rx (snd (lx_tftp (Suc n) addr name p)) = ws"
  using assms(2) unfolding lx_tftp_step Let_def
  by (simp_all only: said [OF assms(1)] if_True fst_conv snd_conv)

lemma lx_run_status_ok:
  assumes "rx (lx_setup knocks p) = w1 # w2 # w3 # w4 # w5 # ws" "0 < l_tries a"
    and "says ''Bytes transferred'' w1" "says ''Uncompressed size'' w2" "says ''Bytes transferred'' w3"
      "says ''Bytes transferred'' w5"
  shows "fst (lx_run a knocks k p) = 0"
proof -
  obtain n where n: "nat (l_tries a) = Suc n" using assms(2) by (metis gr0_implies_Suc zero_less_nat_eq)
  define x1 where "x1 = lx_tftp (Suc n) ''0x08000000'' (l_kernel a) (lx_setup knocks p)"
  have x1: "fst x1" "rx (snd x1) = w2 # w3 # w4 # w5 # ws"
    unfolding x1_def by (rule lx_tftp_hit [OF assms(1,3)])+
  define x2 where "x2 = say (''unzip 0x08000000 '' @ l_kaddr a) (snd x1)"
  have x2: "fst x2 = w2" "rx (snd x2) = w3 # w4 # w5 # ws"
    unfolding x2_def by (rule said [OF x1(2)])+
  define x3 where "x3 = lx_tftp (Suc n) (l_iaddr a) (l_initrd a) (snd x2)"
  have x3: "fst x3" "rx (snd x3) = w4 # w5 # ws"
    unfolding x3_def by (rule lx_tftp_hit [OF x2(2) assms(5)])+
  define x4 where "x4 = say ''printenv filesize'' (snd x3)"
  have x4: "rx (snd x4) = w5 # ws" unfolding x4_def by (rule said [OF x3(2)])
  have x5: "fst (lx_tftp (Suc n) (l_daddr a) (l_dtb a) (snd x4))" by (rule lx_tftp_hit [OF x4 assms(6)])
  show ?thesis
    unfolding lx_run_def Let_def case_prod_beta n x1_def [symmetric] x2_def [symmetric] x3_def [symmetric]
      x4_def [symmetric]
    using x1(1) x2(1) x3(1) x5 assms(4) by simp
qed

lemma lx_sample_setup: "rx (lx_setup 0 lx_sample) =
    [ascii ''Bytes transferred'', ascii ''Uncompressed size'', ascii ''Bytes transferred'', ascii ''filesize=1a2b'',
     ascii ''Bytes transferred'', ascii ''-> size = 0x1c000000'']" (is "_ = ?rest")
proof -
  define p1 where "p1 = snd (say ''setenv ipaddr 10.0.0.2'' lx_sample)"
  define p2 where "p2 = snd (say ''setenv serverip 10.0.0.1'' p1)"
  define p3 where "p3 = snd (say ''setenv tftpblocksize 512'' p2)"
  define p4 where "p4 = snd (say ''usb start'' p3)"
  have "rx p1 = [] # [] # [] # ascii ''is alive'' # ?rest"
    unfolding p1_def by (rule rx_say [THEN conjunct2]) (simp add: lx_sample_def)
  then have "rx p2 = [] # [] # ascii ''is alive'' # ?rest" unfolding p2_def by (rule rx_say [THEN conjunct2])
  then have "rx p3 = [] # ascii ''is alive'' # ?rest" unfolding p3_def by (rule rx_say [THEN conjunct2])
  then have p4: "rx p4 = ascii ''is alive'' # ?rest" unfolding p4_def by (rule rx_say [THEN conjunct2])
  have "lx_setup 0 lx_sample = gz_bind (Suc 5) p4"
    by (simp add: lx_setup_def p1_def p2_def p3_def p4_def)
  also have "\<dots> = snd (say ''ping 10.0.0.1'' p4)"
    using rx_say [OF p4, of "''ping 10.0.0.1''"] says_self [of "''is alive''"]
    by (simp only: gz_bind.simps Let_def case_prod_beta) (metis fst_conv)
  finally show ?thesis using rx_say [OF p4, of "''ping 10.0.0.1''"] by simp
qed


text \<open>
  The size is hexadecimal text, or, when U-Boot printed none, the word \<open>None\<close>: the boot command then
  names a ramdisk of size \<open>0xNone\<close>.
\<close>

lemma initrd_size_cases:
  "initrd_size b = ''None'' \<and> file_size b = None \<or>
   (\<exists>h. initrd_size b = decode_text h \<and> h \<noteq> [] \<and> list_all hex_byte h)"
  unfolding initrd_size_def using file_size_hex [of b] by (cases "file_size b") auto

lemma booti_without_size:
  "lx_boot lx_defaults (initrd_size []) = ''booti 0x01000000 0x03000000:0xNone 0x02f00000''"
  by (simp add: lx_boot_def lx_defaults_def initrd_size_def)

end
