(* ===== verification/BarePerf.thy ===== *)
theory BarePerf
  imports PyText
begin

text \<open>
  \<open>net/bare-perf-report.py\<close>: the profile of a board from the samples it printed.  \<open>load_map\<close> reads the
  symbol maps, \<open>sym\<close> finds the function an address is in by binary search, \<open>perf_line\<close> is the loop over
  the printed lines and \<open>perf_report\<close> the script.  A report keeps the rows of the flat profile as pairs of
  name and count; the percentage printed before them is not modelled.  Files are a function from names to
  contents.
\<close>

section \<open>Symbol maps\<close>

record map_entry =
  e_addr :: int
  e_length :: "int option"
  e_name :: string

text \<open>\<open>s.split(None, 1)\<close>\<close>

definition split_word :: "string \<Rightarrow> string list" where
  "split_word s =
     (let t = dropWhile py_space s;
          r = dropWhile py_space (dropWhile (\<lambda>c. \<not> py_space c) t)
      in if t = [] then [] else if r = [] then [takeWhile (\<lambda>c. \<not> py_space c) t]
         else [takeWhile (\<lambda>c. \<not> py_space c) t, r])"

text \<open>What one line adds to the map: an entry of the image map, one of the runtime map, or nothing.\<close>

definition map_line :: "int \<Rightarrow> string \<Rightarrow> map_entry list res" where
  "map_line base line =
     (if starts_with ''#'' line then Inr []
      else let f = split_on tab (rstrip_of (\<lambda>c. c = nl) line)
           in if length f = 4 then
                res_bind (py_int 16 (f ! 0)) (\<lambda>a.
                res_bind (py_int 10 (f ! 1)) (\<lambda>n.
                  Inr [\<lparr>e_addr = a + base, e_length = Some n, e_name = f ! 3\<rparr>]))
              else (case split_word line of
                      [a, name] \<Rightarrow>
                        (case py_int 10 a of
                           Inr v \<Rightarrow> Inr [\<lparr>e_addr = v, e_length = None, e_name = strip name\<rparr>]
                         | Inl _ \<Rightarrow> Inr [])
                    | _ \<Rightarrow> Inr []))"

type_synonym files = "string \<Rightarrow> string res"

definition map_file :: "files \<Rightarrow> string \<Rightarrow> map_entry list res" where
  "map_file fs p =
     (case partition_at (CHR ''@'') p of (name, _, b) \<Rightarrow>
        res_bind (if b \<noteq> [] then py_int 16 b else Inr 0) (\<lambda>base.
        res_bind (fs name) (\<lambda>text.
        res_bind (res_map (map_line base) (file_lines text)) (\<lambda>es. Inr (concat es)))))"

definition map_key :: "map_entry \<Rightarrow> int \<times> bool" where
  "map_key e = (e_addr e, e_length e = None)"

definition load_map :: "files \<Rightarrow> string \<Rightarrow> map_entry list res" where
  "load_map fs spec =
     res_bind (res_map (map_file fs) (split_on (CHR '','') spec)) (\<lambda>es. Inr (sort_key map_key (concat es)))"

section \<open>The lookup\<close>

text \<open>\<open>bisect.bisect_right\<close>, between \<open>lo\<close> and \<open>hi\<close>.\<close>

function bisect_loop :: "int list \<Rightarrow> int \<Rightarrow> nat \<Rightarrow> nat \<Rightarrow> nat" where
  "bisect_loop a x lo hi =
     (if lo < hi
      then let mid = (lo + hi) div 2
           in if x < a ! mid then bisect_loop a x lo mid else bisect_loop a x (mid + 1) hi
      else lo)"
  by pat_completeness auto
termination
  by (relation "measure (\<lambda>(_, _, lo, hi). hi - lo)") auto

declare bisect_loop.simps [simp del]

definition bisect_right :: "int list \<Rightarrow> int \<Rightarrow> nat" where
  "bisect_right a x = bisect_loop a x 0 (length a)"

text \<open>\<open>"[%x]" % x\<close>\<close>

definition bare_pc :: "int \<Rightarrow> string" where
  "bare_pc x = ''['' @ (if x < 0 then CHR ''-'' # hex (nat (- x)) else hex (nat x)) @ '']''"

definition in_entry :: "int \<Rightarrow> map_entry \<Rightarrow> bool" where
  "in_entry x e = (case e_length e of Some n \<Rightarrow> x - e_addr e < n | None \<Rightarrow> x - e_addr e < 0x100000)"

definition sym :: "map_entry list \<Rightarrow> int \<Rightarrow> string" where
  "sym m x =
     (let i = bisect_right (map e_addr m) x
      in if i = 0 then bare_pc x
         else let e = m ! (i - 1) in if in_entry x e then e_name e else bare_pc x)"

section \<open>The samples\<close>

record perf_state =
  flat :: "(string, int) dict"
  stacks :: "(int \<times> string list) list"
  total :: int

definition perf_start :: perf_state where
  "perf_start = \<lparr>flat = [], stacks = [], total = 0\<rparr>"

text \<open>The names of a stack; the saved link register is left out when it is the next frame.\<close>

definition chain_of :: "(int \<Rightarrow> string) \<Rightarrow> int list \<Rightarrow> string list" where
  "chain_of name pcs =
     name (hd pcs)
     # (if 1 < length pcs \<and> (length pcs < 3 \<or> name (pcs ! 1) \<noteq> name (pcs ! 2)) then [''(lr)'' @ name (pcs ! 1)] else [])
     @ map name (drop 2 pcs)"

definition perf_line :: "(int \<Rightarrow> string) \<Rightarrow> perf_state \<Rightarrow> string list \<Rightarrow> perf_state res" where
  "perf_line name st f =
     (if f = [] then Inr st
      else if f ! 0 = ''PERF'' then
        res_bind (py_nth f 2) (\<lambda>a. res_bind (py_int 10 a) (\<lambda>n. Inr (st\<lparr>total := n\<rparr>)))
      else if f ! 0 = ''PERF-PC'' then
        res_bind (py_nth f 2) (\<lambda>a. res_bind (py_int 16 a) (\<lambda>x.
        res_bind (py_int 10 (f ! 1)) (\<lambda>n.
          Inr (st\<lparr>flat := dict_put (name x) (dict_get (flat st) (name x) 0 + n) (flat st)\<rparr>))))
      else if f ! 0 = ''PERF-STACK'' then
        res_bind (py_nth f 2) (\<lambda>a. res_bind (res_map (py_int 16) (split_on (CHR '';'') a)) (\<lambda>pcs.
        res_bind (py_int 10 (f ! 1)) (\<lambda>n.
          Inr (st\<lparr>stacks := stacks st @ [(n, chain_of name pcs)]\<rparr>))))
      else Inr st)"

fun perf_lines :: "(int \<Rightarrow> string) \<Rightarrow> perf_state \<Rightarrow> string list list \<Rightarrow> perf_state res" where
  "perf_lines name st [] = Inr st"
| "perf_lines name st (f # fs) = res_bind (perf_line name st f) (\<lambda>st. perf_lines name st fs)"

section \<open>The report\<close>

text \<open>\<open>"%6d"\<close>, and a line of the folded file.\<close>

definition d6 :: "int \<Rightarrow> string" where
  "d6 n = rjust 6 (dec_int n)"

definition folded_line :: "int \<times> string list \<Rightarrow> string" where
  "folded_line s =
     join '';'' (rev (map (replace_char (CHR '';'') '':'') (snd s))) @ '' '' @ dec_int (fst s) @ [nl]"

record perf_report =
  head_line :: string
  flat_rows :: "(string \<times> int) list"
  stack_lines :: "string list"
  folded :: "string option"

definition top_flat :: "(string, int) dict \<Rightarrow> (string \<times> int) list" where
  "top_flat d = take 25 (sort_key (\<lambda>e. - snd e) d)"

definition top_stacks :: "(int \<times> string list) list \<Rightarrow> (int \<times> string list) list" where
  "top_stacks ss = take 12 (sort_key (\<lambda>e. - fst e) ss)"

definition seen_samples :: "(string, int) dict \<Rightarrow> int" where
  "seen_samples d = (let s = sum_list (map snd d) in if s = 0 then 1 else s)"

text \<open>The script; the last argument says whether \<open>--folded\<close> was given.\<close>

definition perf_profile :: "files \<Rightarrow> string \<Rightarrow> string \<Rightarrow> perf_state res" where
  "perf_profile fs spec perf =
     res_bind (load_map fs spec) (\<lambda>m.
     res_bind (fs perf) (\<lambda>text. perf_lines (sym m) perf_start (map split_ws (file_lines text))))"

definition perf_report :: "files \<Rightarrow> string \<Rightarrow> string \<Rightarrow> bool \<Rightarrow> perf_report res" where
  "perf_report fs spec perf fold_out =
     res_bind (perf_profile fs spec perf) (\<lambda>st.
       Inr \<lparr>head_line = ''samples '' @ dec_int (total st) @ '' (flat shows the top PCs: '' @
                dec_int (seen_samples (flat st)) @ '')'',
            flat_rows = top_flat (flat st),
            stack_lines = map (\<lambda>(n, chain). d6 n @ ''  '' @ join ''  <-  '' (take 8 chain)) (top_stacks (stacks st)),
            folded = (if fold_out then Some (concat (map folded_line (stacks st))) else None)\<rparr>)"


section \<open>The binary search\<close>

lemma bisect_loop_splits:
  assumes "sorted a" "hi \<le> length a" "lo \<le> hi"
    and "\<And>i. i < lo \<Longrightarrow> a ! i \<le> x" "\<And>i. hi \<le> i \<Longrightarrow> i < length a \<Longrightarrow> x < a ! i"
  shows "bisect_loop a x lo hi \<le> length a \<and>
    (\<forall>i < length a. a ! i \<le> x \<longleftrightarrow> i < bisect_loop a x lo hi)"
  using assms
proof (induction a x lo hi rule: bisect_loop.induct)
  case (1 a x lo hi)
  let ?mid = "(lo + hi) div 2"
  show ?case
  proof (cases "lo < hi")
    case False
    then have "bisect_loop a x lo hi = lo" by (simp add: bisect_loop.simps)
    then show ?thesis using "1.prems" False by (metis leD leI order.antisym order.trans)
  next
    case True
    then have mid: "lo \<le> ?mid" "?mid < hi" "?mid < length a" using "1.prems"(2) by linarith+
    show ?thesis
    proof (cases "x < a ! ?mid")
      case below: True
      have "x < a ! i" if "?mid \<le> i" "i < length a" for i
        using below sorted_nth_mono [OF "1.prems"(1) that] by linarith
      then show ?thesis
        using "1.IH"(1) [OF True refl below] "1.prems" mid below True by (simp add: bisect_loop.simps [of a x lo hi] Let_def)
    next
      case above: False
      have "a ! i \<le> x" if "i < ?mid + 1" for i
        using above sorted_nth_mono [OF "1.prems"(1) _ mid(3), of i] that by linarith
      then show ?thesis
        using "1.IH"(2) [OF True refl above] "1.prems" mid above True by (simp add: bisect_loop.simps [of a x lo hi] Let_def)
    qed
  qed
qed

lemma bisect_right_splits:
  "sorted a \<Longrightarrow> bisect_right a x \<le> length a \<and> (\<forall>i < length a. a ! i \<le> x \<longleftrightarrow> i < bisect_right a x)"
  unfolding bisect_right_def by (rule bisect_loop_splits) auto

text \<open>The reference: the entries that begin at or before the address, and the last of them in the order of the map.\<close>

definition below :: "map_entry list \<Rightarrow> int \<Rightarrow> map_entry list" where
  "below m x = filter (\<lambda>e. e_addr e \<le> x) m"

definition sym_spec :: "map_entry list \<Rightarrow> int \<Rightarrow> string" where
  "sym_spec m x =
     (if below m x \<noteq> [] \<and> in_entry x (last (below m x)) then e_name (last (below m x)) else bare_pc x)"

lemma filter_prefix:
  "k \<le> length m \<Longrightarrow> (\<And>i. i < length m \<Longrightarrow> P (m ! i) \<longleftrightarrow> i < k) \<Longrightarrow> filter P m = take k m"
proof (induction m arbitrary: k)
  case (Cons e m)
  show ?case
  proof (cases k)
    case 0
    then have "\<not> P y" if "y \<in> set (e # m)" for y using Cons.prems(2) that by (metis in_set_conv_nth not_less_zero)
    then show ?thesis using 0 by (simp add: filter_empty_conv)
  next
    case (Suc j)
    then have "filter P m = take j m"
      using Cons.prems(1) Cons.prems(2) [of "Suc _"] by (intro Cons.IH) simp_all
    then show ?thesis using Suc Cons.prems(2) [of 0] by simp
  qed
qed simp

lemma sym_spec: "sorted (map e_addr m) \<Longrightarrow> sym m x = sym_spec m x"
proof -
  assume "sorted (map e_addr m)"
  from bisect_right_splits [OF this, of x] have
    b: "bisect_right (map e_addr m) x \<le> length m"
      "\<And>i. i < length m \<Longrightarrow> e_addr (m ! i) \<le> x \<longleftrightarrow> i < bisect_right (map e_addr m) x" by auto
  have f: "below m x = take (bisect_right (map e_addr m) x) m"
    unfolding below_def by (rule filter_prefix [OF b])
  show ?thesis
  proof (cases "bisect_right (map e_addr m) x")
    case 0
    then show ?thesis using f by (simp add: sym_def sym_spec_def)
  next
    case (Suc i)
    then have "last (below m x) = m ! i" "below m x \<noteq> []"
      using f b(1) by (auto simp: take_Suc_conv_app_nth)
    then show ?thesis using Suc by (simp add: sym_def sym_spec_def)
  qed
qed

lemma sorted_addrs: "sorted (map map_key m) \<Longrightarrow> sorted (map e_addr m)"
  by (induction m) (auto simp: map_key_def less_eq_prod_def)

lemma load_map_sorted: "load_map fs spec = Inr m \<Longrightarrow> sorted (map map_key m)"
  by (auto simp: load_map_def)


section \<open>The abstract profile\<close>

text \<open>
  What the printed lines say, without files, tables or search: events, and a profile that charges each
  function with its samples.
\<close>

datatype perf_event =
    Announce int
  | Hit int int
  | Trace int "int list"

definition event_of :: "string list \<Rightarrow> perf_event list res" where
  "event_of f =
     (case f of
        [] \<Rightarrow> Inr []
      | kind # args \<Rightarrow>
          if kind = ''PERF'' then
            (case args of _ # a # _ \<Rightarrow> res_bind (py_int 10 a) (\<lambda>n. Inr [Announce n]) | _ \<Rightarrow> Inl IndexError)
          else if kind = ''PERF-PC'' then
            (case args of
               c # a # _ \<Rightarrow> res_bind (py_int 16 a) (\<lambda>x. res_bind (py_int 10 c) (\<lambda>n. Inr [Hit n x]))
             | _ \<Rightarrow> Inl IndexError)
          else if kind = ''PERF-STACK'' then
            (case args of
               c # a # _ \<Rightarrow>
                 res_bind (res_map (py_int 16) (split_on (CHR '';'') a)) (\<lambda>pcs.
                 res_bind (py_int 10 c) (\<lambda>n. Inr [Trace n pcs]))
             | _ \<Rightarrow> Inl IndexError)
          else Inr [])"

record profile =
  charge :: "string \<Rightarrow> int"
  traces :: "(int \<times> string list) multiset"
  announced :: int

definition no_samples :: profile where
  "no_samples = \<lparr>charge = (\<lambda>_. 0), traces = {#}, announced = 0\<rparr>"

fun account :: "(int \<Rightarrow> string) \<Rightarrow> perf_event \<Rightarrow> profile \<Rightarrow> profile" where
  "account name (Announce n) p = p\<lparr>announced := n\<rparr>"
| "account name (Hit n x) p = p\<lparr>charge := (charge p)(name x := charge p (name x) + n)\<rparr>"
| "account name (Trace n pcs) p = p\<lparr>traces := add_mset (n, chain_of name pcs) (traces p)\<rparr>"

definition events :: "string \<Rightarrow> perf_event list res" where
  "events text = res_bind (res_map event_of (map split_ws (file_lines text))) (\<lambda>es. Inr (concat es))"

text \<open>The abstraction: the table as a function, the stacks as a multiset.\<close>

definition profile_of :: "perf_state \<Rightarrow> profile" where
  "profile_of st = \<lparr>charge = (\<lambda>s. dict_get (flat st) s 0), traces = mset (stacks st), announced = total st\<rparr>"

definition ok_map :: "('a \<Rightarrow> 'b) \<Rightarrow> 'a res \<Rightarrow> 'b res" where
  "ok_map f r = res_bind r (\<lambda>x. Inr (f x))"

lemma ok_map_simps [simp]: "ok_map f (Inl e) = Inl e" "ok_map f (Inr x) = Inr (f x)"
  by (simp_all add: ok_map_def)

lemma res_bind_assoc: "res_bind (res_bind m f) g = res_bind m (\<lambda>x. res_bind (f x) g)"
  by (cases m) simp_all

lemma ok_map_bind: "ok_map f (res_bind m g) = res_bind m (\<lambda>x. ok_map f (g x))"
  by (simp add: ok_map_def res_bind_assoc)

lemma perf_line_refines:
  "ok_map profile_of (perf_line name st f) =
   res_bind (event_of f) (\<lambda>es. Inr (fold (account name) es (profile_of st)))"
proof (cases f)
  case (Cons kind args)
  have flat: "profile_of (st\<lparr>flat := dict_put k (dict_get (flat st) k 0 + n) (flat st)\<rparr>)
      = account name (Hit n x) (profile_of st)" if "k = name x" for k n x
    by (simp add: profile_of_def that fun_eq_iff)
  have stack: "profile_of (st\<lparr>stacks := stacks st @ [(n, chain_of name pcs)]\<rparr>) = account name (Trace n pcs) (profile_of st)"
    for n pcs by (simp add: profile_of_def)
  have total: "profile_of (st\<lparr>total := n\<rparr>) = account name (Announce n) (profile_of st)" for n
    by (simp add: profile_of_def)
  consider "args = []" | c where "args = [c]" | c a r where "args = c # a # r" by (metis list.exhaust)
  then show ?thesis
    unfolding perf_line_def event_of_def Cons
    by cases (simp_all add: py_nth_def ok_map_bind flat stack total res_bind_assoc del: account.simps)
qed (simp add: perf_line_def event_of_def)


lemma perf_lines_refines:
  "ok_map profile_of (perf_lines name st fs) =
   res_bind (res_map event_of fs) (\<lambda>es. Inr (fold (account name) (concat es) (profile_of st)))"
proof (induction fs arbitrary: st)
  case (Cons f fs)
  show ?case
  proof (cases "perf_line name st f")
    case (Inl e)
    then show ?thesis using perf_line_refines [of name st f] by (cases "event_of f") simp_all
  next
    case (Inr st')
    then obtain es where "event_of f = Inr es" "profile_of st' = fold (account name) es (profile_of st)"
      using perf_line_refines [of name st f] by (cases "event_of f") simp_all
    then show ?thesis using Inr Cons.IH [of st'] by (simp add: ok_map_bind res_bind_assoc)
  qed
qed simp

lemma perf_profile_refines:
  "ok_map profile_of (perf_profile fs spec perf) =
   res_bind (load_map fs spec) (\<lambda>m. res_bind (fs perf) (\<lambda>text. res_bind (events text) (\<lambda>es.
     Inr (fold (account (sym_spec m)) es no_samples))))"
proof -
  have s: "sym m = sym_spec m" if "load_map fs spec = Inr m" for m
    using sym_spec [OF sorted_addrs [OF load_map_sorted [OF that]]] by (rule ext)
  have p: "profile_of perf_start = no_samples"
    by (simp add: profile_of_def perf_start_def no_samples_def dict_get_def)
  have e: "ok_map profile_of (perf_lines name perf_start (map split_ws (file_lines t))) =
      res_bind (events t) (\<lambda>es. Inr (fold (account name) es no_samples))" for name t
    unfolding perf_lines_refines p events_def res_bind_assoc by simp
  show ?thesis
    unfolding perf_profile_def ok_map_bind e using s by (cases "load_map fs spec") simp_all
qed

lemma charge_fold:
  "charge (fold (account name) es p) s =
   charge p s + sum_list (concat (map (\<lambda>e. case e of Hit n x \<Rightarrow> if name x = s then [n] else [] | _ \<Rightarrow> []) es))"
proof (induction es arbitrary: p)
  case (Cons e es)
  then show ?case by (cases e) simp_all
qed simp

section \<open>The flat table\<close>

lemma perf_lines_distinct:
  "perf_lines name st fs = Inr st' \<Longrightarrow> distinct (keys (flat st)) \<Longrightarrow> distinct (keys (flat st'))"
proof (induction fs arbitrary: st)
  case (Cons f fs)
  then obtain s1 where s1: "perf_line name st f = Inr s1" "perf_lines name s1 fs = Inr st'" by auto
  then have "distinct (keys (flat s1))"
    using Cons.prems(2) by (auto simp: perf_line_def dict_put_distinct split: if_splits)
  then show ?case using Cons.IH s1(2) by blast
qed simp

lemma top_flat_props:
  assumes "distinct (keys d)"
  shows "set (top_flat d) \<subseteq> set d" "sorted (map (\<lambda>e. - snd e) (top_flat d))" "distinct (map fst (top_flat d))"
    and "e \<in> set d \<Longrightarrow> e \<in> set (top_flat d) \<or> (length (top_flat d) = 25 \<and> (\<forall>e' \<in> set (top_flat d). snd e \<le> snd e'))"
proof -
  let ?s = "sort_key (\<lambda>e. - snd e) d"
  have so: "sorted (map (\<lambda>e. - snd e) ?s)" by simp
  show "set (top_flat d) \<subseteq> set d" unfolding top_flat_def by (metis set_sort set_take_subset)
  show "sorted (map (\<lambda>e. - snd e) (top_flat d))"
    unfolding top_flat_def using so by (metis sorted_wrt_take take_map)
  have "distinct (map fst ?s)"
    using assms unfolding keys_def by (metis distinct_map distinct_sort set_sort)
  then show "distinct (map fst (top_flat d))" unfolding top_flat_def by (metis distinct_take take_map)
  show "e \<in> set (top_flat d) \<or> (length (top_flat d) = 25 \<and> (\<forall>e' \<in> set (top_flat d). snd e \<le> snd e'))"
    if e: "e \<in> set d"
  proof (cases "e \<in> set (take 25 ?s)")
    case False
    have split: "?s = take 25 ?s @ drop 25 ?s" by simp
    have "e \<in> set ?s" using e by simp
    then have "e \<in> set (take 25 ?s) \<union> set (drop 25 ?s)" using split by (metis set_append)
    with False have d: "e \<in> set (drop 25 ?s)" by blast
    then have "25 \<le> length ?s" by (metis drop_eq_Nil2 empty_iff empty_set linorder_le_cases)
    moreover have "sorted (map (\<lambda>e. - snd e) (take 25 ?s) @ map (\<lambda>e. - snd e) (drop 25 ?s))"
      using so by (simp only: map_append [symmetric] append_take_drop_id)
    then have "\<forall>e' \<in> set (take 25 ?s). snd e \<le> snd e'" using d by (auto simp: sorted_append)
    ultimately show ?thesis by (simp add: top_flat_def)
  qed (simp add: top_flat_def)
qed


lemma fold_charge_flat:
  assumes "perf_profile fs spec perf = Inr st" "load_map fs spec = Inr m" "fs perf = Inr t" "events t = Inr es"
  shows "charge (fold (account (sym_spec m)) es no_samples) s = dict_get (flat st) s 0"
proof -
  have "Inr (profile_of st) = Inr (fold (account (sym_spec m)) es no_samples)"
    using perf_profile_refines [of fs spec perf] assms by (simp del: Inr_inject)
  then have "fold (account (sym_spec m)) es no_samples = profile_of st" by simp
  then show ?thesis by (simp add: profile_of_def)
qed

lemma perf_report_parts:
  assumes "perf_report fs spec perf b = Inr r"
  shows "\<exists>m t es st. load_map fs spec = Inr m \<and> fs perf = Inr t \<and> events t = Inr es \<and> perf_profile fs spec perf = Inr st \<and>
    flat_rows r = top_flat (flat st) \<and> distinct (keys (flat st)) \<and>
    folded r = (if b then Some (concat (map folded_line (stacks st))) else None)"
proof -
  obtain st where st: "perf_profile fs spec perf = Inr st" "flat_rows r = top_flat (flat st)"
    "folded r = (if b then Some (concat (map folded_line (stacks st))) else None)"
    using assms by (auto simp: perf_report_def)
  then obtain m t where mt: "load_map fs spec = Inr m" "fs perf = Inr t"
    "perf_lines (sym m) perf_start (map split_ws (file_lines t)) = Inr st"
    by (auto simp: perf_profile_def)
  have "events t \<noteq> Inl e" for e using perf_profile_refines [of fs spec perf] st(1) mt(1,2) by auto
  then obtain es where "events t = Inr es" by (cases "events t") auto
  moreover have "distinct (keys (flat st))"
    using perf_lines_distinct [OF mt(3)] by (simp add: perf_start_def keys_def)
  ultimately show ?thesis using st mt by blast
qed

section \<open>The folded file\<close>

text \<open>What a flame-graph tool reads back: the count after the last space, the frames between semicolons.\<close>

definition read_folded :: "string \<Rightarrow> (int \<times> string list) res" where
  "read_folded line =
     (let r = rev (butlast line);
          n = rev (takeWhile (\<lambda>c. c \<noteq> CHR '' '') r);
          frames = rev (drop 1 (dropWhile (\<lambda>c. c \<noteq> CHR '' '') r))
      in res_bind (py_int 10 n) (\<lambda>n. Inr (n, rev (split_on (CHR '';'') frames))))"

lemma split_on_join: "ws \<noteq> [] \<Longrightarrow> (\<And>w. w \<in> set ws \<Longrightarrow> c \<notin> set w) \<Longrightarrow> split_on c (join [c] ws) = ws"
proof (induction ws)
  case (Cons w ws)
  have app: "split_on c (w @ s) = (case split_on c s of [] \<Rightarrow> [w] | v # vs \<Rightarrow> (w @ v) # vs)" if "c \<notin> set w" for w s
    using that
  proof (induction w)
    case Nil
    have "split_on c s \<noteq> []" by (cases s) (auto split: list.splits)
    then show ?case by (auto split: list.splits)
  qed (auto split: list.splits)
  show ?case
  proof (cases ws)
    case Nil
    then show ?thesis using app [of w "[]"] Cons.prems by simp
  next
    case (Cons v vs)
    then show ?thesis using Cons.IH Cons.prems app [of w "c # join [c] ws"] by simp
  qed
qed simp

lemma no_semicolon: "CHR '';'' \<notin> set (replace_char (CHR '';'') '':'' s)"
  by (auto simp: replace_char_def split: if_splits)

lemma read_folded_line:
  "chain \<noteq> [] \<Longrightarrow> read_folded (folded_line (n, chain)) = Inr (n, map (replace_char (CHR '';'') '':'') chain)"
proof -
  assume "chain \<noteq> []"
  let ?ws = "rev (map (replace_char (CHR '';'') '':'') chain)"
  have d: "takeWhile (\<lambda>c. c \<noteq> CHR '' '') (rev (dec_int n) @ CHR '' '' # x) = rev (dec_int n)"
    "dropWhile (\<lambda>c. c \<noteq> CHR '' '') (rev (dec_int n) @ CHR '' '' # x) = CHR '' '' # x" for x
    using dec_int_chars by (auto simp: takeWhile_append dropWhile_append)
  have "butlast (folded_line (n, chain)) = join '';'' ?ws @ '' '' @ dec_int n"
    by (simp add: folded_line_def butlast_append)
  then have b: "rev (butlast (folded_line (n, chain))) = rev (dec_int n) @ CHR '' '' # rev (join '';'' ?ws)" by simp
  have "split_on (CHR '';'') (join '';'' ?ws) = ?ws"
    using \<open>chain \<noteq> []\<close> no_semicolon by (intro split_on_join) auto
  then show ?thesis unfolding read_folded_def b Let_def by (simp add: d)
qed

lemma res_map_folded:
  "(\<And>s. s \<in> set ss \<Longrightarrow> snd s \<noteq> []) \<Longrightarrow>
   res_map read_folded (map folded_line ss) = Inr (map (\<lambda>(n, chain). (n, map (replace_char (CHR '';'') '':'') chain)) ss)"
proof (induction ss)
  case (Cons s ss)
  then show ?case using read_folded_line [of "snd s" "fst s"] by (simp add: case_prod_beta)
qed simp

lemma file_lines_append: "nl \<notin> set l \<Longrightarrow> file_lines ((l @ [nl]) @ s) = (l @ [nl]) # file_lines s"
proof (induction l)
  case (Cons x l)
  then show ?case by (auto split: list.splits)
qed simp

lemma file_lines_concat:
  "(\<And>l. l \<in> set ls \<Longrightarrow> l \<noteq> [] \<and> last l = nl \<and> nl \<notin> set (butlast l)) \<Longrightarrow> file_lines (concat ls) = ls"
proof (induction ls)
  case (Cons l ls)
  from Cons.prems [of l] have "butlast l @ [nl] = l" "nl \<notin> set (butlast l)"
    by (auto simp: snoc_eq_iff_butlast)
  then show ?case using file_lines_append [of "butlast l" "concat ls"] Cons by simp
qed simp

lemma file_lines_nl: "l \<in> set (file_lines s) \<Longrightarrow> nl \<notin> set (butlast l)"
proof (induction s arbitrary: l rule: file_lines.induct)
  case (2 x xs)
  then show ?case by (auto split: if_splits list.splits)
qed simp


text \<open>The names have no line break in them.\<close>

abbreviation one_line :: "string \<Rightarrow> bool" where "one_line s \<equiv> nl \<notin> set s"

lemma set_split_on: "w \<in> set (split_on c s) \<Longrightarrow> set w \<subseteq> set s"
  by (induction c s arbitrary: w rule: split_on.induct) (fastforce split: list.splits if_splits)+

lemma rstrip_line: "nl \<notin> set (butlast l) \<Longrightarrow> one_line (rstrip_of (\<lambda>c. c = nl) l)"
proof (cases l rule: rev_cases)
  case (snoc t c)
  assume "nl \<notin> set (butlast l)"
  then show ?thesis using snoc set_dropWhileD [of nl _ "rev t"] by (auto simp: rstrip_of_def)
qed (simp add: rstrip_of_def)

lemma strip_line: "nl \<notin> set (butlast r) \<Longrightarrow> one_line (strip r)"
proof -
  assume r: "nl \<notin> set (butlast r)"
  obtain x where x: "r = x @ lstrip_of py_space r" unfolding lstrip_of_def by (metis takeWhile_dropWhile_id)
  show ?thesis
  proof (cases "lstrip_of py_space r" rule: rev_cases)
    case (snoc t c)
    then have "nl \<notin> set t" using r x by (metis append_assoc butlast_snoc set_append UnCI)
    then show ?thesis using snoc set_dropWhileD [of nl _ "rev t"]
      by (auto simp: strip_def rstrip_of_def py_space_def)
  qed (simp add: strip_def rstrip_of_def)
qed

lemma split_word_line: "split_word l = [a, r] \<Longrightarrow> nl \<notin> set (butlast l) \<Longrightarrow> one_line (strip r)"
proof (rule strip_line)
  assume s: "split_word l = [a, r]" and l: "nl \<notin> set (butlast l)"
  define t where "t = dropWhile py_space l"
  define q where "q = dropWhile py_space (dropWhile (\<lambda>c. \<not> py_space c) t)"
  have "split_word l = (if t = [] then [] else if q = [] then [takeWhile (\<lambda>c. \<not> py_space c) t]
      else [takeWhile (\<lambda>c. \<not> py_space c) t, q])"
    unfolding split_word_def Let_def t_def q_def ..
  then have r: "r = q \<and> r \<noteq> []" using s by (cases "t = []"; cases "q = []") simp_all
  then have "suffix r l" unfolding q_def t_def by (metis suffix_dropWhile suffix_order.trans)
  then obtain x where "l = x @ r" by (auto simp: suffix_def)
  then show "nl \<notin> set (butlast r)" using r l by (auto simp: butlast_append)
qed

lemma map_line_names:
  assumes "map_line base l = Inr es" "nl \<notin> set (butlast l)" "e \<in> set es"
  shows "one_line (e_name e)"
proof -
  let ?f = "split_on tab (rstrip_of (\<lambda>c. c = nl) l)"
  have i: "one_line (?f ! 3)" if "length ?f = 4"
    using that rstrip_line [OF assms(2)] set_split_on [of "?f ! 3" tab] nth_mem [of 3 ?f] by fastforce
  have r: "one_line (strip r)" if "split_word l = [a, r]" for a r
    using that assms(2) by (rule split_word_line)
  show ?thesis
    using assms(1,3) i r by (auto simp: map_line_def Let_def split: if_splits list.splits sum.splits)
qed

lemma load_map_names:
  assumes "load_map fs spec = Inr m" "e \<in> set m"
  shows "one_line (e_name e)"
proof -
  obtain es where es: "res_map (map_file fs) (split_on (CHR '','') spec) = Inr es" "e \<in> set (concat es)"
    using assms by (auto simp: load_map_def)
  then obtain xs where "xs \<in> set es" "e \<in> set xs" by auto
  then obtain p where p: "map_file fs p = Inr xs" "e \<in> set xs" using res_map_set [OF es(1)] by blast
  then obtain base t ls where ls: "res_map (map_line base) (file_lines t) = Inr ls" "e \<in> set (concat ls)"
    by (auto simp: map_file_def split: prod.splits)
  then obtain ys where "ys \<in> set ls" "e \<in> set ys" by auto
  then obtain l where "l \<in> set (file_lines t)" "map_line base l = Inr ys" "e \<in> set ys"
    using res_map_set [OF ls(1)] by blast
  then show ?thesis using map_line_names file_lines_nl by blast
qed

lemma hex_line: "one_line (hex n)"
proof
  assume "nl \<in> set (hex n)"
  then obtain d where "d < 16" "nl = digit_char 97 d" using set_digits_of [of 16 97 n] by auto
  then have "(of_char nl :: nat) = of_char (digit_char 97 d)" by simp
  then show False using \<open>d < 16\<close> by (auto simp: digit_char_def split: if_splits)
qed

lemma sym_line: "load_map fs spec = Inr m \<Longrightarrow> one_line (sym m x)"
proof -
  assume m: "load_map fs spec = Inr m"
  have "one_line (bare_pc x)" using hex_line by (auto simp: bare_pc_def)
  moreover have "last (below m x) \<in> set m" if "below m x \<noteq> []"
    using last_in_set [OF that] by (auto simp: below_def)
  ultimately show ?thesis
    using load_map_names [OF m] sym_spec [OF sorted_addrs [OF load_map_sorted [OF m]], of x] by (auto simp: sym_spec_def)
qed

lemma chain_of_lines: "(\<And>x. one_line (name x)) \<Longrightarrow> chain_of name pcs \<noteq> [] \<and> list_all one_line (chain_of name pcs)"
  by (auto simp: chain_of_def list_all_iff)

lemma perf_lines_stacks:
  assumes "perf_lines name st fs = Inr st'" "\<And>x. one_line (name x)"
    and "\<forall>s \<in> set (stacks st). snd s \<noteq> [] \<and> list_all one_line (snd s)"
  shows "\<forall>s \<in> set (stacks st'). snd s \<noteq> [] \<and> list_all one_line (snd s)"
  using assms(1,3)
proof (induction fs arbitrary: st)
  case (Cons f fs)
  then obtain s1 where s1: "perf_line name st f = Inr s1" "perf_lines name s1 fs = Inr st'" by auto
  then have "\<forall>s \<in> set (stacks s1). snd s \<noteq> [] \<and> list_all one_line (snd s)"
    using Cons.prems(2) chain_of_lines [of name, OF assms(2)] by (auto simp: perf_line_def split: if_splits)
  then show ?case using Cons.IH s1(2) by blast
qed simp

lemma folded_line_lines:
  assumes "snd s \<noteq> []" "list_all one_line (snd s)"
  shows "folded_line s \<noteq> [] \<and> last (folded_line s) = nl \<and> nl \<notin> set (butlast (folded_line s))"
proof -
  have j: "one_line (join '';'' ws)" if "list_all one_line ws" for ws
    using that by (induction "'';''" ws rule: join.induct) auto
  have "one_line (replace_char (CHR '';'') '':'' w)" if "one_line w" for w
    using that by (auto simp: replace_char_def split: if_splits)
  then have "one_line (join '';'' (rev (map (replace_char (CHR '';'') '':'') (snd s))))"
    using assms(2) by (intro j) (auto simp: list_all_iff)
  then show ?thesis using dec_int_chars [of nl "fst s"] by (auto simp: folded_line_def butlast_append)
qed

section \<open>Properties\<close>

text \<open>
  C14: The report refines the abstract profile.  For every contents of the files, errors included, what the
  script accumulates is the abstract profile of the events in the printed lines: each sample is charged to
  the function that a linear search of the symbol map finds, stacks form a multiset, and the announced
  total is the last one.
\<close>

theorem perf_report_refines:
  "ok_map profile_of (perf_profile fs spec perf) =
   res_bind (load_map fs spec) (\<lambda>m. res_bind (fs perf) (\<lambda>t. res_bind (events t) (\<lambda>es.
     Inr (fold (account (sym_spec m)) es no_samples))))"
  by (rule perf_profile_refines)

text \<open>
  C20: The flat table is right.  Its rows are distinct functions in descending order, each with exactly the
  samples charged to it; a function with samples that has no row is left out only because there are
  twenty-five rows, none of which has fewer samples.
\<close>

theorem perf_report_flat:
  assumes "perf_report fs spec perf b = Inr r"
  shows "\<exists>m t es. load_map fs spec = Inr m \<and> fs perf = Inr t \<and> events t = Inr es \<and>
    (let p = fold (account (sym_spec m)) es no_samples in
      distinct (map fst (flat_rows r)) \<and> sorted (map (\<lambda>e. - snd e) (flat_rows r)) \<and>
      list_all (\<lambda>(s, n). n = charge p s) (flat_rows r) \<and>
      (\<forall>s. charge p s = 0 \<or> s \<in> set (map fst (flat_rows r)) \<or>
        length (flat_rows r) = 25 \<and> list_all (\<lambda>(_, n). charge p s \<le> n) (flat_rows r)))"
proof -
  obtain m t es st where st: "load_map fs spec = Inr m" "fs perf = Inr t" "events t = Inr es"
    "perf_profile fs spec perf = Inr st" "flat_rows r = top_flat (flat st)" "distinct (keys (flat st))"
    using perf_report_parts [OF assms] by blast
  note c = fold_charge_flat [OF st(4,1,2,3)]
  note top = top_flat_props [OF st(6)]
  have look: "dict_get (flat st) s 0 = n" if "(s, n) \<in> set (flat st)" for s n
    using that st(6) by (simp add: dict_get_def keys_def)
  have "list_all (\<lambda>(s, n). n = charge (fold (account (sym_spec m)) es no_samples) s) (flat_rows r)"
    using top(1) look by (auto simp: list_all_iff c st(5))
  moreover have "dict_get (flat st) s 0 = 0 \<or> s \<in> set (map fst (flat_rows r)) \<or>
      length (flat_rows r) = 25 \<and> list_all (\<lambda>(_, n). dict_get (flat st) s 0 \<le> n) (flat_rows r)" for s
  proof (cases "map_of (flat st) s")
    case (Some n)
    then have "(s, n) \<in> set (flat st)" by (rule map_of_SomeD)
    from top(4) [OF this] show ?thesis
      using Some by (auto simp: st(5) dict_get_def list_all_iff rev_image_eqI)
  qed (simp add: dict_get_def)
  ultimately show ?thesis using st(1-3) top(2,3) by (auto simp: c st(5) Let_def)
qed

text \<open>
  C34: The folded file can be read back.  Every line of it, split at its last space and at the semicolons,
  gives the count and the frames of the stack it was written for, in the order they were written; in the
  names, semicolons have become colons.
\<close>

theorem perf_report_folded:
  assumes "perf_report fs spec perf True = Inr r"
  shows "\<exists>st folded_text. perf_profile fs spec perf = Inr st \<and> folded r = Some folded_text \<and>
    res_map read_folded (file_lines folded_text) =
      Inr (map (\<lambda>(n, chain). (n, map (replace_char (CHR '';'') '':'') chain)) (stacks st))"
proof -
  obtain m t st where st: "load_map fs spec = Inr m" "fs perf = Inr t" "perf_profile fs spec perf = Inr st"
    "folded r = Some (concat (map folded_line (stacks st)))"
    using perf_report_parts [OF assms] by auto
  then have "perf_lines (sym m) perf_start (map split_ws (file_lines t)) = Inr st"
    by (simp add: perf_profile_def)
  then have ok: "\<forall>s \<in> set (stacks st). snd s \<noteq> [] \<and> list_all one_line (snd s)"
    by (rule perf_lines_stacks) (use sym_line [OF st(1)] in \<open>simp_all add: perf_start_def\<close>)
  then have "file_lines (concat (map folded_line (stacks st))) = map folded_line (stacks st)"
    using folded_line_lines by (intro file_lines_concat) auto
  moreover have "res_map read_folded (map folded_line (stacks st)) =
      Inr (map (\<lambda>(n, chain). (n, map (replace_char (CHR '';'') '':'') chain)) (stacks st))"
    using ok by (intro res_map_folded) auto
  ultimately show ?thesis using st(3,4) by auto
qed



definition sample_files :: files where
  "sample_files n =
     (if n = ''map'' then Inr (''16 f'' @ [nl] @ ''32 g'' @ [nl])
      else if n = ''perf'' then Inr (''PERF hz 3'' @ [nl] @ ''PERF-PC 2 11'' @ [nl] @ ''PERF-STACK 1 21;11;10'' @ [nl])
      else Inl OSError)"

definition sample_state :: perf_state where
  "sample_state = \<lparr>flat = [(''f'', 2)], stacks = [(1, [''g'', ''f''])], total = 3\<rparr>"

lemma sample_profile: "perf_profile sample_files ''map'' ''perf'' = Inr sample_state"
  by code_simp

lemma sample_report: "\<exists>r. perf_report sample_files ''map'' ''perf'' b = Inr r \<and> flat_rows r = [(''f'', 2)]"
  unfolding perf_report_def sample_profile by (simp add: sample_state_def top_flat_def)

lemma perf_report_flat_witness:
  "\<exists>m es. load_map sample_files ''map'' = Inr m \<and> charge (fold (account (sym_spec m)) es no_samples) ''f'' = 2"
proof -
  obtain r where r: "perf_report sample_files ''map'' ''perf'' True = Inr r" "flat_rows r = [(''f'', 2)]"
    using sample_report by blast
  show ?thesis using perf_report_flat [OF r(1)] unfolding r(2) Let_def by auto
qed

lemma perf_report_folded_witness:
  "\<exists>t. res_map read_folded (file_lines t) = Inr [(1, [''g'', ''f''])]"
proof -
  obtain r where r: "perf_report sample_files ''map'' ''perf'' True = Inr r" using sample_report by blast
  have "replace_char (CHR '';'') '':'' ''g'' = ''g''" "replace_char (CHR '';'') '':'' ''f'' = ''f''" by code_simp+
  then show ?thesis using perf_report_folded [OF r] unfolding sample_profile by (auto simp: sample_state_def)
qed

text \<open>
  When both maps know a function, the runtime map's entry, which has no size, hides the sized one: whatever
  its size, the image map's entry is never the one found.
\<close>

lemma sized_entry_hidden:
  assumes "load_map fs spec = Inr m" "e \<in> set m" "e' \<in> set m" "e_addr e = e_addr e'"
    and "e_length e \<noteq> None" "e_length e' = None"
  shows "below m x = [] \<or> last (below m x) \<noteq> e"
proof (cases "below m x" rule: rev_cases)
  case (snoc ys y)
  have "sorted (map map_key (ys @ [y]))"
    unfolding snoc [symmetric] below_def using load_map_sorted [OF assms(1)] by (rule sorted_filter)
  then have "map_key z \<le> map_key y" if "z \<in> set (ys @ [y])" for z using that by (auto simp: sorted_append)
  moreover have "e' \<in> set (ys @ [y])" if "y = e"
  proof -
    have "y \<in> set (below m x)" using snoc by simp
    then show ?thesis using that assms(3,4) unfolding snoc [symmetric] by (simp add: below_def)
  qed
  moreover have "\<not> map_key e' \<le> map_key e" using assms(4-6) by (simp add: map_key_def less_eq_prod_def)
  ultimately show ?thesis using snoc by auto
qed simp

end
