(* ===== verification/LispLevel.thy ===== *)
theory LispLevel
  imports LispForms
begin

text \<open>
  Generated and typed forms: text that keeps the level of parentheses, and a scanner that decides it.  A
  text made of such forms, one to a line, is read back form by form.
\<close>

section \<open>Text that stays inside its form\<close>

text \<open>
  Text that, put in the middle of a form, neither closes it nor starts a comment.
\<close>

definition level :: "string \<Rightarrow> bool" where
  "level x \<longleftrightarrow> (\<forall>d f. 1 \<le> d \<longrightarrow> closes Code d (x @ f) = closes Code d f) \<and>
     (\<forall>f. uncomment Code (x @ f) = x @ uncomment Code f)"

definition plain :: "char \<Rightarrow> bool" where
  "plain c \<longleftrightarrow> c \<noteq> semi \<and> c \<noteq> dquote \<and> c \<noteq> lpar \<and> c \<noteq> rpar"

lemma level_append: "level x \<Longrightarrow> level y \<Longrightarrow> level (x @ y)"
  by (simp add: level_def)

lemma level_plain: "list_all plain x \<Longrightarrow> level x"
proof -
  assume "list_all plain x"
  then have "closes Code d (x @ f) = closes Code d f" "uncomment Code (x @ f) = x @ uncomment Code f" for d f
    by (induction x) (simp_all add: plain_def)
  then show ?thesis by (simp add: level_def)
qed

lemma level_Cons: "plain c \<Longrightarrow> level x \<Longrightarrow> level (c # x)"
  using level_append [of "[c]" x] level_plain [of "[c]"] by simp

lemma level_nest: "level x \<Longrightarrow> level (lpar # x @ [rpar])"
  by (simp add: level_def)

lemma level_join: "list_all level xs \<Longrightarrow> level (join '' '' xs)"
proof (induction xs)
  case Nil
  show ?case by (simp add: level_def)
next
  case (Cons x xs)
  then show ?case by (cases xs) (auto intro!: level_append level_Cons simp: plain_def)
qed

lemma level_form:
  "level x \<Longrightarrow> balanced (lpar # x @ [rpar]) \<and> uncomment Code (lpar # x @ [rpar]) = lpar # x @ [rpar]"
  by (simp add: level_def balanced_def)

lemma strip_form: "strip (lpar # x @ [rpar]) = lpar # x @ [rpar]"
  by (rule strip_id) (simp_all add: py_space_def)

text \<open>A file of forms, one to a line, goes out form by form.\<close>

lemma forms_of_file:
  assumes "list_all level xs"
  shows "forms (concat (map (\<lambda>x. lpar # x @ [rpar, nl]) xs)) = map (\<lambda>x. flatten_ws (lpar # x @ [rpar])) xs"
proof (cases xs)
  case (Cons x ys)
  let ?f = "\<lambda>x. lpar # x @ [rpar]"
  let ?gfs = "([], ?f x) # map (\<lambda>y. ([nl], ?f y)) ys"
  have w: "concat (map (\<lambda>x. lpar # x @ [rpar, nl]) (z # zs)) = ?f z @ weave (map (\<lambda>y. ([nl], ?f y)) zs) @ [nl]" for z zs
    by (induction zs arbitrary: z) simp_all
  have "decomp (concat (map (\<lambda>x. lpar # x @ [rpar, nl]) xs)) ?gfs [nl]"
    using assms level_form unfolding decomp_def Cons w by (auto simp: list_all_iff)
  from forms_decomp [OF this] show ?thesis
    using assms level_form strip_form unfolding Cons by (simp add: list_all_iff form_ws_def)
qed (simp add: forms_def)

section \<open>Deciding it\<close>

text \<open>
  The mode and the number of open parentheses after a text; nothing when it closes more than it opened,
  or starts a comment.
\<close>

fun lex_run :: "lex_mode \<times> nat \<Rightarrow> string \<Rightarrow> (lex_mode \<times> nat) option" where
  "lex_run (m, k) [] = Some (m, k)"
| "lex_run (m, k) (c # cs) =
     (if m = Code \<and> c = lpar then lex_run (Code, k + 1) cs
      else if m = Code \<and> c = rpar then (if k = 0 then None else lex_run (Code, k - 1) cs)
      else if next_mode m c = Comment then None else lex_run (next_mode m c, k) cs)"

lemma lex_run_append: "lex_run s (x @ y) = (case lex_run s x of Some t \<Rightarrow> lex_run t y | None \<Rightarrow> None)"
  by (induction s x rule: lex_run.induct) auto

lemma lex_run_sound:
  "lex_run (m, k) x = Some (m', k') \<Longrightarrow> m \<noteq> Comment \<Longrightarrow>
     m' \<noteq> Comment \<and> (1 \<le> d \<longrightarrow> closes m (d + k) (x @ f) = closes m' (d + k') f) \<and> uncomment m (x @ f) = x @ uncomment m' f"
proof (induction "(m, k)" x arbitrary: m k rule: lex_run.induct)
  case (2 m k c cs)
  then show ?case by (auto split: if_splits)
qed simp

definition keeps_level :: "string \<Rightarrow> bool" where
  "keeps_level x \<longleftrightarrow> lex_run (Code, 0) x = Some (Code, 0)"

lemma keeps_level: "keeps_level x \<Longrightarrow> level x"
  using lex_run_sound [of Code 0 x Code 0] by (simp add: keeps_level_def level_def)

lemma lex_run_plain: "list_all plain x \<Longrightarrow> lex_run (Code, k) x = Some (Code, k)"
  by (induction x) (simp_all add: plain_def)

lemma dec_plain: "list_all plain (dec n)"
proof -
  have "plain c" if "is_digit c" for c using that by (auto simp: plain_def is_digit_def)
  then show ?thesis using dec_digits by (auto simp: list_all_iff)
qed

section \<open>Reading a file of forms back\<close>

lemma read_forms_lines:
  assumes "list_all balanced fs"
  shows "read_forms (concat (map (\<lambda>f. f @ [CHR 0x0D, nl]) fs)) = fs"
proof (cases fs)
  case (Cons f hs)
  let ?gap = "[CHR 0x0D, nl]"
  let ?gfs = "([], f) # map (\<lambda>g. (?gap, g)) hs"
  have w: "concat (map (\<lambda>f. f @ ?gap) (z # zs)) = z @ weave (map (\<lambda>y. (?gap, y)) zs) @ ?gap" for z zs
    by (induction zs arbitrary: z) simp_all
  have "decomp (concat (map (\<lambda>f. f @ ?gap) fs)) ?gfs ?gap"
    using assms unfolding decomp_def Cons w by (auto simp: list_all_iff)
  from read_forms_decomp [OF this] show ?thesis unfolding Cons by (simp add: comp_def)
qed (simp add: read_forms_def rf_scan.simps)

end
