(* ===== verification/BarePerfTables.thy ===== *)
theory BarePerfTables
  imports LispLevel
begin

text \<open>
  The two generators of the board profiler: \<open>net/bare-perf-names.py\<close>, which turns the build's symbol map
  into forms for a running image, and \<open>net/bare-perf-gen.py\<close>, which replaces the part of
  \<open>net/bare-perf.lisp\<close> between two markers by the assembled words.  The assembler and \<open>nm\<close> are
  parameters: the bytes of the text section and the lines of the symbol table.
\<close>

section \<open>Names for a running image\<close>

definition escape_name :: "string \<Rightarrow> string" where
  "escape_name s = replace_char dquote [bslash, dquote] (replace_char bslash [bslash, bslash] s)"

definition name_part :: "string \<Rightarrow> string list res" where
  "name_part line =
     (if starts_with ''#'' line \<or> strip line = [] then Inr []
      else case split_max tab 3 (rstrip_of (\<lambda>c. c = nl) line) of
        [va, size_text, _, name] \<Rightarrow>
          res_bind (py_int 10 size_text) (\<lambda>n.
            let v = lstrip_of (\<lambda>c. c = CHR ''0'') va
            in Inr [''#x'' @ (if v = [] then ''0'' else v) @ '' '' @ dec_int n @ '' '' @ [dquote] @ escape_name name @ [dquote]])
      | _ \<Rightarrow> Inl ValueError)"

text \<open>\<open>parts[c:c + 400]\<close> for the multiples of 400.\<close>

function chunks :: "nat \<Rightarrow> 'a list \<Rightarrow> 'a list list" where
  "chunks n xs = (if xs = [] \<or> n = 0 then [] else take n xs # chunks n (drop n xs))"
  by pat_completeness auto
termination
  by (relation "measure (\<lambda>(_, xs). length xs)") auto

declare chunks.simps [simp del]

definition heX_int :: "int \<Rightarrow> string" where
  "heX_int x = (if x < 0 then CHR ''-'' # heX (nat (- x)) else heX (nat x))"

definition names_form :: "int \<Rightarrow> string \<Rightarrow> string" where
  "names_form base x = ''(perf-image-names #x'' @ heX_int base @ '' '' @ x @ '')'' @ [nl]"

definition name_parts :: "string \<Rightarrow> string list res" where
  "name_parts symmap = res_bind (res_map name_part (file_lines symmap)) (\<lambda>ps. Inr (concat ps))"

definition names_out :: "string \<Rightarrow> string \<Rightarrow> (string \<times> nat) res" where
  "names_out symmap base_text =
     res_bind (py_int 16 base_text) (\<lambda>base.
     res_bind (name_parts symmap) (\<lambda>parts.
       Inr (names_form base '':begin'' @
            concat (map (\<lambda>c. names_form base (''#('' @ join '' '' c @ '')'')) (chunks 400 parts)) @
            names_form base '':end'', length parts)))"

section \<open>The generated code\<close>

text \<open>\<open>struct.unpack("<%dI", data)\<close>: a section whose length is no multiple of four is an error.\<close>

definition unpack_words :: "bytes \<Rightarrow> nat list res" where
  "unpack_words data = (if length data mod 4 = 0 then Inr (map le_nat (chunks 4 data)) else Inl StructError)"

text \<open>A dictionary of the text labels that \<open>nm\<close> lists; the second column has one of the letters of \<open>tT\<close>.\<close>

fun nm_labels :: "string list \<Rightarrow> (string, int) dict \<Rightarrow> (string, int) dict res" where
  "nm_labels [] d = Inr d"
| "nm_labels (line # ls) d =
     (case split_ws line of
        [a, t, name] \<Rightarrow>
          if contains t ''tT'' then res_bind (py_int 16 a) (\<lambda>v. nm_labels ls (dict_put name v d))
          else nm_labels ls d
      | _ \<Rightarrow> nm_labels ls d)"

definition word_text :: "nat \<Rightarrow> string" where
  "word_text w = ''#x'' @ replicate (8 - length (heX w)) (CHR ''0'') @ heX w"

definition vec :: "string \<Rightarrow> nat list \<Rightarrow> string" where
  "vec name words =
     ''(defparameter '' @ name @ [nl] @ ''  #('' @ [nl] @
     join [nl] (map (\<lambda>r. ''    '' @ join '' '' (map word_text r)) (chunks 8 words)) @ ''))'' @ [nl]"

definition label :: "(string, int) dict \<Rightarrow> string \<Rightarrow> int res" where
  "label d k = (case map_of d k of Some v \<Rightarrow> Inr v | None \<Rightarrow> Inl KeyError)"

definition const_names :: "(string \<times> string) list" where
  "const_names =
     [(''+perf-stub-lit+'', ''stub_lit''), (''+perf-handler+'', ''handler''), (''+perf-ctl-lit+'', ''ctl_lit''),
      (''+perf-arm+'', ''arm''), (''+perf-disarm+'', ''disarm''), (''+perf-vbar+'', ''vbar''), (''+perf-barrier+'', ''barrier'')]"

definition begin_mark :: string where "begin_mark = '';;; ---- GENERATED''"
definition end_mark :: string where "end_mark = '';;; ---- END GENERATED ----'' @ [nl]"

definition generated :: "nat list \<Rightarrow> (string, int) dict \<Rightarrow> string res" where
  "generated words labels =
     res_bind (res_map (\<lambda>(c, l). res_bind (label labels l) (\<lambda>v. Inr (''(defconstant '' @ c @ '' '' @ dec_int v @ '')'')))
       const_names) (\<lambda>cs.
     res_bind (label labels ''handler'') (\<lambda>h.
       Inr (begin_mark @ '' by net/bare-perf-gen.py from bare-perf-fiq.s: edit that ----'' @ [nl] @
            vec ''*perf-fiq-words*'' words @ [nl] @ join [nl] cs @ [nl] @
            ''(defconstant +perf-stub-bytes+ '' @ dec_int h @ '')    ; the vector stub, literal included'' @ [nl] @ end_mark)))"

text \<open>\<open>s.index(p)\<close>\<close>

fun index_of :: "string \<Rightarrow> string \<Rightarrow> nat res" where
  "index_of p [] = (if p = [] then Inr 0 else Inl ValueError)"
| "index_of p (c # s) = (if starts_with p (c # s) then Inr 0 else res_bind (index_of p s) (\<lambda>i. Inr (Suc i)))"

definition splice :: "string \<Rightarrow> string \<Rightarrow> string res" where
  "splice gen s =
     res_bind (index_of begin_mark s) (\<lambda>a.
     res_bind (index_of end_mark s) (\<lambda>i. Inr (take a s @ gen @ drop (i + length end_mark) s)))"

definition regenerate :: "bytes \<Rightarrow> string list \<Rightarrow> string \<Rightarrow> string res" where
  "regenerate text_section nm_out s =
     res_bind (unpack_words text_section) (\<lambda>ws.
     res_bind (nm_labels nm_out []) (\<lambda>ls.
     res_bind (generated ws ls) (\<lambda>gen. splice gen s)))"

section \<open>Names in a form\<close>

lemma escape_Cons:
  "escape_name (c # s) = (if c = bslash \<or> c = dquote then [bslash, c] else [c]) @ escape_name s"
  by (simp add: escape_name_def replace_char_def)

lemma level_literal: "level (dquote # escape_name s @ [dquote])"
proof -
  have "closes Str d (escape_name s @ f) = closes Str d f" "uncomment Str (escape_name s @ f) = escape_name s @ uncomment Str f" for d f
    by (induction s) (simp_all add: escape_Cons escape_name_def replace_char_def)
  then show ?thesis by (simp add: level_def)
qed

section \<open>The names file\<close>

lemma chunks_Nil [simp]: "chunks n [] = []"
  by (simp add: chunks.simps)

lemma chunks_props:
  "0 < n \<Longrightarrow> concat (chunks n xs) = xs \<and> list_all (\<lambda>c. c \<noteq> [] \<and> length c \<le> n) (chunks n xs)"
proof (induction n xs rule: chunks.induct)
  case (1 n xs)
  then show ?case by (cases "xs = []") (simp_all add: chunks.simps [of n xs])
qed

lemma dec_int_plain: "list_all plain (dec_int n)"
  using dec_plain by (simp add: dec_int_def plain_def [of "CHR ''-''"])

lemma heX_plain: "list_all plain (heX_int x)"
proof -
  have "plain c" if "c \<in> set (heX n)" for c n
  proof -
    have "c \<in> digit_char 65 ` {..<16}" by (rule subsetD [OF set_digits_of]) (use that in simp_all)
    then obtain d where d: "d < 16" "c = digit_char 65 d" by auto
    then have "digit_val 16 c = Some d" using digit_val_char(1) [of d 16 65] by simp
    then show "plain c" by (auto simp: plain_def digit_val_def)
  qed
  then show ?thesis by (auto simp: heX_int_def list_all_iff plain_def)
qed

text \<open>The address column is copied as it stands; the forms are right when it holds no Lisp delimiter.\<close>

definition plain_address :: "string \<Rightarrow> bool" where
  "plain_address line \<longleftrightarrow> starts_with ''#'' line \<or> list_all plain (takeWhile (\<lambda>c. c \<noteq> tab) line)"

lemma split_max_hd: "split_max c (Suc n) s = va # rest \<Longrightarrow> rest \<noteq> [] \<Longrightarrow> va = takeWhile (\<lambda>x. x \<noteq> c) s"
  by (auto split: list.splits)

lemma takeWhile_prefix: "set (takeWhile P s) \<subseteq> set (takeWhile P (s @ t))"
  by (induction s) auto

lemma name_part_level:
  assumes "name_part line = Inr ps" "plain_address line"
  shows "list_all level ps"
proof -
  let ?l = "rstrip_of (\<lambda>c. c = nl) line"
  have "line = ?l @ rev (takeWhile (\<lambda>c. c = nl) (rev line))"
    unfolding rstrip_of_def by (metis rev_append rev_rev_ident takeWhile_dropWhile_id)
  then have sub: "set (takeWhile (\<lambda>c. c \<noteq> tab) ?l) \<subseteq> set (takeWhile (\<lambda>c. c \<noteq> tab) line)"
    by (metis takeWhile_prefix)
  have ok: "level (''#x'' @ (if v = [] then ''0'' else v) @ '' '' @ dec_int n @ '' '' @ dquote # escape_name name @ [dquote])"
    if "list_all plain v" for v n name
  proof -
    have "level ((''#x'' @ (if v = [] then ''0'' else v) @ '' '' @ dec_int n @ '' '') @ dquote # escape_name name @ [dquote])"
      by (rule level_append [OF level_plain level_literal]) (use that dec_int_plain in \<open>auto simp: plain_def\<close>)
    then show ?thesis by simp
  qed
  show ?thesis
  proof (cases "starts_with ''#'' line \<or> strip line = []")
    case True
    then show ?thesis using assms(1) by (auto simp: name_part_def)
  next
    case False
    then have pl: "list_all plain (takeWhile (\<lambda>c. c \<noteq> tab) ?l)"
      using assms(2) sub by (auto simp: plain_address_def list_all_iff)
    obtain va sz o1 name where sp: "split_max tab 3 ?l = [va, sz, o1, name]"
      using False assms(1) by (auto simp: name_part_def split: list.splits)
    have "split_max tab (Suc 2) ?l = [va, sz, o1, name]" using sp by (simp add: numeral_3_eq_3 numeral_2_eq_2)
    then have "va = takeWhile (\<lambda>c. c \<noteq> tab) ?l" by (rule split_max_hd) simp
    then have "list_all plain (lstrip_of (\<lambda>c. c = CHR ''0'') va)"
      using pl by (auto simp: lstrip_of_def list_all_iff dest: set_dropWhileD)
    then show ?thesis using False assms(1) sp ok by (auto simp: name_part_def Let_def)
  qed
qed

text \<open>The text between the parentheses of the forms of a names file.\<close>

definition names_bodies :: "int \<Rightarrow> string list \<Rightarrow> string list" where
  "names_bodies base parts =
     map (\<lambda>x. ''perf-image-names #x'' @ heX_int base @ '' '' @ x)
       ('':begin'' # map (\<lambda>c. ''#('' @ join '' '' c @ '')'') (chunks 400 parts) @ ['':end''])"

lemma names_form_body: "names_form base x = lpar # (''perf-image-names #x'' @ heX_int base @ '' '' @ x) @ [rpar, nl]"
  by (simp add: names_form_def)

lemma names_bodies_level: "list_all level parts \<Longrightarrow> list_all level (names_bodies base parts)"
proof -
  assume p: "list_all level parts"
  have h: "level ((''perf-image-names #x'' @ heX_int base @ '' '') @ x)" if "level x" for x
    by (rule level_append [OF level_plain that]) (use heX_plain in \<open>auto simp: plain_def\<close>)
  have c: "level ((''#'') @ lpar # join '' '' c @ [rpar])" if "c \<in> set (chunks 400 parts)" for c
  proof (rule level_append [OF level_plain level_nest [OF level_join]])
    have "concat (chunks 400 parts) = parts" using chunks_props [of 400 parts] by simp
    then have "set c \<subseteq> set parts" using that by (metis UN_upper set_concat)
    then show "list_all level c" using p by (auto simp: list_all_iff)
  qed (simp add: plain_def)
  have "level '':begin''" "level '':end''" by (rule level_plain; simp add: plain_def)+
  moreover have "level (''#('' @ join '' '' c @ '')'')" if "c \<in> set (chunks 400 parts)" for c
    using c [OF that] by (simp only: append.simps)
  ultimately have "level x" if "x \<in> set ('':begin'' # map (\<lambda>c. ''#('' @ join '' '' c @ '')'') (chunks 400 parts) @ ['':end''])" for x
    using that by (simp only: set_simps set_append set_map) blast
  then show ?thesis unfolding names_bodies_def list_all_iff set_map using h by (simp only: append_assoc ball_simps) blast
qed

lemma names_out_text:
  assumes "names_out symmap base_text = Inr (t, n)" "list_all plain_address (file_lines symmap)"
  shows "\<exists>base parts. t = concat (map (\<lambda>x. lpar # x @ [rpar, nl]) (names_bodies base parts)) \<and>
    list_all level parts \<and> n = length parts \<and> py_int 16 base_text = Inr base \<and>
    name_parts symmap = Inr parts"
proof -
  obtain base ps where b: "py_int 16 base_text = Inr base" "res_map name_part (file_lines symmap) = Inr ps"
    "n = length (concat ps)"
    "t = names_form base '':begin'' @ concat (map (\<lambda>c. names_form base (''#('' @ join '' '' c @ '')'')) (chunks 400 (concat ps))) @
      names_form base '':end''"
    using assms(1) by (auto simp: names_out_def name_parts_def)
  have "list_all level p" if "p \<in> set ps" for p
    using res_map_set [OF b(2) that] name_part_level assms(2) by (auto simp: list_all_iff)
  then have "list_all level (concat ps)" by (auto simp: list_all_iff)
  moreover have "t = concat (map (\<lambda>x. lpar # x @ [rpar, nl]) (names_bodies base (concat ps)))"
    unfolding b(4) names_form_body names_bodies_def by (simp add: comp_def)
  ultimately show ?thesis using b by (auto simp: name_parts_def)
qed

section \<open>Properties\<close>

text \<open>
  C29: The names file survives the upload.  Sent form by form by \<open>push-serial.py\<close>, the file that
  \<open>bare-perf-names.py\<close> writes arrives as exactly its forms: one \<open>:begin\<close>, the entries of the symbol map
  in order, in vectors of at most 400, and one \<open>:end\<close>; no name, whatever its characters, ends a form.
\<close>

theorem names_upload:
  assumes "names_out symmap base_text = Inr (t, n)" "list_all plain_address (file_lines symmap)"
  shows "\<exists>base parts. py_int 16 base_text = Inr base \<and> name_parts symmap = Inr parts \<and> n = length parts \<and>
    forms t = map (\<lambda>x. flatten_ws (''('' @ x @ '')'')) (names_bodies base parts) \<and>
    concat (chunks 400 parts) = parts \<and> list_all (\<lambda>c. c \<noteq> [] \<and> length c \<le> 400) (chunks 400 parts)"
proof -
  obtain base parts where p: "t = concat (map (\<lambda>x. lpar # x @ [rpar, nl]) (names_bodies base parts))"
    "list_all level parts" "n = length parts" "py_int 16 base_text = Inr base" "name_parts symmap = Inr parts"
    using names_out_text [OF assms] by blast
  have "forms t = map (\<lambda>x. flatten_ws (lpar # x @ [rpar])) (names_bodies base parts)"
    unfolding p(1) by (rule forms_of_file [OF names_bodies_level [OF p(2)]])
  then show ?thesis using p(3-5) chunks_props [of 400 parts] by auto
qed

definition names_sample :: string where
  "names_sample = ''# map'' @ [nl] @ ''00A0'' @ [tab] @ ''8'' @ [tab] @ ''0'' @ [tab] @ ''f)'' @ [dquote, nl]"

lemma names_sample_parts: "name_parts names_sample = Inr [''#xA0 8 '' @ [dquote] @ ''f)'' @ [bslash, dquote, dquote]]"
proof -
  let ?l = "''00A0'' @ [tab] @ ''8'' @ [tab] @ ''0'' @ [tab] @ ''f)'' @ [dquote, nl]"
  have "file_lines names_sample = [''# map'' @ [nl], ?l]" by code_simp
  moreover have "name_part (''# map'' @ [nl]) = Inr []" by (simp add: name_part_def starts_with_def)
  moreover have "name_part ?l = Inr [''#xA0 8 '' @ [dquote] @ ''f)'' @ [bslash, dquote, dquote]]"
  proof -
    have sp: "split_max tab 3 (rstrip_of (\<lambda>c. c = nl) ?l) = [''00A0'', ''8'', ''0'', ''f)'' @ [dquote]]"
      unfolding numeral_3_eq_3 by code_simp
    have nt: "(starts_with ''#'' ?l \<or> strip ?l = []) = False" by code_simp
    have n: "py_int 10 ''8'' = Inr 8" by code_simp
    have v: "lstrip_of (\<lambda>c. c = CHR ''0'') ''00A0'' = ''A0''" by code_simp
    have e: "escape_name (''f)'' @ [dquote]) = ''f)'' @ [bslash, dquote]" by code_simp
    have "digit_char 97 8 = CHR ''8''" by code_simp
    then have d: "dec_int 8 = ''8''" by (simp add: dec_int_def digits_of.simps [of 97 10 8])
    show ?thesis unfolding name_part_def nt sp by (simp only: if_False list.case n v e d res_bind_simps Let_def) simp
  qed
  ultimately show ?thesis by (simp add: name_parts_def)
qed

lemma names_sample_out: "\<exists>t. names_out names_sample ''3F'' = Inr (t, 1)"
proof -
  have "py_int 16 ''3F'' = Inr 63" by code_simp
  then show ?thesis by (simp add: names_out_def names_sample_parts)
qed

lemma names_upload_witness:
  "\<exists>t base part. names_out names_sample ''3F'' = Inr (t, 1) \<and>
     forms t = map (\<lambda>x. flatten_ws (''('' @ x @ '')'')) (names_bodies base [part])"
proof -
  have a: "list_all plain_address (file_lines names_sample)" by code_simp
  obtain t where t: "names_out names_sample ''3F'' = Inr (t, 1)" using names_sample_out by blast
  from names_upload [OF this a] obtain base parts where
    "1 = length parts" "forms t = map (\<lambda>x. flatten_ws (''('' @ x @ '')'')) (names_bodies base parts)" by blast
  moreover from this(1) obtain part where "parts = [part]" by (metis One_nat_def length_0_conv length_Suc_conv)
  ultimately show ?thesis using t by blast
qed

text \<open>The words of the generated vector are the assembled section.\<close>

lemma chunks_exact: "0 < n \<Longrightarrow> length xs mod n = 0 \<Longrightarrow> list_all (\<lambda>c. length c = n) (chunks n xs)"
proof (induction n xs rule: chunks.induct)
  case (1 n xs)
  show ?case
  proof (cases "xs = []")
    case False
    then have "n \<le> length xs" using "1.prems" by (metis dvd_imp_le length_greater_0_conv mod_0_imp_dvd)
    then have "length (drop n xs) mod n = 0" using "1.prems" by (simp add: le_mod_geq)
    then show ?thesis using "1.IH" "1.prems"(1) False \<open>n \<le> length xs\<close> by (simp add: chunks.simps [of n xs])
  qed simp
qed

lemma unpack_words_section:
  assumes "unpack_words data = Inr ws"
  shows "concat (map (le_bytes 4) ws) = data" and "list_all (\<lambda>w. w < 2 ^ 32) ws"
proof -
  have ws: "ws = map le_nat (chunks 4 data)" and l: "length data mod 4 = 0"
    using assms by (auto simp: unpack_words_def split: if_splits)
  note c = chunks_exact [of 4 data, simplified, OF l]
  have "le_bytes 4 (le_nat x) = x" if "x \<in> set (chunks 4 data)" for x
    using c that le_bytes_le_nat [of x] by (simp add: list_all_iff)
  then have "map (le_bytes 4) ws = chunks 4 data" unfolding ws by (simp add: map_idI)
  then show "concat (map (le_bytes 4) ws) = data" using chunks_props [of 4 data] by simp
  have "le_nat x < 2 ^ 32" if "x \<in> set (chunks 4 data)" for x
    using c that le_nat_less [of x] by (simp add: list_all_iff)
  then show "list_all (\<lambda>w. w < 2 ^ 32) ws" unfolding ws by (auto simp: list_all_iff)
qed

end
