(* ===== verification/PmuAnnotate.thy ===== *)
theory PmuAnnotate
  imports PyText
begin

text \<open>
  \<open>scripts/pmu-annotate.py\<close>: the samples of a function beside its disassembly.  \<open>read_hits\<close> reads the
  sample file, \<open>read_insns\<close> the output of \<open>objdump\<close>, which is a parameter; \<open>hot_set\<close> is the set of
  instructions near a sampled one, and \<open>annotate\<close> the listing.  A printed instruction is a row with its
  count, offset and text; the percentage in front of it is not modelled.
\<close>

section \<open>The script\<close>

fun read_hits :: "string list \<Rightarrow> string \<Rightarrow> (int, int) dict \<Rightarrow> (string \<times> (int, int) dict) res" where
  "read_hits [] header hits = Inr (header, hits)"
| "read_hits (line # ls) header hits =
     (if starts_with ''#'' line then read_hits ls (strip (drop 1 line)) hits
      else case split_ws line of
        [off, n] \<Rightarrow>
          res_bind (py_int 10 off) (\<lambda>o1. res_bind (py_int 10 n) (\<lambda>k.
            read_hits ls header (dict_put o1 (dict_get hits o1 0 + k) hits)))
      | _ \<Rightarrow> Inl ValueError)"

definition insn_of :: "string \<Rightarrow> (int \<times> string) list" where
  "insn_of line =
     (case split_max (CHR '':'') 1 line of
        [a, b] \<Rightarrow> (case py_int 16 (strip a) of Inr off \<Rightarrow> [(off, strip b)] | Inl _ \<Rightarrow> [])
      | _ \<Rightarrow> [])"

definition read_insns :: "string \<Rightarrow> (int \<times> string) list" where
  "read_insns out = concat (map insn_of (splitlines out))"

text \<open>\<open>hot.update(range(max(0, i - 6), min(len(insns), i + 7)))\<close> for each sampled \<open>i\<close>.\<close>

definition hot_set :: "(int, int) dict \<Rightarrow> (int \<times> string) list \<Rightarrow> nat set" where
  "hot_set hits insns =
     fold (\<lambda>i hot. if dict_get hits (fst (insns ! i)) 0 \<noteq> 0
                   then hot \<union> set [i - 6 ..< min (length insns) (i + 7)] else hot)
       [0 ..< length insns] {}"

datatype row = Gap | Row int int string

fun list_rows :: "bool \<Rightarrow> nat set \<Rightarrow> (int, int) dict \<Rightarrow> nat \<Rightarrow> int \<Rightarrow> (int \<times> string) list \<Rightarrow> row list" where
  "list_rows show_all hot hits i prev [] = []"
| "list_rows show_all hot hits i prev ((off, t) # xs) =
     (if \<not> show_all \<and> i \<notin> hot then list_rows show_all hot hits (i + 1) prev xs
      else (if int i \<noteq> prev + 1 then [Gap] else []) @ [Row (dict_get hits off 0) off t] @
           list_rows show_all hot hits (i + 1) (int i) xs)"

record listing =
  l_header :: string
  l_total :: int
  l_rows :: "row list"

definition annotate :: "bool \<Rightarrow> string \<Rightarrow> string \<Rightarrow> listing res" where
  "annotate show_all hits_text objdump_out =
     res_bind (read_hits (file_lines hits_text) [] []) (\<lambda>(header, hits).
       let t = sum_list (map snd hits); insns = read_insns objdump_out
       in Inr \<lparr>l_header = header, l_total = (if t = 0 then 1 else t),
               l_rows = list_rows show_all (hot_set hits insns) hits 0 (- 2) insns\<rparr>)"

section \<open>What is shown\<close>

definition sampled :: "(int, int) dict \<Rightarrow> (int \<times> string) list \<Rightarrow> nat \<Rightarrow> bool" where
  "sampled hits insns j \<longleftrightarrow> j < length insns \<and> dict_get hits (fst (insns ! j)) 0 \<noteq> 0"

definition near :: "(int, int) dict \<Rightarrow> (int \<times> string) list \<Rightarrow> nat \<Rightarrow> bool" where
  "near hits insns i \<longleftrightarrow> (\<exists>j. sampled hits insns j \<and> j \<le> i + 6 \<and> i \<le> j + 6)"

lemma hot_set_fold:
  "fold (\<lambda>i hot. if P i then hot \<union> R i else hot) xs S = S \<union> (\<Union>i \<in> {i \<in> set xs. P i}. R i)"
  by (induction xs arbitrary: S) auto

lemma hot_set_near: "i < length insns \<Longrightarrow> i \<in> hot_set hits insns \<longleftrightarrow> near hits insns i"
  unfolding hot_set_def hot_set_fold near_def sampled_def by auto

text \<open>The reference listing: the shown instructions in order, a gap wherever the one before is not shown.\<close>

definition row_at :: "(nat \<Rightarrow> bool) \<Rightarrow> (int, int) dict \<Rightarrow> (int \<times> string) list \<Rightarrow> nat \<Rightarrow> row list" where
  "row_at show_at hits insns i =
     (if show_at i
      then (if i = 0 \<or> \<not> show_at (i - 1) then [Gap] else []) @
        [Row (dict_get hits (fst (insns ! i)) 0) (fst (insns ! i)) (snd (insns ! i))]
      else [])"

definition shown_rows :: "(nat \<Rightarrow> bool) \<Rightarrow> (int, int) dict \<Rightarrow> (int \<times> string) list \<Rightarrow> row list" where
  "shown_rows show_at hits insns = concat (map (row_at show_at hits insns) [0 ..< length insns])"

lemma list_rows_shown:
  assumes "\<And>i. i < length (pre @ xs) \<Longrightarrow> show_at i \<longleftrightarrow> show_all \<or> i \<in> hot"
    and "prev < int (length pre)" "prev + 1 = int (length pre) \<longleftrightarrow> pre \<noteq> [] \<and> show_at (length pre - 1)"
  shows "list_rows show_all hot hits (length pre) prev xs =
    concat (map (row_at show_at hits (pre @ xs)) [length pre ..< length (pre @ xs)])"
  using assms
proof (induction xs arbitrary: pre prev)
  case (Cons x xs)
  let ?n = "length pre"
  have s: "show_at ?n \<longleftrightarrow> show_all \<or> ?n \<in> hot" using Cons.prems(1) [of ?n] by simp
  have a: "(pre @ [x]) @ xs = pre @ x # xs" "length (pre @ [x]) = Suc ?n" by simp_all
  have IH: "list_rows show_all hot hits (Suc ?n) l xs =
      concat (map (row_at show_at hits (pre @ x # xs)) [Suc ?n ..< length (pre @ x # xs)])"
    if "l < int (Suc ?n)" "l + 1 = int (Suc ?n) \<longleftrightarrow> show_at ?n" for l
    using Cons.IH [of "pre @ [x]" l, unfolded a] Cons.prems(1) that by simp
  have up: "[?n ..< length (pre @ x # xs)] = ?n # [Suc ?n ..< length (pre @ x # xs)]" by (rule upt_conv_Cons) simp
  have step: "list_rows show_all hot hits ?n prev (x # xs) =
      (if show_at ?n
       then (if int ?n \<noteq> prev + 1 then [Gap] else []) @ [Row (dict_get hits (fst x) 0) (fst x) (snd x)] @
            list_rows show_all hot hits (Suc ?n) (int ?n) xs
       else list_rows show_all hot hits (Suc ?n) prev xs)"
    using s by (cases x) simp
  have r: "row_at show_at hits (pre @ x # xs) ?n =
      (if show_at ?n then (if ?n = 0 \<or> \<not> show_at (?n - 1) then [Gap] else []) @ [Row (dict_get hits (fst x) 0) (fst x) (snd x)]
       else [])"
    by (simp add: row_at_def)
  show ?case
  proof (cases "show_at ?n")
    case True
    have "(int ?n \<noteq> prev + 1) = (?n = 0 \<or> \<not> show_at (?n - 1))" using Cons.prems(3) by auto
    then show ?thesis using IH [of "int ?n"] True unfolding up step by (simp add: r)
  next
    case False
    have "prev + 1 \<noteq> int (Suc ?n)" using Cons.prems(2) by simp
    then show ?thesis using IH [of prev] False Cons.prems(2) unfolding up step by (simp add: r)
  qed
qed simp

lemma list_rows_start:
  "list_rows show_all (hot_set hits insns) hits 0 (- 2) insns = shown_rows (\<lambda>i. i < length insns \<and> (show_all \<or> near hits insns i)) hits insns"
  using list_rows_shown [of "[]" insns "\<lambda>i. i < length insns \<and> (show_all \<or> near hits insns i)" show_all "hot_set hits insns" "- 2" hits]
  by (simp add: shown_rows_def hot_set_near)

section \<open>No sample is lost in the listing\<close>

fun row_count :: "row \<Rightarrow> int" where
  "row_count Gap = 0"
| "row_count (Row n off t) = n"

lemma read_hits_distinct:
  "read_hits ls header hits = Inr (h, hits') \<Longrightarrow> distinct (keys hits) \<Longrightarrow> distinct (keys hits')"
  by (induction ls header hits rule: read_hits.induct)
    (auto simp: dict_put_distinct split: if_splits list.splits)

lemma shown_rows_count:
  assumes "\<And>i. i < length insns \<Longrightarrow> \<not> show_at i \<Longrightarrow> dict_get hits (fst (insns ! i)) 0 = 0"
  shows "sum_list (map row_count (shown_rows show_at hits insns)) = sum_list (map (\<lambda>x. dict_get hits (fst x) 0) insns)"
proof -
  have r: "sum_list (map row_count (row_at show_at hits insns i)) = dict_get hits (fst (insns ! i)) 0"
    if "i < length insns" for i
    using assms [OF that] by (simp add: row_at_def)
  have "sum_list (map row_count (concat (map (row_at show_at hits insns) is)))
      = sum_list (map (\<lambda>i. dict_get hits (fst (insns ! i)) 0) is)" if "\<forall>i \<in> set is. i < length insns" for "is"
    using that by (induction "is") (simp_all add: r)
  from this [of "[0 ..< length insns]"] show ?thesis
    unfolding shown_rows_def by (simp add: sum_list_sum_nth atLeast0LessThan)
qed

lemma counts_at_offsets:
  fixes hits :: "(int, int) dict"
  assumes "distinct (keys hits)" "distinct offs"
  shows "sum_list (map (\<lambda>x. dict_get hits x 0) offs) = sum_list (map snd (filter (\<lambda>(x, n). x \<in> set offs) hits))"
  using assms(1)
proof (induction hits)
  case (Cons kv hits)
  obtain k v where kv: "kv = (k, v)" by (cases kv)
  then have k: "dict_get hits k 0 = 0"
    using Cons.prems by (auto simp: dict_get_def keys_def map_of_eq_None_iff [symmetric])
  have "sum_list (map (\<lambda>x. dict_get (kv # hits) x 0) offs)
      = (\<Sum>x \<in> set offs. dict_get hits x 0 + (if x = k then v else 0))"
    using assms(2) k by (simp add: sum_list_distinct_conv_sum_set kv) (rule sum.cong, auto simp: dict_get_def)
  also have "\<dots> = sum_list (map (\<lambda>x. dict_get hits x 0) offs) + (if k \<in> set offs then v else 0)"
    using assms(2) by (simp add: sum.distrib sum_list_distinct_conv_sum_set)
  finally show ?case using Cons by (simp add: kv keys_def)
qed (simp add: dict_get_def)

lemma annotate_parts:
  assumes "annotate show_all hits_text out = Inr l"
  shows "\<exists>header hits. read_hits (file_lines hits_text) [] [] = Inr (header, hits) \<and> distinct (keys hits) \<and>
    l_header l = header \<and> l_total l = (let t = sum_list (map snd hits) in if t = 0 then 1 else t) \<and>
    l_rows l = shown_rows (\<lambda>i. i < length (read_insns out) \<and> (show_all \<or> near hits (read_insns out) i)) hits (read_insns out)"
  using assms read_hits_distinct [of "file_lines hits_text" "[]" "[]"]
  by (auto simp: annotate_def Let_def list_rows_start keys_def)

section \<open>Properties\<close>


definition sample_hits :: string where "sample_hits = ''# f at 1000'' @ [nl] @ ''1 5'' @ [nl] @ ''2 3'' @ [nl]"
definition sample_dump :: string where "sample_dump = ''   0:  push rbp'' @ [nl] @ ''   1:  ret'' @ [nl]"

lemma sample_insns: "read_insns sample_dump = [(0, ''push rbp''), (1, ''ret'')]"
proof -
  have "splitlines sample_dump = [''   0:  push rbp'', ''   1:  ret'']" by code_simp
  moreover have "insn_of ''   0:  push rbp'' = [(0, ''push rbp'')]" "insn_of ''   1:  ret'' = [(1, ''ret'')]"
    unfolding insn_of_def One_nat_def by code_simp+
  ultimately show ?thesis by (simp add: read_insns_def)
qed

lemma sample_read: "read_hits (file_lines sample_hits) [] [] = Inr (''f at 1000'', [(1, 5), (2, 3)])"
  by code_simp


text \<open>The listing begins with a gap even when it begins with the first instruction.\<close>

lemma leading_gap: "near hits (x # xs) 0 \<Longrightarrow> \<exists>rs. shown_rows (\<lambda>i. i < length (x # xs) \<and> near hits (x # xs) i) hits (x # xs) = Gap # rs"
  unfolding shown_rows_def by (simp add: upt_conv_Cons row_at_def del: upt_Suc)


end
