(* ===== verification/LadderDiff.thy ===== *)
theory LadderDiff
  imports PyText
begin

text \<open>
  \<open>tools/ladder-diff.py\<close>: two runs of the library ladder compared by their error texts, file results and
  probe results.  \<open>parse_log\<close> reads one log, \<open>compare_logs\<close> is the body of the loop over the libraries, and
  \<open>ladder_diff\<close> the script.  A log that does not exist is \<open>None\<close>.
\<close>

section \<open>Reading a log\<close>

record log =
  l_files :: "(string, string) dict"
  l_probes :: "(string, string) dict"
  l_errs :: "string list"
  l_exit :: "string option"
  l_secs :: "int option"

definition rstrip :: "string \<Rightarrow> string" where
  "rstrip s = rstrip_of py_space s"

text \<open>\<open>EXIT=(\d+) SECS=(\d+)\<close>, at the start\<close>

definition exit_match :: "string \<Rightarrow> (string \<times> string) option" where
  "exit_match s =
     (if starts_with ''EXIT='' s then
        let r = drop 5 s; a = takeWhile is_digit r; r2 = dropWhile is_digit r; b = takeWhile is_digit (drop 6 r2)
        in if a \<noteq> [] \<and> starts_with '' SECS='' r2 \<and> b \<noteq> [] then Some (a, b) else None
      else None)"

text \<open>\<open>^LF-FILE (\S+)=(.*)$\<close>: the name is the longest that ends before an equals sign.\<close>

definition file_match :: "string \<Rightarrow> (string \<times> string) option" where
  "file_match s =
     (if starts_with ''LF-FILE '' s then
        let r = drop 8 s; w = takeWhile (\<lambda>c. \<not> py_space c) r;
            name = rev (drop 1 (dropWhile (\<lambda>c. c \<noteq> CHR ''='') (rev w)))
        in if CHR ''='' \<in> set w \<and> name \<noteq> [] then Some (name, drop (length name + 1) r) else None
      else None)"

text \<open>\<open>^(P[12]\.[A-Za-z0-9_.-]+)=(.*)$\<close>\<close>

definition probe_char :: "char \<Rightarrow> bool" where
  "probe_char c \<longleftrightarrow>
     (let n = of_char c :: nat in 65 \<le> n \<and> n \<le> 90 \<or> 97 \<le> n \<and> n \<le> 122 \<or> 48 \<le> n \<and> n \<le> 57) \<or>
     c = CHR ''_'' \<or> c = CHR ''.'' \<or> c = CHR ''-''"

definition probe_match :: "string \<Rightarrow> (string \<times> string) option" where
  "probe_match s =
     (if starts_with ''P1.'' s \<or> starts_with ''P2.'' s then
        let w = takeWhile probe_char (drop 3 s)
        in case dropWhile probe_char (drop 3 s) of
             c # v \<Rightarrow> if w \<noteq> [] \<and> c = CHR ''='' then Some (take 3 s @ w, v) else None
           | [] \<Rightarrow> None
      else None)"

definition log_line :: "log \<Rightarrow> string \<Rightarrow> log" where
  "log_line d line =
     (let s = rstrip line
      in if starts_with ''EXIT='' s then
           (case exit_match s of
              Some (a, b) \<Rightarrow> d\<lparr>l_exit := Some a, l_secs := (case py_int 10 b of Inr n \<Rightarrow> Some n | Inl _ \<Rightarrow> None)\<rparr>
            | None \<Rightarrow> d)
         else if contains ''!!'' s then d\<lparr>l_errs := l_errs d @ [strip s]\<rparr>
         else case file_match s of
           Some (k, v) \<Rightarrow> d\<lparr>l_files := dict_put k v (l_files d)\<rparr>
         | None \<Rightarrow>
             (case probe_match s of
                Some (k, v) \<Rightarrow> d\<lparr>l_probes := dict_put k v (l_probes d)\<rparr>
              | None \<Rightarrow> d))"

definition no_log :: log where
  "no_log = \<lparr>l_files = [], l_probes = [], l_errs = [], l_exit = None, l_secs = None\<rparr>"

definition parse_log :: "string \<Rightarrow> log" where
  "parse_log t = foldl log_line no_log (splitlines t)"

section \<open>Comparing\<close>

text \<open>\<open>re.sub(r'0x[0-9a-fA-F]+', '0xADDR', e)\<close>\<close>

definition hex_char :: "char \<Rightarrow> bool" where
  "hex_char c \<longleftrightarrow> (let n = of_char c :: nat in 48 \<le> n \<and> n \<le> 57 \<or> 97 \<le> n \<and> n \<le> 102 \<or> 65 \<le> n \<and> n \<le> 70)"

function norm_err :: "string \<Rightarrow> string" where
  "norm_err [] = []"
| "norm_err (c # cs) =
     (if starts_with ''0x'' (c # cs) \<and> takeWhile hex_char (drop 1 cs) \<noteq> []
      then ''0xADDR'' @ norm_err (dropWhile hex_char (drop 1 cs)) else c # norm_err cs)"
  by pat_completeness auto
termination
proof (relation "measure length", goal_cases)
  case (2 c cs)
  have "length (dropWhile hex_char (drop 1 cs)) \<le> length cs"
    using length_dropWhile_le [of hex_char "drop 1 cs"] by simp
  then show ?case by simp
qed simp_all

text \<open>The keys on which two dictionaries differ, in order, each with its two values.\<close>

type_synonym diff = "(string \<times> string option \<times> string option) list"

definition dict_diff :: "(string, string) dict \<Rightarrow> (string, string) dict \<Rightarrow> diff" where
  "dict_diff a b =
     map (\<lambda>k. (k, map_of a k, map_of b k))
       (filter (\<lambda>k. map_of a k \<noteq> map_of b k) (sort (remdups (keys a @ keys b))))"

definition changed :: "log \<Rightarrow> log \<Rightarrow> bool" where
  "changed a b \<longleftrightarrow>
     sort (map norm_err (l_errs a)) \<noteq> sort (map norm_err (l_errs b)) \<or>
     dict_diff (l_files a) (l_files b) \<noteq> [] \<or> dict_diff (l_probes a) (l_probes b) \<noteq> [] \<or> l_exit a \<noteq> l_exit b"

datatype tag = Same | Better | Worse | Changed

definition diff_tag :: "log \<Rightarrow> log \<Rightarrow> tag" where
  "diff_tag a b =
     (if \<not> changed a b then Same
      else if length (l_errs b) < length (l_errs a) then Better
      else if length (l_errs a) < length (l_errs b) then Worse else Changed)"

fun tag_text :: "tag \<Rightarrow> string" where
  "tag_text Same = ''SAME''"
| "tag_text Better = ''BETTER''"
| "tag_text Worse = ''WORSE''"
| "tag_text Changed = ''CHANGED''"

text \<open>\<open>{x}\<close> in an f-string, for an optional string.\<close>

definition shown :: "string option \<Rightarrow> string" where
  "shown v = (case v of Some s \<Rightarrow> s | None \<Rightarrow> ''None'')"

text \<open>\<open>sorted((ca-cb).elements())\<close>\<close>

definition counter_minus :: "string list \<Rightarrow> string list \<Rightarrow> string list" where
  "counter_minus xs ys = sort (fold remove1 ys xs)"

definition compare_logs :: "string \<Rightarrow> log \<Rightarrow> log \<Rightarrow> string list" where
  "compare_logs lib a b =
     (let ea = map norm_err (l_errs a); eb = map norm_err (l_errs b)
      in [''### '' @ lib @ '': errs '' @ dec (length (l_errs a)) @ '' -> '' @ dec (length (l_errs b)) @ ''  exit '' @
            shown (l_exit a) @ ''->'' @ shown (l_exit b) @ ''  ['' @ tag_text (diff_tag a b) @ '']''] @
         (if \<not> changed a b then []
          else map (\<lambda>e. ''    -ERR '' @ e) (counter_minus ea eb) @
               map (\<lambda>e. ''    +ERR '' @ e) (counter_minus eb ea) @
               map (\<lambda>(k, x, y). ''    FILE '' @ k @ [nl] @ ''        A='' @ shown x @ [nl] @ ''        B='' @ shown y)
                 (dict_diff (l_files a) (l_files b)) @
               map (\<lambda>(k, x, y). ''    PROBE '' @ k @ '': A='' @ shown x @ ''  B='' @ shown y)
                 (dict_diff (l_probes a) (l_probes b))))"

fun diff_libs :: "(string \<Rightarrow> string option) \<Rightarrow> (string \<Rightarrow> string option) \<Rightarrow> nat \<Rightarrow> nat \<Rightarrow> string list \<Rightarrow> string list" where
  "diff_libs la lb ta tb [] = [[nl] @ ''TOTAL ERRORS: A='' @ dec ta @ ''  B='' @ dec tb]"
| "diff_libs la lb ta tb (lib # libs) =
     (case (la lib, lb lib) of
        (Some x, Some y) \<Rightarrow>
          let a = parse_log x; b = parse_log y
          in compare_logs lib a b @ diff_libs la lb (ta + length (l_errs a)) (tb + length (l_errs b)) libs
      | (x, y) \<Rightarrow>
          [''### '' @ lib @ '': MISSING ('' @ (if x = None then ''A'' else '''') @ (if y = None then ''B'' else '''') @ '')''] @
          diff_libs la lb ta tb libs)"

text \<open>The script: the text of \<open>ladder.txt\<close> and the logs of the two runs.\<close>

definition ladder_diff :: "string \<Rightarrow> (string \<Rightarrow> string option) \<Rightarrow> (string \<Rightarrow> string option) \<Rightarrow> string list" where
  "ladder_diff ladder_txt la lb =
     diff_libs la lb 0 0
       (map strip (filter (\<lambda>l. strip l \<noteq> []) (file_lines ladder_txt)) @ [''alexandria-ql'', ''sha1-ql''])"

section \<open>Properties\<close>

lemma mset_counter_minus: "mset (counter_minus xs ys) = mset xs - mset ys"
proof -
  have "mset (fold remove1 ys xs) = mset xs - mset ys"
    by (induction ys arbitrary: xs) (simp_all add: diff_diff_add_mset)
  then show ?thesis by (simp add: counter_minus_def)
qed

lemma dict_diff_empty: "dict_diff a b = [] \<longleftrightarrow> map_of a = map_of b"
proof -
  have "map_of a k = map_of b k" if "\<forall>k \<in> set (keys a) \<union> set (keys b). map_of a k = map_of b k" for k
  proof (cases "k \<in> set (keys a) \<union> set (keys b)")
    case False
    then have "map_of a k = None" "map_of b k = None" by (simp_all add: keys_def map_of_eq_None_iff)
    then show ?thesis by simp
  qed (use that in blast)
  then show ?thesis by (auto simp: dict_diff_def filter_empty_conv)
qed

lemma sort_eq_mset: "sort xs = sort ys \<longleftrightarrow> mset xs = mset ys"
  by (metis mset_sort properties_for_sort sorted_sort)

lemma set_dict_diff:
  "(k, x, y) \<in> set (dict_diff a b) \<longleftrightarrow> map_of a k = x \<and> map_of b k = y \<and> x \<noteq> y"
proof -
  have "k \<in> set (keys a) \<union> set (keys b)" if "map_of a k \<noteq> map_of b k"
    using that by (metis Un_iff keys_def list.set_map map_of_eq_None_iff)
  then show ?thesis by (auto simp: dict_diff_def)
qed

text \<open>
  C31: The comparison is exact.  A library is called SAME exactly if the two logs have the same normalised
  error texts, each as often, the same results for every file and every probe, and the same exit status.
  The listed differences are then all of them: the error lines are the two multiset differences, in order,
  and balance the two counts, and the lists of files and probes hold exactly the keys whose values differ.
\<close>

theorem compare_exact:
  "(diff_tag a b = Same \<longleftrightarrow>
      image_mset norm_err (mset (l_errs a)) = image_mset norm_err (mset (l_errs b)) \<and>
      map_of (l_files a) = map_of (l_files b) \<and> map_of (l_probes a) = map_of (l_probes b) \<and> l_exit a = l_exit b) \<and>
   (let ea = map norm_err (l_errs a); eb = map norm_err (l_errs b); gone = counter_minus ea eb; new = counter_minus eb ea in
      mset ea - mset eb = mset gone \<and> mset eb - mset ea = mset new \<and> sorted gone \<and> sorted new \<and>
      length (l_errs a) + length new = length (l_errs b) + length gone) \<and>
   (\<forall>k x y. ((k, x, y) \<in> set (dict_diff (l_files a) (l_files b)) \<longleftrightarrow>
               map_of (l_files a) k = x \<and> map_of (l_files b) k = y \<and> x \<noteq> y) \<and>
            ((k, x, y) \<in> set (dict_diff (l_probes a) (l_probes b)) \<longleftrightarrow>
               map_of (l_probes a) k = x \<and> map_of (l_probes b) k = y \<and> x \<noteq> y))"
proof -
  let ?ea = "map norm_err (l_errs a)" and ?eb = "map norm_err (l_errs b)"
  have s: "diff_tag a b = Same \<longleftrightarrow> mset ?ea = mset ?eb \<and> map_of (l_files a) = map_of (l_files b) \<and>
      map_of (l_probes a) = map_of (l_probes b) \<and> l_exit a = l_exit b"
    unfolding diff_tag_def changed_def sort_eq_mset dict_diff_empty by simp
  have "mset ?ea + (mset ?eb - mset ?ea) = mset ?eb + (mset ?ea - mset ?eb)"
    by (rule multiset_eqI) simp
  then have "size (mset ?ea + mset (counter_minus ?eb ?ea)) = size (mset ?eb + mset (counter_minus ?ea ?eb))"
    by (simp only: mset_counter_minus)
  then have "length (l_errs a) + length (counter_minus ?eb ?ea) = length (l_errs b) + length (counter_minus ?ea ?eb)"
    by (simp only: size_union size_mset length_map)
  moreover have "sorted (counter_minus xs ys)" for xs ys :: "string list" by (simp add: counter_minus_def)
  ultimately show ?thesis using s set_dict_diff by (simp add: mset_counter_minus Let_def)
qed

text \<open>
  The tag looks only at the number of errors once anything differs: a run that loses an error text is BETTER
  whatever happened to its exit status and its probes.
\<close>

lemma better_hides_regression:
  "diff_tag \<lparr>l_files = [], l_probes = [(''P1.a'', ''T'')], l_errs = [''!! e''], l_exit = Some ''0'', l_secs = None\<rparr>
            \<lparr>l_files = [], l_probes = [(''P1.a'', ''NIL'')], l_errs = [], l_exit = Some ''1'', l_secs = None\<rparr> = Better"
  by (simp add: diff_tag_def changed_def)


end
