(* ===== verification/Traces.thy ===== *)
theory Traces
  imports Main
begin

text \<open>
  The runs of a state machine: \<open>trace R a xs b\<close> says that the actions \<open>xs\<close> lead from \<open>a\<close> to \<open>b\<close>.  The
  scripts that act on something outside are checked against the traces of a step relation.
\<close>

inductive trace :: "('s \<Rightarrow> 'a \<Rightarrow> 's \<Rightarrow> bool) \<Rightarrow> 's \<Rightarrow> 'a list \<Rightarrow> 's \<Rightarrow> bool" for R where
  none: "trace R a [] a"
| snoc: "trace R a xs b \<Longrightarrow> R b x c \<Longrightarrow> trace R a (xs @ [x]) c"

inductive_simps trace_Nil [simp]: "trace R a [] b"

lemma trace_one: "R a x b \<Longrightarrow> trace R a [x] b"
  using trace.snoc [OF trace.none, of R a x b] by simp

lemma trace_append: "trace R b ys c \<Longrightarrow> trace R a xs b \<Longrightarrow> trace R a (xs @ ys) c"
proof (induction rule: trace.induct)
  case (snoc b ys c x d)
  then show ?case using trace.snoc [of R a "xs @ ys" c x d] by simp
qed simp

lemma trace_Cons: "R a x b \<Longrightarrow> trace R b ys c \<Longrightarrow> trace R a (x # ys) c"
  using trace_append [OF _ trace_one, of R b ys c a x] by simp

lemma trace_invariant:
  "trace R a xs b \<Longrightarrow> I a \<Longrightarrow> (\<And>s x t. I s \<Longrightarrow> R s x t \<Longrightarrow> I t) \<Longrightarrow> I b"
  by (induction rule: trace.induct) auto

end
