(* ===== verification/SelfHost.thy ===== *)
theory SelfHost
  imports ReplChannel Traces
begin

text \<open>
  \<open>scripts/self-host-gen1.py\<close>: boot Gen0 under QEMU, let it build Gen1, and save the image through the
  machine protocol.  The guest is what it will print and when (in milliseconds), when its output ends, the
  replies on the machine-protocol socket, and the size of the file at the end; what the script does to it is
  the list of actions.  \<open>step\<close> is the life of the guest as a state machine, against which the script is
  checked.  The transparent-huge-page call and the messages are left out.
\<close>

section \<open>The guest\<close>

datatype action =
    Typed bytes
  | Connected
  | Sent bytes
  | Closed
  | Killed
  | Reaped

record guest =
  h_now :: nat
  h_out :: "(nat \<times> byte) list"
  h_ends :: "nat option"
  h_listens :: bool
  h_qmp :: "bytes option list"
  h_file :: "nat option"
  h_acts :: "action list"

definition act :: "action \<Rightarrow> guest \<Rightarrow> guest" where
  "act a s = s\<lparr>h_acts := h_acts s @ [a]\<rparr>"

text \<open>
  \<open>select\<close> for a tenth of a second and, when something can be read, \<open>os.read\<close> of up to 4096 bytes; at the
  end of the output the read returns nothing.
\<close>

definition poll :: "guest \<Rightarrow> bytes option \<times> guest" where
  "poll s =
     (case (case h_out s of x # _ \<Rightarrow> Some (fst x) | [] \<Rightarrow> h_ends s) of
        None \<Rightarrow> (None, s\<lparr>h_now := h_now s + 100\<rparr>)
      | Some t \<Rightarrow>
          if h_now s + 100 < t then (None, s\<lparr>h_now := h_now s + 100\<rparr>)
          else let now = max (h_now s) t;
                   got = take 4096 (takeWhile (\<lambda>y. fst y \<le> now) (h_out s))
               in (Some (map snd got), s\<lparr>h_now := now, h_out := drop (length got) (h_out s)\<rparr>))"

lemma poll_cases:
  obtains (quiet) "poll s = (None, s\<lparr>h_now := h_now s + 100\<rparr>)"
  | (ended) now where "h_out s = []" "h_now s \<le> now" "now \<le> h_now s + 100" "poll s = (Some [], s\<lparr>h_now := now\<rparr>)"
  | (read) got rest now where "h_out s = got @ rest" "got \<noteq> []" "h_now s \<le> now" "now \<le> h_now s + 100"
      "poll s = (Some (map snd got), s\<lparr>h_now := now, h_out := rest\<rparr>)"
proof (cases "h_out s")
  case Nil
  show thesis
  proof (cases "h_ends s")
    case None
    then show thesis using Nil quiet by (simp add: poll_def)
  next
    case (Some t)
    have e: "s\<lparr>h_now := n, h_out := []\<rparr> = s\<lparr>h_now := n\<rparr>" for n using Nil by simp
    show thesis
    proof (cases "h_now s + 100 < t")
      case True
      then show thesis using Nil Some quiet by (simp add: poll_def)
    next
      case False
      then show thesis using Nil Some e ended [of "max (h_now s) t"] by (simp add: poll_def Let_def)
    qed
  qed
next
  case (Cons x xs)
  show thesis
  proof (cases "h_now s + 100 < fst x")
    case True
    then show thesis using Cons quiet by (simp add: poll_def)
  next
    case False
    let ?now = "max (h_now s) (fst x)"
    let ?got = "take 4096 (takeWhile (\<lambda>y. fst y \<le> ?now) (h_out s))"
    have "h_out s = ?got @ drop (length ?got) (h_out s)"
      using take_take_takeWhile [of 4096 "\<lambda>y. fst y \<le> ?now" "h_out s"] by (metis append_take_drop_id)
    moreover have "?got \<noteq> []" using Cons by simp
    moreover have "poll s = (Some (map snd ?got), s\<lparr>h_now := ?now, h_out := drop (length ?got) (h_out s)\<rparr>)"
      using Cons False by (simp add: poll_def Let_def)
    ultimately show thesis using False by (intro read [of ?got "drop (length ?got) (h_out s)" ?now]) auto
  qed
qed

fun drain :: "nat \<Rightarrow> bytes \<Rightarrow> guest \<Rightarrow> bytes \<times> guest" where
  "drain 0 b s = (b, s)"
| "drain (Suc n) b s = (case poll s of (None, s) \<Rightarrow> (b, s) | (Some d, s) \<Rightarrow> drain n (b @ d) s)"

function ru_loop :: "bytes \<Rightarrow> nat \<Rightarrow> bytes \<Rightarrow> guest \<Rightarrow> (bytes \<times> bool) \<times> guest" where
  "ru_loop marker e b s =
     (if h_now s < e
      then case fst (poll s) of
             None \<Rightarrow> ru_loop marker e b (snd (poll s))
           | Some d \<Rightarrow>
               if d = [] then ((b, False), snd (poll s))
               else if contains marker (b @ d)
               then let (b2, s2) = drain 5 (b @ d) (snd (poll s)) in ((b2, True), s2)
               else ru_loop marker e (b @ d) (snd (poll s))
      else ((b, False), s))"
  by pat_completeness auto
termination
proof (relation "measure (\<lambda>(marker, e, b, s). length (h_out s) + (e - h_now s))", goal_cases)
  case (2 marker e b s)
  then show ?case by (cases rule: poll_cases [of s]) auto
next
  case (3 marker e b s d)
  then show ?case by (cases rule: poll_cases [of s]) (auto simp flip: length_greater_0_conv)
qed simp

declare ru_loop.simps [simp del]

definition read_until :: "string \<Rightarrow> nat \<Rightarrow> guest \<Rightarrow> (string \<times> bool) \<times> guest" where
  "read_until marker timeout s =
     (let r = ru_loop (encode marker) (h_now s + timeout) [] s in ((decode_text (fst (fst r)), snd (fst r)), snd r))"

section \<open>The script\<close>

text \<open>\<open>re.search(r'D:\s*(\d+)', out)\<close>\<close>

fun size_match :: "string \<Rightarrow> string option" where
  "size_match [] = None"
| "size_match (c # cs) =
     (let ds = takeWhile is_digit (dropWhile py_space (drop 1 cs))
      in if starts_with ''D:'' (c # cs) \<and> ds \<noteq> [] then Some ds else size_match cs)"

text \<open>A write to the guest's input fails when the guest is gone.\<close>

definition type_in :: "bytes \<Rightarrow> guest \<Rightarrow> unit res \<times> guest" where
  "type_in b s =
     (case h_ends s of
        Some t \<Rightarrow> if t \<le> h_now s then (Inl OSError, s) else (Inr (), act (Typed b) s)
      | None \<Rightarrow> (Inr (), act (Typed b) s))"

text \<open>\<open>s.recv(4096)\<close>: the reply, or \<open>None\<close> when it times out or the connection is lost.\<close>

definition qmp_recv :: "guest \<Rightarrow> bytes option \<times> guest" where
  "qmp_recv s = (case h_qmp s of [] \<Rightarrow> (None, s) | r # rs \<Rightarrow> (r, s\<lparr>h_qmp := rs\<rparr>))"

definition capabilities :: bytes where
  "capabilities = encode (''{\"execute\":\"qmp_capabilities\"}'' @ [nl])"

definition pmemsave :: "string \<Rightarrow> nat \<Rightarrow> bytes" where
  "pmemsave gen1 n =
     encode (''{\"execute\":\"pmemsave\",\"arguments\":{\"val\":134217728,\"size\":'' @ dec n @
       '',\"filename\":\"'' @ gen1 @ ''\"}}'' @ [nl])"

text \<open>None of the replies is looked at; the result is the size of the file at the end.\<close>

definition qmp_save :: "string \<Rightarrow> nat \<Rightarrow> guest \<Rightarrow> nat res \<times> guest" where
  "qmp_save gen1 n s =
     (if \<not> h_listens s then (Inl OSError, s)
      else case qmp_recv (act Connected s) of
        (None, s) \<Rightarrow> (Inl OSError, s)
      | (Some _, s) \<Rightarrow>
          (case qmp_recv (act (Sent capabilities) s) of
             (None, s) \<Rightarrow> (Inl OSError, s)
           | (Some _, s) \<Rightarrow>
               (case qmp_recv (act (Sent (pmemsave gen1 n)) s) of
                  (None, s) \<Rightarrow> (Inl OSError, s)
                | (Some _, s) \<Rightarrow>
                    (case h_file s of Some k \<Rightarrow> Inr k | None \<Rightarrow> Inl OSError,
                     act Reaped (act Killed (act Closed s))))))"

definition build_command :: bytes where
  "build_command = encode (''(build-image)'' @ [nl])"

text \<open>From the wait for the image on, and the whole.\<close>

definition build_part :: "string \<Rightarrow> guest \<Rightarrow> nat res \<times> guest" where
  "build_part gen1 s =
     (let ((out, ok), s) = read_until ''D:'' 600000 s
      in if \<not> ok then (Inl (SystemExit 1), act Killed s)
         else case size_match out of
           None \<Rightarrow> (Inl (SystemExit 1), act Killed s)
         | Some ds \<Rightarrow> qmp_save gen1 (dec_val ds) s)"

definition self_host :: "string \<Rightarrow> guest \<Rightarrow> nat res \<times> guest" where
  "self_host gen1 s =
     (let ((out, ok), s) = read_until ''> '' 60000 s
      in if \<not> ok then (Inl (SystemExit 1), act Killed s)
         else case type_in build_command s of
           (Inl e, s) \<Rightarrow> (Inl e, s)
         | (Inr _, s) \<Rightarrow> build_part gen1 s)"

section \<open>The life of the guest\<close>

datatype stage = Booting | Building | Talking | Negotiated | Saved | Finished | Dead | Gone

text \<open>\<open>R n\<close> says that \<open>n\<close> is the size that was reported; without it no connection is made.\<close>

inductive step :: "(nat \<Rightarrow> bool) \<Rightarrow> string \<Rightarrow> nat \<Rightarrow> stage \<Rightarrow> action \<Rightarrow> stage \<Rightarrow> bool"
  for R gen1 n where
  build: "step R gen1 n Booting (Typed build_command) Building"
| no_prompt: "step R gen1 n Booting Killed Dead"
| no_image: "step R gen1 n Building Killed Dead"
| connect: "R n \<Longrightarrow> step R gen1 n Building Connected Talking"
| negotiate: "step R gen1 n Talking (Sent capabilities) Negotiated"
| save: "step R gen1 n Negotiated (Sent (pmemsave gen1 n)) Saved"
| finish: "step R gen1 n Saved Closed Finished"
| kill: "step R gen1 n Finished Killed Dead"
| reap: "step R gen1 n Dead Reaped Gone"

abbreviation path :: "(nat \<Rightarrow> bool) \<Rightarrow> string \<Rightarrow> nat \<Rightarrow> stage \<Rightarrow> action list \<Rightarrow> stage \<Rightarrow> bool" where
  "path R gen1 n \<equiv> trace (step R gen1 n)"

inductive_cases step_sent: "step R gen1 n a (Sent b) c"
inductive_cases step_connected: "step R gen1 n a Connected c"
inductive_simps step_simps: "step R gen1 n Building x c" "step R gen1 n Dead x c" "step R gen1 n Gone x c"

text \<open>
  The size was in the output: some stretch of it, read as text, has the number after its first \<open>D:\<close>.
\<close>

definition reported :: "(nat \<times> byte) list \<Rightarrow> nat \<Rightarrow> bool" where
  "reported xs n \<longleftrightarrow> (\<exists>a ds b d. xs = a @ ds @ b \<and> size_match (texts ds) = Some d \<and> dec_val d = n)"

section \<open>What a read changes\<close>

text \<open>Reading moves the clock and takes a prefix of the output.\<close>

definition same_guest :: "guest \<Rightarrow> guest \<Rightarrow> bool" where
  "same_guest s s' \<longleftrightarrow> h_acts s' = h_acts s \<and> h_listens s' = h_listens s \<and> h_qmp s' = h_qmp s \<and>
     h_file s' = h_file s \<and> h_ends s' = h_ends s \<and> h_now s \<le> h_now s'"

lemma same_guest_trans: "same_guest s t \<Longrightarrow> same_guest t u \<Longrightarrow> same_guest s u"
  by (simp add: same_guest_def)

lemma poll_effect:
  "poll s = (r, s') \<Longrightarrow> same_guest s s' \<and> h_now s' \<le> h_now s + 100 \<and>
     (\<exists>ds. h_out s = ds @ h_out s' \<and> (case r of None \<Rightarrow> ds = [] | Some d \<Rightarrow> d = map snd ds))"
  by (cases rule: poll_cases [of s]) (auto simp: same_guest_def)

lemma drain_effect:
  "drain n b s = (b', s') \<Longrightarrow> same_guest s s' \<and> h_now s' \<le> h_now s + 100 * n \<and>
     (\<exists>ds. h_out s = ds @ h_out s' \<and> b' = b @ map snd ds)"
proof (induction n arbitrary: b s)
  case 0
  then show ?case by (auto simp: same_guest_def)
next
  case (Suc n)
  obtain r t where p: "poll s = (r, t)" by (cases "poll s")
  note e = poll_effect [OF p]
  show ?case
  proof (cases r)
    case None
    then show ?thesis using Suc.prems p e by auto
  next
    case (Some d)
    then have "drain n (b @ d) t = (b', s')" using Suc.prems p by simp
    note IH = Suc.IH [OF this]
    obtain us vs where "h_out s = us @ h_out t" "d = map snd us" "h_out t = vs @ h_out s'" "b' = (b @ d) @ map snd vs"
      using e IH Some by auto
    then have "h_out s = (us @ vs) @ h_out s' \<and> b' = b @ map snd (us @ vs)" by simp
    moreover have "same_guest s s'" using same_guest_trans e IH by blast
    moreover have "h_now s' \<le> h_now s + 100 * Suc n" using e IH by simp
    ultimately show ?thesis by blast
  qed
qed

lemma ru_loop_effect:
  "ru_loop m e b s = ((b', ok), s') \<Longrightarrow> same_guest s s' \<and> h_now s' \<le> max (h_now s) (e + 600) \<and>
     (\<exists>ds. h_out s = ds @ h_out s' \<and> b' = b @ map snd ds) \<and> (ok \<longrightarrow> contains m b')"
proof (induction m e b s arbitrary: b' ok s' rule: ru_loop.induct)
  case (1 m e b s)
  show ?case
  proof (cases "h_now s < e")
    case False
    then show ?thesis using "1.prems" by (auto simp: ru_loop.simps [of m e b s] same_guest_def)
  next
    case True
    obtain r t where p: "poll s = (r, t)" by (cases "poll s")
    note eff = poll_effect [OF p]
    show ?thesis
    proof (cases r)
      case None
      then have "ru_loop m e b t = ((b', ok), s')" using "1.prems" True p by (simp add: ru_loop.simps [of m e b s])
      with "1.IH"(1) [OF True] None p have IH: "same_guest t s'" "h_now s' \<le> max (h_now t) (e + 600)"
        "\<exists>ds. h_out t = ds @ h_out s' \<and> b' = b @ map snd ds" "ok \<longrightarrow> contains m b'" by auto
      moreover have "same_guest s s'" using same_guest_trans eff IH(1) by blast
      moreover have "h_now s' \<le> max (h_now s) (e + 600)" using eff IH(2) True by auto
      moreover have "h_out s = h_out t" using eff None by auto
      ultimately show ?thesis by simp
    next
      case (Some d)
      show ?thesis
      proof (cases "d = [] \<or> contains m (b @ d)")
        case False
        then have "ru_loop m e (b @ d) t = ((b', ok), s')" using "1.prems" True p Some by (simp add: ru_loop.simps [of m e b s])
        with "1.IH"(2) [OF True] Some p False have IH: "same_guest t s'" "h_now s' \<le> max (h_now t) (e + 600)"
          "\<exists>ds. h_out t = ds @ h_out s' \<and> b' = (b @ d) @ map snd ds" "ok \<longrightarrow> contains m b'" by auto
        obtain us where us: "h_out s = us @ h_out t" "d = map snd us" using eff Some by auto
        obtain vs where vs: "h_out t = vs @ h_out s'" "b' = (b @ d) @ map snd vs" using IH(3) by blast
        have "h_out s = (us @ vs) @ h_out s' \<and> b' = b @ map snd (us @ vs)" using us vs by simp
        moreover have "same_guest s s'" using same_guest_trans eff IH(1) by blast
        moreover have "h_now s' \<le> max (h_now s) (e + 600)" using eff IH(2) True by auto
        ultimately show ?thesis using IH(4) by blast
      next
        case stop: True
        show ?thesis
        proof (cases "d = []")
          case True
          then show ?thesis using "1.prems" \<open>h_now s < e\<close> p Some eff by (auto simp: ru_loop.simps [of m e b s])
        next
          case False
          obtain b2 s2 where dr: "drain 5 (b @ d) t = (b2, s2)" by (cases "drain 5 (b @ d) t")
          then have r: "b' = b2" "s' = s2" using "1.prems" \<open>h_now s < e\<close> p Some False stop
            by (auto simp: ru_loop.simps [of m e b s])
          note de = drain_effect [OF dr]
          obtain us where us: "h_out s = us @ h_out t" "d = map snd us" using eff Some by auto
          obtain vs where vs: "h_out t = vs @ h_out s2" "b2 = (b @ d) @ map snd vs" using de by blast
          have "h_out s = (us @ vs) @ h_out s' \<and> b' = b @ map snd (us @ vs)" using us vs r by simp
          moreover have "contains m b'" using stop False vs(2) r(1) contains_prepend [of m "b @ d" "[]" "map snd vs"] by simp
          moreover have "same_guest s s'" using same_guest_trans eff de r by blast
          moreover have "h_now s' \<le> max (h_now s) (e + 600)" using eff de r \<open>h_now s < e\<close> by auto
          ultimately show ?thesis by blast
        qed
      qed
    qed
  qed
qed

lemma read_until_effect:
  assumes "read_until m w s = ((out, ok), s')"
  shows "same_guest s s'" and "h_now s' \<le> h_now s + w + 600" and "\<exists>ds. h_out s = ds @ h_out s' \<and> out = texts ds"
proof -
  obtain b k t where l: "ru_loop (encode m) (h_now s + w) [] s = ((b, k), t)" by (metis prod.collapse)
  then have r: "ru_loop (encode m) (h_now s + w) [] s = ((b, ok), s')" "out = decode_text b"
    using assms by (simp_all add: read_until_def)
  from ru_loop_effect [OF r(1)] show "same_guest s s'" "h_now s' \<le> h_now s + w + 600"
    "\<exists>ds. h_out s = ds @ h_out s' \<and> out = texts ds"
    by (auto simp: r(2) texts_def)
qed

section \<open>The trace\<close>

text \<open>What a result says about the stage that is reached.\<close>

definition fits_stage :: "guest \<Rightarrow> nat res \<Rightarrow> stage \<Rightarrow> bool" where
  "fits_stage s res st \<longleftrightarrow>
     (case res of
        Inr k \<Rightarrow> st = Gone \<and> h_file s = Some k
      | Inl e \<Rightarrow> if e = SystemExit 1 then st = Dead else e = OSError \<and> st \<noteq> Dead)"

lemma qmp_save_trace:
  assumes "qmp_save gen1 n s = (res, s')" "R n"
  shows "\<exists>tr st. h_acts s' = h_acts s @ tr \<and> h_now s' = h_now s \<and> path R gen1 n Building tr st \<and> fits_stage s res st"
proof -
  have c: "path R gen1 n Building [Connected] Talking" by (rule trace_one [of "step R gen1 n"]) (rule step.connect, rule assms(2))
  have g: "path R gen1 n Building [Connected, Sent capabilities] Negotiated"
    using trace.snoc [OF c step.negotiate] by simp
  have v: "path R gen1 n Building [Connected, Sent capabilities, Sent (pmemsave gen1 n)] Saved"
    using trace.snoc [OF g step.save] by simp
  have z: "path R gen1 n Building [Connected, Sent capabilities, Sent (pmemsave gen1 n), Closed, Killed, Reaped] Gone"
    using trace.snoc [OF trace.snoc [OF trace.snoc [OF v step.finish] step.kill] step.reap] by simp
  show ?thesis
  proof (cases "h_listens s")
    case False
    then show ?thesis using assms(1)
      by (intro exI [of _ "[]"] exI [of _ Building]) (auto simp: qmp_save_def fits_stage_def)
  next
    case True
    note run = assms(1) [unfolded qmp_save_def]
    consider "h_qmp s = []" | r1 q where "h_qmp s = None # q"
      | d1 where "h_qmp s = [Some d1]" | d1 q where "h_qmp s = Some d1 # None # q"
      | d1 d2 where "h_qmp s = [Some d1, Some d2]" | d1 d2 q where "h_qmp s = Some d1 # Some d2 # None # q"
      | d1 d2 d3 q where "h_qmp s = Some d1 # Some d2 # Some d3 # q"
      by (metis list.exhaust option.exhaust)
    then show ?thesis
    proof cases
      case 7
      then show ?thesis using run True z
        by (intro exI [of _ "[Connected, Sent capabilities, Sent (pmemsave gen1 n), Closed, Killed, Reaped]"] exI [of _ Gone])
          (auto simp: qmp_recv_def act_def fits_stage_def split: option.splits)
    qed (use run True c in \<open>force simp: qmp_recv_def act_def fits_stage_def\<close>,
         use run True c in \<open>force simp: qmp_recv_def act_def fits_stage_def\<close>,
         use run True g in \<open>force simp: qmp_recv_def act_def fits_stage_def\<close>,
         use run True g in \<open>force simp: qmp_recv_def act_def fits_stage_def\<close>,
         use run True v in \<open>force simp: qmp_recv_def act_def fits_stage_def\<close>,
         use run True v in \<open>force simp: qmp_recv_def act_def fits_stage_def\<close>)
  qed
qed

lemma reported_prepend: "reported xs n \<Longrightarrow> reported (a @ xs) n"
  unfolding reported_def by (metis append.assoc)

lemma build_part_trace:
  assumes "build_part gen1 s = (res, s')" "\<And>n. reported (h_out s) n \<Longrightarrow> R n"
  shows "\<exists>n tr st. h_acts s' = h_acts s @ tr \<and> h_now s' \<le> h_now s + 600600 \<and> path R gen1 n Building tr st \<and> fits_stage s res st"
proof -
  obtain out ok s1 where r: "read_until ''D:'' 600000 s = ((out, ok), s1)" by (metis prod.collapse)
  note e = read_until_effect [OF r]
  have s1: "h_acts s1 = h_acts s" "h_file s1 = h_file s" "h_now s1 \<le> h_now s + 600600"
    using e(1,2) by (simp_all add: same_guest_def)
  show ?thesis
  proof (cases "if ok then size_match out else None")
    case None
    then have b: "(res, s') = (Inl (SystemExit 1), act Killed s1)"
      using assms(1) r by (auto simp: build_part_def split: if_splits)
    have "path R gen1 0 Building [Killed] Dead" by (rule trace_one [of "step R gen1 0"]) (rule step.no_image)
    then show ?thesis using b s1
      by (intro exI [of _ 0] exI [of _ "[Killed]"] exI [of _ Dead]) (simp add: act_def fits_stage_def)
  next
    case (Some d)
    then have q: "qmp_save gen1 (dec_val d) s1 = (res, s')" and d: "size_match out = Some d"
      using assms(1) r by (auto simp: build_part_def split: if_splits)
    have "reported (h_out s) (dec_val d)" unfolding reported_def using e(3) d by (metis append_Nil)
    then have R: "R (dec_val d)" by (rule assms(2))
    obtain tr st where "h_acts s' = h_acts s1 @ tr" "h_now s' = h_now s1" "path R gen1 (dec_val d) Building tr st" "fits_stage s1 res st"
      using qmp_save_trace [where R = R, OF q R] by blast
    then show ?thesis using s1 by (intro exI [of _ "dec_val d"] exI [of _ tr] exI [of _ st]) (auto simp: fits_stage_def split: sum.splits)
  qed
qed

section \<open>Properties\<close>


text \<open>
  A guest that refuses the connection, or does not answer on it, is left running: the exception leaves the
  script before the guest is killed.
\<close>

lemma guest_left_running:
  "\<not> h_listens s \<Longrightarrow> qmp_save gen1 n s = (Inl OSError, s)"
  "h_listens s \<Longrightarrow> h_qmp s = [] \<Longrightarrow> h_acts (snd (qmp_save gen1 n s)) = h_acts s @ [Connected]"
  by (simp_all add: qmp_save_def qmp_recv_def act_def)


text \<open>
  The five reads after the marker need not reach the end of the number: when the digits come one at a time,
  as a slow guest prints them, only the first four are seen, and the image would be cut to that size.
\<close>

lemma poll_byte:
  assumes "h_out s = (t, b) # ys" "h_now s \<le> t" "t \<le> h_now s + 100" "ys = [] \<or> t < fst (hd ys)"
  shows "poll s = (Some [b], s\<lparr>h_now := t, h_out := ys\<rparr>)"
proof -
  have "takeWhile (\<lambda>y. fst y \<le> t) ys = []" using assms(4) by (cases ys) auto
  then show ?thesis using assms(1-3) by (simp add: poll_def max_def)
qed

definition slow_guest :: guest where
  "slow_guest =
     \<lparr>h_now = 1000, h_out = zip [1000 ..< 1010] (ascii ''D: 1234567''), h_ends = None, h_listens = True, h_qmp = [],
      h_file = None, h_acts = []\<rparr>"

lemma slow_bytes: "h_out slow_guest =
    [(1000, 68), (1001, 58), (1002, 32), (1003, 49), (1004, 50), (1005, 51), (1006, 52), (1007, 53), (1008, 54), (1009, 55)]"
  unfolding slow_guest_def by (simp add: ascii_def upt_rec)

lemma slow_guest_cut: "fst (fst (read_until ''D:'' 600000 slow_guest)) = ''D: 1234''"
proof -
  define s0 where "s0 = slow_guest"
  have s0: "h_out s0 = [(1000, 68), (1001, 58), (1002, 32), (1003, 49), (1004, 50), (1005, 51), (1006, 52), (1007, 53), (1008, 54), (1009, 55)]"
    "h_now s0 = 1000" unfolding s0_def by (simp_all add: slow_bytes) (simp add: slow_guest_def)
  define s1 where "s1 = s0\<lparr>h_now := 1000, h_out := tl (h_out s0)\<rparr>"
  define s2 where "s2 = s1\<lparr>h_now := 1001, h_out := tl (h_out s1)\<rparr>"
  have m: "encode ''D:'' = [68, 58]" by code_simp
  have p0: "poll s0 = (Some [68], s1)" unfolding s1_def by (rule poll_byte) (simp_all add: s0)
  have p1: "poll s1 = (Some [58], s2)" unfolding s2_def by (rule poll_byte) (simp_all add: s1_def s0)
  have o2: "h_out s2 = [(1002, 32), (1003, 49), (1004, 50), (1005, 51), (1006, 52), (1007, 53), (1008, 54), (1009, 55)]" "h_now s2 = 1001"
    by (simp_all add: s2_def s1_def s0)
  have d: "fst (drain 5 [68, 58] s2) = [68, 58, 32, 49, 50, 51, 52]"
    using o2 by (simp add: eval_nat_numeral(2,3) poll_byte)
  have "fst (fst (ru_loop [68, 58] 601000 [] s0)) = fst (drain 5 [68, 58] s2)"
  proof -
    have "h_now s1 = 1000" by (simp add: s1_def)
    then show ?thesis using p0 p1 s0(2)
      by (simp add: ru_loop.simps [of _ _ _ s0] ru_loop.simps [of _ _ _ s1] starts_with_def case_prod_beta)
  qed
  moreover have "decode_text [68, 58, 32, 49, 50, 51, 52] = ''D: 1234''" by code_simp
  moreover have "h_now s0 + 600000 = 601000" using s0(2) by simp
  ultimately show ?thesis unfolding s0_def [symmetric] read_until_def Let_def m fst_conv by (simp only: d)
qed

lemma slow_guest_size: "size_match ''D: 1234'' = Some ''1234''" "dec_val ''1234'' = 1234"
  by code_simp+


end
