(* ===== verification/PmuEl3.thy ===== *)
theory PmuEl3
  imports PmuDrivers
begin

text \<open>
  \<open>serial-pmu3.py\<close>: the one driver whose script depends on an answer of the board.  It asks for the
  exception level, and only a board that runs at EL3 is sent the stubs that read and write the EL3
  registers; the rest is the script of \<open>serial-pmu.py\<close> after its first form.
\<close>

section \<open>The driver\<close>

definition ask_el :: "step list" where
  "ask_el = [jit_all, Raw (stub ''cur-el'' (reader 3577233984)) 3000]"

definition el_form :: string where "el_form = ''(list :current-el (cur-el))''"

definition mdcr3_spme :: "insn_word list" where
  "mdcr3_spme = [3577615137, 2993618977, 3575517985, 3573759967, 3577615136, 3548379136, 3596551104]"

definition el3_stubs :: "(string \<times> insn_word list) list" where
  "el3_stubs =
     [(''mdcr3-read'', reader 3577615136),
      (''scr3-read'', reader 3577614592),
      (''mdcr3-spme'', mdcr3_spme)]"

definition el3_steps :: "step list" where
  "el3_steps = send_stubs el3_stubs @
    [Ev ''(list :mdcr-el3-before (mdcr3-read) :scr-el3 (scr3-read))'' 10000,
     Ev ''(list :mdcr-el3-after-spme (mdcr3-spme))'' 10000]"

text \<open>\<open>re.search(r"CURRENT-EL (\d+)", v or "")\<close>; the value is -1 without a match.\<close>

fun el_match :: "string \<Rightarrow> string option" where
  "el_match [] = None"
| "el_match (c # cs) =
     (if starts_with ''CURRENT-EL '' (c # cs) \<and> takeWhile is_digit (drop 11 (c # cs)) \<noteq> []
      then Some (takeWhile is_digit (drop 11 (c # cs))) else el_match cs)"

definition current_el :: "string option \<Rightarrow> int" where
  "current_el v =
     (case el_match (case v of Some x \<Rightarrow> x | None \<Rightarrow> []) of Some ds \<Rightarrow> int (dec_val ds) | None \<Rightarrow> - 1)"

definition el_text :: "int \<Rightarrow> string" where
  "el_text el = ''EL = '' @ (if el < 0 then ''-'' @ dec (nat (- el)) else dec (nat el)) @ '' (12=EL3, 8=EL2, 4=EL1)''"

definition after_el :: "int \<Rightarrow> step list" where
  "after_el el = (if el = 12 then el3_steps else [Say ''not EL3: MDCR_EL3 not touched'']) @ tl serial_pmu"

definition serial_pmu3 :: "board \<Rightarrow> nat \<times> board" where
  "serial_pmu3 s =
     (let s = reset_input_buffer s; (ok, s) = ready 5 s
      in if \<not> ok then (1, display ''SERIAL REPL NOT READY'' s)
         else let s = fold run_step ask_el (display ''SERIAL READY'' s);
                  (v, s) = ev el_form 10000 s; el = current_el v
              in (0, fold run_step (after_el el) (display (el_text el) s)))"

section \<open>The registers of EL3\<close>

text \<open>The registers whose \<open>op1\<close> field is 6 belong to EL3; an access from a lower level traps.\<close>

definition el3_word :: "insn_word \<Rightarrow> bool" where
  "el3_word w =
     (case a64 w of Some (Msr r t) \<Rightarrow> field 11 3 r = 6 | Some (Mrs t r) \<Rightarrow> field 11 3 r = 6 | _ \<Rightarrow> False)"

definition MDCR_EL3 :: insn_word where "MDCR_EL3 = sysreg 1 6 1 3 1"
definition SCR_EL3 :: insn_word where "SCR_EL3 = sysreg 1 6 1 1 0"
definition SPME :: nat where "SPME = 17"

lemma decode_el3:
  "a64 3577615137 = Some (Mrs 1 MDCR_EL3)" "a64 2993618977 = Some (OrrImm 1 1 (push_bit SPME 1))"
  "a64 3575517985 = Some (Msr MDCR_EL3 1)" "a64 3577615136 = Some (Mrs 0 MDCR_EL3)"
  "a64 3577614592 = Some (Mrs 0 SCR_EL3)"
  by code_simp+

text \<open>
  The stub sets \<open>SPME\<close> in \<open>MDCR_EL3\<close> and keeps the other bits; the register is read again after the
  barrier, so what is returned is the register and not the value that was written.
\<close>

lemma mdcr3_spme_stub:
  "\<exists>c'. run env mdcr3_spme c = Some c' \<and> msrs c' = msrs c @ [(MDCR_EL3, env MDCR_EL3 OR push_bit SPME 1)]
     \<and> gpr c' 0 = push_bit 1 (env MDCR_EL3)"
  unfolding mdcr3_spme_def by (simp add: decode_el3 decode_words)

section \<open>Property\<close>

lemma el3_stubs_only:
  "list_all (\<lambda>(name, ws). well_formed False ws \<and> list_ex el3_word ws) el3_stubs"
  "list_all (\<lambda>(name, ws). \<not> list_ex el3_word ws) (pmu_stubs @ [(''cur-el'', reader 3577233984)])"
  by code_simp+

text \<open>What the driver sends: the questions, and then the script for the level that was read.\<close>

definition el_script :: "int \<Rightarrow> step list" where
  "el_script el = ask_el @ [Ev el_form 10000] @ (if el = 12 then el3_steps else []) @ tl serial_pmu"

lemma el_script_text:
  "script_text (el_script el) ts =
     script_text ask_el ts @ tagged (tag_of (tl ts)) el_form @ script_text (after_el el) (tl (tl ts))"
  by (simp add: el_script_def after_el_def script_text_append ask_el_def jit_all_def drop_Suc)


end
