(* ===== verification/RhCore.thy ===== *)
theory RhCore
  imports BoardRepl
begin

text \<open>
  \<open>rh_core3.py\<close>: the driver of the restored reel core.  It opens like the other serial drivers, but
  its \<open>raw\<close> waits for a quiet line, it makes eight attempts to reach the REPL, and it plays only if the
  executable page the board hands out lies in the arena.  The camera commands take \<open>d\<close> milliseconds or
  run beside the driver; the dash of the abort message is written as a hyphen.
\<close>

section \<open>The functions\<close>

text \<open>\<open>raw\<close>: every read that brings something moves the end of the wait.\<close>

function quiet_loop :: "nat \<Rightarrow> nat \<Rightarrow> bytes \<Rightarrow> board \<Rightarrow> bytes \<times> board" where
  "quiet_loop settle e b s =
     (if clock s < e
      then let r = serial_read 8192 300 s
           in if fst r = [] then quiet_loop settle e b (snd r)
              else quiet_loop settle (clock (snd r) + min settle 1200) (b @ fst r) (snd r)
      else (b, s))"
  by pat_completeness auto
termination
proof (relation "measures [\<lambda>(settle, e, b, s). length (inbound s), \<lambda>(settle, e, b, s). e - clock s]", goal_cases)
  case (2 settle e b s r)
  then show ?case by (auto simp: serial_read_def Let_def split: if_splits)
next
  case (3 settle e b s r)
  obtain ds where "inbound s = ds @ inbound (snd r)" "fst r = map snd ds"
    using inbound_read [of 8192 300 s] 3(2) by (metis prod.collapse)
  then show ?case using 3(3) by simp
qed simp

declare quiet_loop.simps [simp del]

definition quiet_raw :: "string \<Rightarrow> nat \<Rightarrow> board \<Rightarrow> string \<times> board" where
  "quiet_raw x settle s =
     (let s = type_out (x @ [CHR 0x0D, nl]) s; (b, s) = quiet_loop settle (clock s + settle) [] s
      in (drop_nul (decode_text b), s))"

definition rh_ev :: "string \<Rightarrow> nat \<Rightarrow> board \<Rightarrow> string option \<times> board" where
  "rh_ev form w s =
     (let ((v, out), s) = q form w s
      in (v, display (''  '' @ ljust 58 (take 58 form) @ '' => '' @
                (case v of Some x \<Rightarrow> x | None \<Rightarrow> last_n 100 (strip out))) s))"

fun rh_step :: "step \<Rightarrow> board \<Rightarrow> board" where
  "rh_step (Ev form w) s = snd (rh_ev form w s)"
| "rh_step c s = run_step c s"

fun rh_ready :: "nat \<Rightarrow> board \<Rightarrow> bool \<times> board" where
  "rh_ready 0 s = (False, s)"
| "rh_ready (Suc n) s =
     (let s = snd (quiet_raw '')))))))))'' 500 s); s = snd (quiet_raw ''(+ 0 0)'' 500 s);
          ((v, _), s) = q probe 3000 s
      in if v = Some ''42'' then (True, s) else rh_ready n (nap 2000 s))"

section \<open>The driver\<close>

definition rh_checks :: "step list" where
  "rh_checks =
     [Ev ''(if (find-package \"REEL\") 1 0)'' 8000,
      Ev ''(if (fboundp (quote rh-play)) 1 0)'' 8000,
      Ev ''(list *rh-len* (if *rh-ivf* (length *rh-ivf*) -1))'' 8000,
      Ev ''(setq *jit-on* t)'' 8000,
      Ev ''(setq *jit-hot-only* nil)'' 8000,
      Ev ''(modus-int::%gc-read64 335544304)'' 8000]"

definition arena_form :: string where "arena_form = ''(%mmap-exec-page 4096)''"

text \<open>\<open>a is None or int(a) < 0x14000000 or int(a) >= 0x18000000\<close>\<close>

definition arena_broken :: "string option \<Rightarrow> bool res" where
  "arena_broken a =
     (case a of None \<Rightarrow> Inr True
      | Some x \<Rightarrow> res_bind (py_int 10 x) (\<lambda>n. Inr (n < 0x14000000 \<or> n \<ge> 0x18000000)))"

definition rh_play :: "nat \<Rightarrow> step list" where
  "rh_play d =
     [Ev ''(rh-init)'' 60000,
      Say ''=== first frame ==='',
      Ev ''(rh-first-frame)'' 180000,
      Camera d, Say ''  captured rh-first-08.jpg'',
      Say ''=== play (no vsync) ==='',
      Ev ''(rh-play nil)'' 600000,
      Camera 0, Sleep 1000,
      Say ''=== play (vsync) ==='',
      Ev ''(rh-play t)'' 600000,
      Sleep 3000,
      Say ''=== DONE ==='']"

definition rh_core :: "nat \<Rightarrow> board \<Rightarrow> unit res \<times> board" where
  "rh_core d s =
     (let s = reset_input_buffer s; (ok, s) = rh_ready 8 s
      in if \<not> ok then (Inl (SystemExit 1), display ''REPL NOT READY'' s)
         else let s = fold rh_step rh_checks (display ''READY'' s); (a, s) = rh_ev arena_form 8000 s
              in case arena_broken a of
                   Inl e \<Rightarrow> (Inl e, s)
                 | Inr True \<Rightarrow>
                     (Inl (SystemExit 2),
                      display (''ARENA BROKEN ('' @ none_text a @ '') - abort'') s)
                 | Inr False \<Rightarrow> (Inr (), fold rh_step (rh_play d) s))"

section \<open>The steps and the handshake\<close>

lemma quiet_loop_effect:
  "quiet_loop settle e b s = (b', s') \<Longrightarrow>
     outbound s' = outbound s \<and> tags s' = tags s \<and> (\<exists>a. inbound s = a @ inbound s')"
proof (induction settle e b s rule: quiet_loop.induct)
  case (1 settle e b s)
  show ?case
  proof (cases "clock s < e")
    case False
    then show ?thesis using 1(3) by (simp add: quiet_loop.simps [of settle e b s])
  next
    case True
    obtain d s1 where r: "serial_read 8192 300 s = (d, s1)" by (cases "serial_read 8192 300 s")
    have "outbound s' = outbound s1 \<and> tags s' = tags s1 \<and> (\<exists>a. inbound s1 = a @ inbound s')"
      using 1(1,2) [OF True refl] 1(3) True r by (cases "d = []") (simp_all add: quiet_loop.simps [of settle e b s])
    then show ?thesis using untouched_read [OF r] inbound_read [OF r] by auto
  qed
qed

lemma quiet_raw_effect:
  "outbound (snd (quiet_raw x settle s)) = outbound s @ encode (x @ [CHR 0x0D, nl])"
  "tags (snd (quiet_raw x settle s)) = tags s"
  "\<exists>a. inbound s = a @ inbound (snd (quiet_raw x settle s))"
proof -
  let ?s = "type_out (x @ [CHR 0x0D, nl]) s"
  obtain b s' where "quiet_loop settle (clock ?s + settle) [] ?s = (b, s')"
    by (cases "quiet_loop settle (clock ?s + settle) [] ?s")
  note q = this quiet_loop_effect [OF this]
  then show "outbound (snd (quiet_raw x settle s)) = outbound s @ encode (x @ [CHR 0x0D, nl])"
    "tags (snd (quiet_raw x settle s)) = tags s"
    "\<exists>a. inbound s = a @ inbound (snd (quiet_raw x settle s))"
    unfolding quiet_raw_def Let_def by (simp_all add: type_out_effect)
qed

lemma rh_ev_effect:
  assumes "rh_ev form w s = (v, s')"
  shows "outbound s' = outbound s @ encode (tagged (tag_of (tags s)) form)" "tags s' = tl (tags s)"
    and "\<exists>a. inbound s = a @ inbound s'"
    and "case v of Some x \<Rightarrow> heard (tag_of (tags s)) x (inbound s) | None \<Rightarrow> True"
proof -
  obtain r s1 where q: "q form w s = (r, s1)" by (cases "q form w s")
  show "outbound s' = outbound s @ encode (tagged (tag_of (tags s)) form)" "tags s' = tl (tags s)"
    "\<exists>a. inbound s = a @ inbound s'" "case v of Some x \<Rightarrow> heard (tag_of (tags s)) x (inbound s) | None \<Rightarrow> True"
    using assms q q_effects [OF q] q_heard [OF q] by (auto simp: rh_ev_def split: prod.splits)
qed

lemma rh_step_cases:
  "(\<exists>form w v s'. c = Ev form w \<and> rh_ev form w s = (v, s') \<and> rh_step c s = s') \<or> \<not> is_Ev c \<and> rh_step c s = run_step c s"
proof (cases c)
  case (Ev form w)
  then show ?thesis by (cases "rh_ev form w s") auto
qed simp_all

interpretation rh_runner: script_runner rh_step "\<lambda>c. c"
proof
  fix c s
  consider (ev) form w v s' where "c = Ev form w" "rh_ev form w s = (v, s')" "rh_step c s = s'"
    | (other) "\<not> is_Ev c" "rh_step c s = run_step c s"
    using rh_step_cases [of c s] by blast
  then have "(\<forall>xs. outbound (rh_step c s) @ encode (script_text xs (tags (rh_step c s))) = outbound s @ encode (script_text (c # xs) (tags s)))
    \<and> tags (rh_step c s) = (if is_Ev c then tl (tags s) else tags s) \<and> (\<exists>a. inbound s = a @ inbound (rh_step c s))"
  proof cases
    case ev
    then show ?thesis using rh_ev_effect(1-3) [OF ev(2)] by simp
  next
    case other
    then show ?thesis using run_step_wire [of c s] run_step_tags [of c s] run_step_inbound [of s c] by simp
  qed
  then show "outbound (rh_step c s) @ encode (script_text xs (tags (rh_step c s))) = outbound s @ encode (script_text (c # xs) (tags s))"
    "tags (rh_step c s) = (if is_Ev c then tl (tags s) else tags s)" "\<exists>a. inbound s = a @ inbound (rh_step c s)" for xs
    by blast+
qed

definition rh_attempt :: "board \<Rightarrow> bool \<times> board" where
  "rh_attempt s =
     (let s = snd (quiet_raw '')))))))))'' 500 s); s = snd (quiet_raw ''(+ 0 0)'' 500 s);
          ((v, _), s) = q probe 3000 s
      in (v = Some ''42'', if v = Some ''42'' then s else nap 2000 s))"

interpretation rh_probe: prober rh_attempt rh_ready resync
proof
  fix n s
  show "rh_ready 0 s = (False, s)" by simp
  show "rh_ready (Suc n) s = (if fst (rh_attempt s) then (True, snd (rh_attempt s)) else rh_ready n (snd (rh_attempt s)))"
    by (simp add: rh_attempt_def Let_def case_prod_beta)
next
  fix s
  define s1 where "s1 = snd (quiet_raw '')))))))))'' 500 s)"
  define s2 where "s2 = snd (quiet_raw ''(+ 0 0)'' 500 s1)"
  obtain r s3 where r: "q probe 3000 s2 = (r, s3)" by (cases "q probe 3000 s2")
  have a: "rh_attempt s = (fst r = Some ''42'', if fst r = Some ''42'' then s3 else nap 2000 s3)"
    using r by (simp add: rh_attempt_def s1_def s2_def Let_def case_prod_beta)
  have pre: "encode ('')))))))))'' @ [CHR 0x0D, nl]) @ encode (''(+ 0 0)'' @ [CHR 0x0D, nl]) = encode resync"
  proof -
    have "('')))))))))'' @ [CHR 0x0D, nl]) @ ''(+ 0 0)'' @ [CHR 0x0D, nl] = resync" by code_simp
    then show ?thesis by (simp only: encode_append [symmetric] append.assoc)
  qed
  have s2: "outbound s2 = outbound s @ encode resync" "tags s2 = tags s"
    unfolding pre [symmetric] s2_def s1_def quiet_raw_effect by simp_all
  have "\<exists>a. inbound s = a @ inbound s1" "\<exists>a. inbound s1 = a @ inbound s2"
    unfolding s2_def s1_def by (rule quiet_raw_effect(3))+
  then obtain b where b: "inbound s = b @ inbound s2" by (metis append.assoc)
  show "outbound (snd (rh_attempt s)) = outbound s @ encode (resync @ tagged (tag_of (tags s)) probe)"
    "tags (snd (rh_attempt s)) = tl (tags s)"
    using q_effects(1,2) [OF r] s2 a by (simp_all add: nap_def)
  show "\<exists>a. inbound s = a @ inbound (snd (rh_attempt s))"
    using q_heard(2) [OF r] a b by (auto simp: nap_def)
  show "fst (rh_attempt s) \<Longrightarrow> heard_42 (tag_of (tags s)) (inbound s)"
    using q_heard(1) [OF r] a b s2(2) heard_prepend by auto
qed

section \<open>Property\<close>

definition in_arena :: "string option \<Rightarrow> bool" where
  "in_arena a \<longleftrightarrow> (\<exists>x n. a = Some x \<and> py_int 10 x = Inr n \<and> 0x14000000 \<le> n \<and> n < 0x18000000)"


end
