(* ===== verification/BoardVideo.thy ===== *)
theory BoardVideo
  imports BoardRepl Traces
begin

text \<open>
  \<open>board-video.py\<close>: one session that boots the board, lets it re-link over the serial line, and records
  the clips it plays, which are loaded and started over ssh.  The session is the serial line, the answers
  that the ssh commands will get and after how long, and what was done outside: \<open>Netboot\<close>, one \<open>Ssh\<close> for
  each call of \<open>run\<close> with the number of connections and what it returned, \<open>Record\<close> and \<open>Stop\<close> for the
  camera, \<open>Trim\<close> for the final encoding.  Times are in milliseconds; the parsed arguments are a record.
\<close>

section \<open>The session\<close>

record video_args =
  a_img :: string
  a_core :: string
  a_clips :: "string list"
  a_loops :: int
  a_http :: string
  a_out :: string
  a_pre_go :: "string list"
  a_unzip :: "string option"
  a_boot_cmd :: "string option"
  a_no_boot :: bool

datatype action =
    Netboot "string list"
  | Ssh string nat "string option"
  | Record "string list"
  | Stop
  | Trim int string string

record session =
  v_board :: board
  v_ssh :: "(nat \<times> string) list"
  v_acts :: "action list"

definition v_act :: "action \<Rightarrow> session \<Rightarrow> session" where
  "v_act x s = s\<lparr>v_acts := v_acts s @ [x]\<rparr>"

definition v_sleep :: "nat \<Rightarrow> session \<Rightarrow> session" where
  "v_sleep ms s = s\<lparr>v_board := nap ms (v_board s)\<rparr>"

definition v_log :: "string \<Rightarrow> session \<Rightarrow> session" where
  "v_log x s = s\<lparr>v_board := display x (v_board s)\<rparr>"

definition v_time :: "session \<Rightarrow> nat" where
  "v_time s = clock (v_board s)"

section \<open>Netboot and the serial line\<close>

definition netboot_args :: "video_args \<Rightarrow> string list" where
  "netboot_args a =
     [''python3'', ''netboot-core-gz.py'', ''--img'', a_img a, ''--core'', a_core a, ''--tftp-tries'', ''6''] @
     concat (map (\<lambda>c. [''--pre-go'', c]) (a_pre_go a)) @
     (case a_unzip a of Some x \<Rightarrow> if x \<noteq> [] then [''--unzip-addr'', x] else [] | None \<Rightarrow> []) @
     (case a_boot_cmd a of Some x \<Rightarrow> if x \<noteq> [] then [''--boot-cmd'', x] else [] | None \<Rightarrow> [])"

definition netboot_lines :: "string \<Rightarrow> string list" where
  "netboot_lines out =
     concat (map (\<lambda>key. map (\<lambda>l. ''  netboot: '' @ take 100 (strip l)) (filter (contains key) (split_on nl out)))
       [''pre-go'', ''ARMCLK''])"

definition sq :: "string \<Rightarrow> nat \<Rightarrow> board \<Rightarrow> string option \<times> board" where
  "sq form w s =
     (let ((v, out), s) = q form w s
      in (v, display (''  serial '' @ ljust 40 (take 40 form) @ '' => '' @ none_text v) s))"

fun sq_ready :: "nat \<Rightarrow> board \<Rightarrow> bool \<times> board" where
  "sq_ready 0 s = (False, s)"
| "sq_ready (Suc n) s =
     (let (v, s) = sq probe 3000 s in if v = Some ''42'' then (True, s) else sq_ready n (nap 2000 s))"

definition relink_form :: string where "relink_form = ''(list :eager (jit-eager))''"
definition hot_form :: string where "hot_form = ''(setq *jit-hot-only* nil)''"
definition ssh_boot_line :: string where "ssh_boot_line = ''(ssh-boot)'' @ [CHR 0x0D, nl]"

definition serial_part :: "board \<Rightarrow> unit res \<times> board" where
  "serial_part s =
     (let (ok, s) = sq_ready 8 s
      in if \<not> ok then (Inl (SystemExit 1), s)
         else let (_, s) = sq hot_form 60000 s; (_, s) = sq relink_form 900000 s
              in (Inr (), emit 0 (encode ssh_boot_line) (display ''=== ssh-boot'' s)))"

text \<open>The first two parts; \<open>out\<close> is what netboot prints and \<open>ms\<close> how long it takes.\<close>

definition boot_part :: "video_args \<Rightarrow> nat \<Rightarrow> string \<Rightarrow> session \<Rightarrow> unit res \<times> session" where
  "boot_part a ms out s =
     (if a_no_boot a then (Inr (), v_log ''=== no-boot: using the live board'' s)
      else let s = v_log (''=== netboot '' @ a_img a @ '' '' @ a_core a) s;
               s = v_sleep ms (v_act (Netboot (netboot_args a)) s)
           in if \<not> contains ''CORE-RESTORED'' out then (Inl (SystemExit 1), v_log (last_n 800 out) s)
              else let s = v_sleep 15000 (fold v_log (netboot_lines out) s);
                       (r, b) = serial_part (v_board s)
                   in (r, s\<lparr>v_board := b\<rparr>))"

section \<open>Commands over ssh\<close>

definition ssh_lines :: "string \<Rightarrow> string list" where
  "ssh_lines out =
     map (drop 2) (filter (starts_with ''= '') (split_on nl (filter (\<lambda>c. c \<noteq> CHR 0x00 \<and> c \<noteq> CHR 0x0D) out)))"

text \<open>One connection: its output, or \<open>None\<close> when it takes longer than \<open>w\<close>.\<close>

definition ssh_once :: "nat \<Rightarrow> session \<Rightarrow> string option \<times> session" where
  "ssh_once w s =
     (case v_ssh s of
        [] \<Rightarrow> (None, v_sleep w s)
      | (d, out) # rest \<Rightarrow>
          (if w < d then (None, v_sleep w (s\<lparr>v_ssh := rest\<rparr>)) else (Some out, v_sleep d (s\<lparr>v_ssh := rest\<rparr>))))"

text \<open>\<open>tries\<close> connections are left of the three.\<close>

fun ssh_loop :: "nat \<Rightarrow> nat \<Rightarrow> string \<Rightarrow> nat \<Rightarrow> session \<Rightarrow> string option \<times> session" where
  "ssh_loop used 0 form w s =
     (None, v_act (Ssh form used None) (v_log (''  ssh '' @ ljust 40 (take 40 form) @ '' => NO ANSWER'') s))"
| "ssh_loop used (Suc tries) form w s =
     (let (r, s) = ssh_once w s; out = (case r of Some x \<Rightarrow> ssh_lines x | None \<Rightarrow> [])
      in if out \<noteq> []
         then (Some (last out),
               v_act (Ssh form (Suc used) (Some (last out)))
                 (v_log (''  ssh '' @ ljust 40 (take 40 form) @ '' => '' @ take 160 (last out)) s))
         else ssh_loop (Suc used) tries form w (v_sleep 5000 s))"

definition run_ssh :: "string \<Rightarrow> nat \<Rightarrow> session \<Rightarrow> string option \<times> session" where
  "run_ssh form w s = ssh_loop 0 3 form w s"

lemma v_time_simps [simp]:
  "v_time (v_sleep ms s) = v_time s + ms" "v_time (v_log x s) = v_time s" "v_time (v_act e s) = v_time s"
  "v_time (s\<lparr>v_ssh := r\<rparr>) = v_time s" "v_time (s\<lparr>v_acts := t\<rparr>) = v_time s"
  by (simp_all add: v_time_def v_sleep_def v_log_def v_act_def nap_def display_def)

lemma ssh_once_time: "v_time s \<le> v_time (snd (ssh_once w s)) \<and> v_time (snd (ssh_once w s)) \<le> v_time s + w"
  by (auto simp: ssh_once_def split: list.splits)

lemma ssh_loop_time:
  "v_time s \<le> v_time (snd (ssh_loop used n form w s)) \<and>
   v_time (snd (ssh_loop used n form w s)) \<le> v_time s + n * (w + 5000)"
proof (induction used n form w s rule: ssh_loop.induct)
  case (2 used tries form w s)
  obtain r s1 where r: "ssh_once w s = (r, s1)" by (cases "ssh_once w s")
  have "v_time s \<le> v_time s1" "v_time s1 \<le> v_time s + w" using ssh_once_time [of s w] r by simp_all
  moreover have IH: "v_time s1 + 5000 \<le> v_time (snd (ssh_loop (Suc used) tries form w (v_sleep 5000 s1))) \<and>
      v_time (snd (ssh_loop (Suc used) tries form w (v_sleep 5000 s1))) \<le> v_time s1 + 5000 + tries * (w + 5000)"
    if "(case r of Some x \<Rightarrow> ssh_lines x | None \<Rightarrow> []) = []"
    using 2 [OF r [symmetric] refl] that by simp
  ultimately show ?case using r by (cases "(case r of Some x \<Rightarrow> ssh_lines x | None \<Rightarrow> []) = []") (simp_all add: Let_def)
qed simp

lemma run_ssh_time: "v_time s \<le> v_time (snd (run_ssh form w s))" "v_time (snd (run_ssh form w s)) \<le> v_time s + 3 * (w + 5000)"
  using ssh_loop_time [of s 0 3 form w] by (simp_all add: run_ssh_def)

text \<open>\<open>while time.time() < deadline and run("(+ 2 3)", 30) != "5": time.sleep(5)\<close>\<close>

function wait_up :: "nat \<Rightarrow> session \<Rightarrow> session" where
  "wait_up deadline s =
     (if v_time s < deadline
      then let r = run_ssh ''(+ 2 3)'' 30000 s
           in if fst r \<noteq> Some ''5'' then wait_up deadline (v_sleep 5000 (snd r)) else snd r
      else s)"
  by pat_completeness auto
termination
proof (relation "measure (\<lambda>(deadline, s). deadline - v_time s)", goal_cases)
  case (2 deadline s r)
  then show ?case using run_ssh_time(1) [of s "''(+ 2 3)''" 30000] by simp
qed simp

declare wait_up.simps [simp del]

fun push_forms :: "string list \<Rightarrow> session \<Rightarrow> session" where
  "push_forms [] s = s"
| "push_forms (form # fs) s =
     push_forms fs (if starts_with ''(def'' form then snd (run_ssh form 120000 s) else s)"

definition paren :: "char \<Rightarrow> bool" where "paren c \<longleftrightarrow> c = CHR ''('' \<or> c = CHR '')''"

text \<open>\<open>not bufs or int(bufs.strip("()").split()[0]) < 0x1000000\<close>\<close>

definition suspicious :: "string option \<Rightarrow> bool res" where
  "suspicious bufs =
     (case bufs of
        None \<Rightarrow> Inr True
      | Some x \<Rightarrow>
          if x = [] then Inr True
          else case split_ws (rstrip_of paren (lstrip_of paren x)) of
                 [] \<Rightarrow> Inl IndexError
               | w # _ \<Rightarrow> res_bind (py_int 10 w) (\<lambda>n. Inr (n < 0x1000000)))"

definition setup_part :: "string \<Rightarrow> session \<Rightarrow> unit res \<times> session" where
  "setup_part forms s =
     (let s = wait_up (v_time s + 240000) s;
          s = snd (run_ssh hot_form 120000 s);
          s = push_forms (split_on nl forms) s;
          (bufs, s) = run_ssh ''(rh-init)'' 300000 s
      in case suspicious bufs of
           Inl e \<Rightarrow> (Inl e, s)
         | Inr b \<Rightarrow> if b then (Inl (SystemExit 1), s) else (Inr (), s))"

section \<open>The clips\<close>

text \<open>\<open>clip.rsplit(".", 1)[0]\<close>\<close>

definition stem :: "string \<Rightarrow> string" where
  "stem x = (if CHR ''.'' \<in> set x then rev (drop 1 (dropWhile (\<lambda>c. c \<noteq> CHR ''.'') (rev x))) else x)"

definition mkv :: "video_args \<Rightarrow> string \<Rightarrow> string" where
  "mkv a clip = ''/home/modus/'' @ a_out a @ ''-'' @ stem clip @ ''.mkv''"

definition record_args :: "string \<Rightarrow> string list" where
  "record_args out =
     [''ffmpeg'', ''-hide_banner'', ''-loglevel'', ''error'', ''-f'', ''v4l2'', ''-input_format'', ''mjpeg'',
      ''-video_size'', ''1280x720'', ''-framerate'', ''30'', ''-i'', ''/dev/video0'', ''-t'', ''120'', ''-c:v'', ''copy'', ''-y'', out]"

definition load_form :: "video_args \<Rightarrow> string \<Rightarrow> string" where
  "load_form a clip = ''(rh-load \"'' @ a_http a @ ''/'' @ clip @ ''\")''"

definition play_form :: "video_args \<Rightarrow> string" where
  "play_form a = ''(let ((r nil)) (dotimes (i '' @ dec_int (a_loops a) @ '') (setq r (rh-play t))) r)''"

fun total_ms :: "string \<Rightarrow> string option" where
  "total_ms [] = None"
| "total_ms (c # cs) =
     (if starts_with ''TOTAL-MS '' (c # cs) \<and> takeWhile is_digit (drop 9 (c # cs)) \<noteq> []
      then Some (takeWhile is_digit (drop 9 (c # cs))) else total_ms cs)"

text \<open>\<open>max(0.0, (t1 - t0 - 2) - play - 1.0)\<close>\<close>

definition trim_start :: "nat \<Rightarrow> nat \<Rightarrow> int \<Rightarrow> int" where
  "trim_start t0 t1 play = max 0 ((int t1 - int t0 - 2000) - play - 1000)"

definition one_clip :: "video_args \<Rightarrow> string \<Rightarrow> session \<Rightarrow> session" where
  "one_clip a clip s =
     (let s = v_log (''=== clip '' @ clip) s; (r, s) = run_ssh (load_form a clip) 300000 s
      in if r = None then s
         else let out = mkv a clip;
                  s = v_sleep 2000 (v_act (Record (record_args out)) s);
                  t0 = v_time s;
                  (res, s) = run_ssh (play_form a) 600000 s;
                  t1 = v_time s;
                  s = v_log (''  recorded '' @ out) (v_act Stop (v_sleep 1000 s))
              in case total_ms (case res of Some x \<Rightarrow> x | None \<Rightarrow> []) of
                   None \<Rightarrow> s
                 | Some ds \<Rightarrow>
                     v_act (Trim (trim_start t0 t1 (int (dec_val ds) * a_loops a)) out (take (length out - 4) out @ ''.mp4'')) s)"

definition board_video :: "video_args \<Rightarrow> nat \<Rightarrow> string \<Rightarrow> string \<Rightarrow> session \<Rightarrow> unit res \<times> session" where
  "board_video a ms out forms s =
     (case boot_part a ms out s of
        (Inl e, s) \<Rightarrow> (Inl e, s)
      | (Inr _, s) \<Rightarrow>
          (case setup_part forms s of
             (Inl e, s) \<Rightarrow> (Inl e, s)
           | (Inr _, s) \<Rightarrow> (Inr (), v_log ''=== BOARD-VIDEO DONE'' (fold (one_clip a) (a_clips a) s))))"


section \<open>The course of a session\<close>

text \<open>
  \<open>Ready done v\<close>: the clips \<open>done\<close> were handled, and \<open>v\<close> is the one whose recording may still be trimmed.
  A recording starts only after its clip was loaded, and only one runs at a time.
\<close>

datatype stage =
    Down
  | Setup
  | Ready "string list" "string option"
  | Loaded "string list" string
  | Recording "string list" string
  | Played "string list" string

inductive vstep :: "video_args \<Rightarrow> stage \<Rightarrow> action \<Rightarrow> stage \<Rightarrow> bool" for a where
  boot: "vstep a Down (Netboot (netboot_args a)) Setup"
| command: "k \<le> 3 \<Longrightarrow> vstep a Setup (Ssh f k r) Setup"
| buffers: "k \<le> 3 \<Longrightarrow> suspicious (Some x) = Inr False \<Longrightarrow> vstep a Setup (Ssh ''(rh-init)'' k (Some x)) (Ready [] None)"
| no_load: "k \<le> 3 \<Longrightarrow> vstep a (Ready done v) (Ssh (load_form a c) k None) (Ready (done @ [c]) None)"
| load: "k \<le> 3 \<Longrightarrow> vstep a (Ready done v) (Ssh (load_form a c) k (Some r)) (Loaded done c)"
| recording: "vstep a (Loaded done c) (Record (record_args (mkv a c))) (Recording done c)"
| play: "k \<le> 3 \<Longrightarrow> vstep a (Recording done c) (Ssh (play_form a) k r) (Played done c)"
| stop: "vstep a (Played done c) Stop (Ready (done @ [c]) (Some c))"
| trim: "0 \<le> t \<Longrightarrow> vstep a (Ready done (Some c))
    (Trim t (mkv a c) (''/home/modus/'' @ a_out a @ ''-'' @ stem c @ ''.mp4'')) (Ready done None)"

inductive_cases vstep_record: "vstep a st (Record xs) st'"
inductive_cases vstep_from_recording: "vstep a (Recording done c) x st"

definition v_out :: "session \<Rightarrow> bytes" where
  "v_out s = outbound (v_board s)"

text \<open>From one state of the session to another, without a byte on the serial line.\<close>

definition did :: "video_args \<Rightarrow> stage \<Rightarrow> session \<Rightarrow> session \<Rightarrow> stage \<Rightarrow> bool" where
  "did a x s s' y \<longleftrightarrow> v_out s' = v_out s \<and> (\<exists>tr. v_acts s' = v_acts s @ tr \<and> trace (vstep a) x tr y)"

lemma did_trans: "did a x s t y \<Longrightarrow> did a y t u z \<Longrightarrow> did a x s u z"
  unfolding did_def
proof (elim exE conjE)
  fix tr tr'
  assume "v_acts t = v_acts s @ tr" "trace (vstep a) x tr y" "v_acts u = v_acts t @ tr'" "trace (vstep a) y tr' z"
    "v_out t = v_out s" "v_out u = v_out t"
  then show "v_out u = v_out s \<and> (\<exists>tr. v_acts u = v_acts s @ tr \<and> trace (vstep a) x tr z)"
    using trace_append [of "vstep a" y tr' z x tr] by (intro conjI exI [of _ "tr @ tr'"]) simp_all
qed

lemma did_same: "v_acts s' = v_acts s \<and> v_out s' = v_out s \<Longrightarrow> did a x s s' x"
  unfolding did_def by (intro conjI exI [of _ "[]"]) simp_all

lemma did_act: "vstep a x e y \<Longrightarrow> v_acts s' = v_acts s @ [e] \<and> v_out s' = v_out s \<Longrightarrow> did a x s s' y"
  unfolding did_def using trace_one [of "vstep a" x e y] by (intro conjI exI [of _ "[e]"]) simp_all

lemma v_acts_simps [simp]:
  "v_acts (v_sleep ms s) = v_acts s" "v_acts (v_log t s) = v_acts s" "v_acts (v_act e s) = v_acts s @ [e]"
  "v_out (v_sleep ms s) = v_out s" "v_out (v_log t s) = v_out s" "v_out (v_act e s) = v_out s"
  "v_out (s\<lparr>v_ssh := r\<rparr>) = v_out s"
  by (simp_all add: v_sleep_def v_log_def v_act_def v_out_def nap_def display_def)

lemma fold_log_board [simp]:
  "outbound (v_board (fold v_log xs s)) = outbound (v_board s)" "tags (v_board (fold v_log xs s)) = tags (v_board s)"
  "inbound (v_board (fold v_log xs s)) = inbound (v_board s)"
  by (induction xs arbitrary: s) (simp_all add: v_log_def display_def)

lemma fold_log_acts [simp]: "v_acts (fold v_log xs s) = v_acts s" "v_out (fold v_log xs s) = v_out s"
  by (induction xs arbitrary: s) simp_all

lemma ssh_once_acts [simp]: "v_acts (snd (ssh_once w s)) = v_acts s" "v_out (snd (ssh_once w s)) = v_out s"
  by (auto simp: ssh_once_def split: list.splits)

lemma ssh_loop_acts:
  "ssh_loop used n form w s = (r, s') \<Longrightarrow> \<exists>k. k \<le> used + n \<and> v_acts s' = v_acts s @ [Ssh form k r] \<and> v_out s' = v_out s"
proof (induction used n form w s rule: ssh_loop.induct)
  case (2 used tries form w s)
  obtain r1 s1 where r: "ssh_once w s = (r1, s1)" by (cases "ssh_once w s")
  have s1: "v_acts s1 = v_acts s" "v_out s1 = v_out s" using ssh_once_acts [of w s] r by simp_all
  show ?case
  proof (cases "(case r1 of Some x \<Rightarrow> ssh_lines x | None \<Rightarrow> []) = []")
    case True
    then have "ssh_loop (Suc used) tries form w (v_sleep 5000 s1) = (r, s')" using 2(2) r by simp
    then show ?thesis using 2(1) [OF r [symmetric] refl _ _] True s1 by auto
  next
    case False
    then show ?thesis using 2(2) r s1 by (intro exI [of _ "Suc used"]) (auto simp: Let_def)
  qed
qed auto

lemma run_ssh_acts: "run_ssh form w s = (r, s') \<Longrightarrow> \<exists>k \<le> 3. v_acts s' = v_acts s @ [Ssh form k r] \<and> v_out s' = v_out s"
  using ssh_loop_acts [of 0 3 form w s r s'] by (simp add: run_ssh_def)

lemma run_ssh_setup: "did a Setup s (snd (run_ssh form w s)) Setup"
proof -
  obtain r s' where r: "run_ssh form w s = (r, s')" by (cases "run_ssh form w s")
  then show ?thesis using run_ssh_acts [OF r] did_act [OF vstep.command] by auto
qed

lemma wait_up_setup: "did a Setup s (wait_up deadline s) Setup"
proof (induction deadline s rule: wait_up.induct)
  case (1 deadline s)
  let ?r = "run_ssh ''(+ 2 3)'' 30000 s"
  have r: "did a Setup s (snd ?r) Setup" by (rule run_ssh_setup)
  show ?case
  proof (cases "v_time s < deadline \<and> fst ?r \<noteq> Some ''5''")
    case True
    have s: "did a Setup s (v_sleep 5000 (snd ?r)) Setup" using did_trans [OF r did_same] by simp
    have "did a Setup (v_sleep 5000 (snd ?r)) (wait_up deadline (v_sleep 5000 (snd ?r))) Setup"
      using True by (intro 1 [OF _ refl]) simp_all
    then have "did a Setup s (wait_up deadline (v_sleep 5000 (snd ?r))) Setup" by (rule did_trans [OF s])
    then show ?thesis using True by (simp add: wait_up.simps [of deadline s])
  next
    case False
    then show ?thesis using r did_same [of s s] by (auto simp: wait_up.simps [of deadline s] Let_def)
  qed
qed

lemma push_forms_setup: "did a Setup s (push_forms fs s) Setup"
proof (induction fs arbitrary: s)
  case (Cons f fs)
  show ?case using Cons [of s] did_trans [OF run_ssh_setup Cons] by simp
qed (simp add: did_same)

lemma setup_part_did:
  assumes "setup_part forms s = (r, s')"
  shows "did a Setup s s' (case r of Inr _ \<Rightarrow> Ready [] None | Inl _ \<Rightarrow> Setup)"
proof -
  define s1 where "s1 = push_forms (split_on nl forms) (snd (run_ssh hot_form 120000 (wait_up (v_time s + 240000) s)))"
  have d: "did a Setup s s1 Setup"
    unfolding s1_def using did_trans [OF did_trans [OF wait_up_setup run_ssh_setup] push_forms_setup] .
  obtain bufs s2 where b: "run_ssh ''(rh-init)'' 300000 s1 = (bufs, s2)" by (cases "run_ssh ''(rh-init)'' 300000 s1")
  have p: "(r, s') = (case suspicious bufs of Inl e \<Rightarrow> (Inl e, s2) | Inr b \<Rightarrow> if b then (Inl (SystemExit 1), s2) else (Inr (), s2))"
    using assms b by (simp add: setup_part_def s1_def Let_def)
  show ?thesis
  proof (cases "suspicious bufs = Inr False")
    case True
    then obtain x where x: "bufs = Some x" by (cases bufs) (simp_all add: suspicious_def)
    obtain k where "k \<le> 3" "v_acts s2 = v_acts s1 @ [Ssh ''(rh-init)'' k (Some x)] \<and> v_out s2 = v_out s1" using run_ssh_acts [OF b] x by blast
    then have "did a Setup s1 s2 (Ready [] None)" using did_act [OF vstep.buffers] True x by blast
    then show ?thesis using p True did_trans [OF d] by simp
  next
    case False
    then obtain e where "r = Inl e" "s' = s2" using p by (cases "suspicious bufs") (auto split: if_splits)
    then show ?thesis using did_trans [OF d run_ssh_setup [of a s1 "''(rh-init)''" 300000]] b by simp
  qed
qed

lemma one_clip_did: "\<exists>v'. did a (Ready done v) s (one_clip a c s) (Ready (done @ [c]) v')"
proof -
  obtain r s1 where l: "run_ssh (load_form a c) 300000 (v_log (''=== clip '' @ c) s) = (r, s1)"
    by (metis prod.collapse)
  obtain k where k: "k \<le> 3" "v_acts s1 = v_acts s @ [Ssh (load_form a c) k r] \<and> v_out s1 = v_out s" using run_ssh_acts [OF l] by auto
  show ?thesis
  proof (cases r)
    case None
    then have "did a (Ready done v) s s1 (Ready (done @ [c]) None)" using k did_act [OF vstep.no_load] by blast
    then show ?thesis using l None by (auto simp: one_clip_def)
  next
    case (Some x)
    define s2 where "s2 = v_sleep 2000 (v_act (Record (record_args (mkv a c))) s1)"
    obtain res s3 where p: "run_ssh (play_form a) 600000 s2 = (res, s3)" by (cases "run_ssh (play_form a) 600000 s2")
    define s4 where "s4 = v_log (''  recorded '' @ mkv a c) (v_act Stop (v_sleep 1000 s3))"
    obtain j where j: "j \<le> 3" "v_acts s3 = v_acts s2 @ [Ssh (play_form a) j res] \<and> v_out s3 = v_out s2" using run_ssh_acts [OF p] by auto
    have d1: "did a (Ready done v) s s1 (Loaded done c)" using k Some did_act [OF vstep.load] by blast
    have d2: "did a (Loaded done c) s1 s2 (Recording done c)" by (rule did_act [OF vstep.recording]) (simp add: s2_def)
    have d3: "did a (Recording done c) s2 s3 (Played done c)" using j did_act [OF vstep.play] by blast
    have d4: "did a (Played done c) s3 s4 (Ready (done @ [c]) (Some c))" by (rule did_act [OF vstep.stop]) (simp add: s4_def)
    have d: "did a (Ready done v) s s4 (Ready (done @ [c]) (Some c))"
      using did_trans [OF did_trans [OF did_trans [OF d1 d2] d3] d4] .
    have m: "take (length (mkv a c) - 4) (mkv a c) @ ''.mp4'' = ''/home/modus/'' @ a_out a @ ''-'' @ stem c @ ''.mp4''"
      by (simp add: mkv_def)
    have o: "one_clip a c s = (case total_ms (case res of Some x \<Rightarrow> x | None \<Rightarrow> []) of None \<Rightarrow> s4
        | Some ds \<Rightarrow> v_act (Trim (trim_start (v_time s2) (v_time s3) (int (dec_val ds) * a_loops a)) (mkv a c)
            (take (length (mkv a c) - 4) (mkv a c) @ ''.mp4'')) s4)"
      using l Some p unfolding one_clip_def s4_def Let_def s2_def by simp
    show ?thesis
    proof (cases "total_ms (case res of Some x \<Rightarrow> x | None \<Rightarrow> [])")
      case None
      then show ?thesis using d o by auto
    next
      case (Some ds)
      define t where "t = trim_start (v_time s2) (v_time s3) (int (dec_val ds) * a_loops a)"
      have "vstep a (Ready (done @ [c]) (Some c))
          (Trim t (mkv a c) (''/home/modus/'' @ a_out a @ ''-'' @ stem c @ ''.mp4'')) (Ready (done @ [c]) None)"
        by (rule vstep.trim) (simp add: t_def trim_start_def)
      then have "did a (Ready (done @ [c]) (Some c)) s4 (one_clip a c s) (Ready (done @ [c]) None)"
        by (rule did_act) (unfold o m, simp add: Some t_def)
      then show ?thesis using did_trans [OF d] by blast
    qed
  qed
qed

lemma clips_did: "\<exists>v'. did a (Ready done v) s (fold (one_clip a) cs s) (Ready (done @ cs) v')"
proof (induction cs arbitrary: "done" v s)
  case Nil
  then show ?case using did_same [of s s] by auto
next
  case (Cons c cs)
  obtain v1 where 1: "did a (Ready done v) s (one_clip a c s) (Ready (done @ [c]) v1)" using one_clip_did by blast
  obtain v2 where "did a (Ready (done @ [c]) v1) (one_clip a c s) (fold (one_clip a) cs (one_clip a c s)) (Ready ((done @ [c]) @ cs) v2)"
    using Cons by blast
  then show ?case using did_trans [OF 1] by auto
qed


section \<open>The serial part\<close>

lemma sq_effect:
  assumes "sq form w s = (v, s')"
  shows "outbound s' = outbound s @ encode (tagged (tag_of (tags s)) form)" "tags s' = tl (tags s)"
    and "\<exists>a. inbound s = a @ inbound s'"
    and "case v of Some x \<Rightarrow> heard (tag_of (tags s)) x (inbound s) | None \<Rightarrow> True"
proof -
  obtain r s1 where q: "q form w s = (r, s1)" by (cases "q form w s")
  show "outbound s' = outbound s @ encode (tagged (tag_of (tags s)) form)" "tags s' = tl (tags s)"
    "\<exists>a. inbound s = a @ inbound s'" "case v of Some x \<Rightarrow> heard (tag_of (tags s)) x (inbound s) | None \<Rightarrow> True"
    using assms q q_effects [OF q] q_heard [OF q] by (auto simp: sq_def split: prod.splits)
qed

definition sq_attempt :: "board \<Rightarrow> bool \<times> board" where
  "sq_attempt s = (let (v, s) = sq probe 3000 s in (v = Some ''42'', if v = Some ''42'' then s else nap 2000 s))"

interpretation sq_probe: prober sq_attempt sq_ready "[]"
proof
  fix n s
  show "sq_ready 0 s = (False, s)" by simp
  show "sq_ready (Suc n) s = (if fst (sq_attempt s) then (True, snd (sq_attempt s)) else sq_ready n (snd (sq_attempt s)))"
    by (simp add: sq_attempt_def case_prod_beta)
next
  fix s
  obtain v s1 where r: "sq probe 3000 s = (v, s1)" by (cases "sq probe 3000 s")
  have a: "sq_attempt s = (v = Some ''42'', if v = Some ''42'' then s1 else nap 2000 s1)" using r by (simp add: sq_attempt_def)
  show "outbound (snd (sq_attempt s)) = outbound s @ encode ([] @ tagged (tag_of (tags s)) probe)"
    "tags (snd (sq_attempt s)) = tl (tags s)" "\<exists>a. inbound s = a @ inbound (snd (sq_attempt s))"
    "fst (sq_attempt s) \<Longrightarrow> heard_42 (tag_of (tags s)) (inbound s)"
    using sq_effect [OF r] a by (simp_all add: nap_def)
qed

text \<open>The bytes of the serial part: the probes, then the two forms under their tags, then \<open>(ssh-boot)\<close>.\<close>

definition relink_text :: "nat \<Rightarrow> nat list \<Rightarrow> string" where
  "relink_text k ts = handshakes [] k ts @ tagged (tag_of (drop k ts)) hot_form @
     tagged (tag_of (drop (Suc k) ts)) relink_form @ ssh_boot_line"

lemma serial_part_wire:
  "case serial_part s of (r, s') \<Rightarrow>
     \<exists>k \<le> 8. case r of
       Inr u \<Rightarrow> 0 < k \<and> heard_42 (tag_of (drop (k - 1) (tags s))) (inbound s) \<and> outbound s' = outbound s @ encode (relink_text k (tags s))
     | Inl e \<Rightarrow> e = SystemExit 1 \<and> outbound s' = outbound s @ encode (handshakes [] 8 (tags s))"
proof -
  obtain ok s1 where r: "sq_ready 8 s = (ok, s1)" by (cases "sq_ready 8 s")
  obtain k where k: "k \<le> 8" "outbound s1 = outbound s @ encode (handshakes [] k (tags s))" "tags s1 = drop k (tags s)"
    "if ok then 0 < k \<and> heard_42 (tag_of (drop (k - 1) (tags s))) (inbound s) else k = 8"
    using sq_probe.loop_spec [OF r] by blast
  obtain v2 s2 where h: "sq hot_form 60000 s1 = (v2, s2)" by (cases "sq hot_form 60000 s1")
  obtain v3 s3 where l: "sq relink_form 900000 s2 = (v3, s3)" by (cases "sq relink_form 900000 s2")
  show ?thesis using r k sq_effect(1,2) [OF h] sq_effect(1) [OF l] h l
    by (auto simp: serial_part_def relink_text_def emit_def drop_Suc tl_drop intro!: exI [of _ k])
qed

lemma boot_part_course:
  assumes "boot_part a ms out s = (r1, s1)"
  shows "\<exists>tr. v_acts s1 = v_acts s @ tr \<and> trace (vstep a) (if a_no_boot a then Setup else Down) tr Setup \<and>
      (case r1 of
         Inr u \<Rightarrow> if a_no_boot a then v_out s1 = v_out s
           else \<exists>k \<le> 8. 0 < k \<and> heard_42 (tag_of (drop (k - 1) (tags (v_board s)))) (inbound (v_board s)) \<and>
                  v_out s1 = v_out s @ encode (relink_text k (tags (v_board s)))
       | Inl e \<Rightarrow> True)"
proof (cases "a_no_boot a")
  case True
  then show ?thesis using assms by (auto simp: boot_part_def)
next
  case False
  define s2 where "s2 = v_sleep ms (v_act (Netboot (netboot_args a)) (v_log (''=== netboot '' @ a_img a @ '' '' @ a_core a) s))"
  define s3 where "s3 = v_sleep 15000 (fold v_log (netboot_lines out) s2)"
  have tr: "trace (vstep a) Down [Netboot (netboot_args a)] Setup" by (rule trace_one) (rule vstep.boot)
  have acts: "v_acts s2 = v_acts s @ [Netboot (netboot_args a)]" "v_acts s3 = v_acts s2" by (simp_all add: s2_def s3_def)
  have line: "outbound (v_board s3) = v_out s" "tags (v_board s3) = tags (v_board s)" "inbound (v_board s3) = inbound (v_board s)"
    unfolding s3_def s2_def v_out_def by (simp_all add: v_sleep_def v_act_def v_log_def nap_def display_def fold_log_board)
  obtain r b where p: "serial_part (v_board s3) = (r, b)" by (cases "serial_part (v_board s3)")
  have m: "(r1, s1) = (if \<not> contains ''CORE-RESTORED'' out then (Inl (SystemExit 1), v_log (last_n 800 out) s2) else (r, s3\<lparr>v_board := b\<rparr>))"
    using assms False p unfolding boot_part_def Let_def s2_def [symmetric] s3_def [symmetric] by (simp split: if_splits)
  show ?thesis
  proof (cases "contains ''CORE-RESTORED'' out")
    case False
    then show ?thesis using m acts tr \<open>\<not> a_no_boot a\<close> by auto
  next
    case True
    have w: "\<exists>k \<le> 8. case r of
         Inr u \<Rightarrow> 0 < k \<and> heard_42 (tag_of (drop (k - 1) (tags (v_board s)))) (inbound (v_board s)) \<and> outbound b = v_out s @ encode (relink_text k (tags (v_board s)))
       | Inl e \<Rightarrow> e = SystemExit 1 \<and> outbound b = v_out s @ encode (handshakes [] 8 (tags (v_board s)))"
      using serial_part_wire [of "v_board s3"] unfolding p line by simp
    have "r1 = r" "v_acts s1 = v_acts s @ [Netboot (netboot_args a)]" "v_out s1 = outbound b"
      using m True acts by (simp_all add: v_out_def)
    then show ?thesis using w tr \<open>\<not> a_no_boot a\<close> by (intro exI [of _ "[Netboot (netboot_args a)]"]) (auto split: sum.splits)
  qed
qed

section \<open>Property\<close>

text \<open>
  C12: The course of a session.  Whatever the board, the ssh commands and the camera do, what the script does
  is a run of the session's state machine: every call of \<open>run\<close> connects at most three times, clips are
  handled only after \<open>(rh-init)\<close> was answered with an address that is not suspicious, a recording starts only after its
  clip was loaded and is stopped before anything else happens, and only a finished recording is trimmed.  A
  session that ends normally has handled every clip in order, and, unless the board was live, has heard the
  serial REPL, re-linked and only then started ssh; one that fails does so before the first clip.
\<close>

theorem board_video_course:
  "case board_video a ms out forms s of (r, s') \<Rightarrow>
     \<exists>tr st. v_acts s' = v_acts s @ tr \<and> trace (vstep a) (if a_no_boot a then Setup else Down) tr st \<and>
       (case r of
          Inr u \<Rightarrow> (\<exists>v. st = Ready (a_clips a) v) \<and>
            (if a_no_boot a then v_out s' = v_out s
             else \<exists>k \<le> 8. 0 < k \<and> heard_42 (tag_of (drop (k - 1) (tags (v_board s)))) (inbound (v_board s)) \<and>
                    v_out s' = v_out s @ encode (relink_text k (tags (v_board s))))
        | Inl e \<Rightarrow> st = Setup)"
proof -
  obtain r1 s1 where b: "boot_part a ms out s = (r1, s1)" by (cases "boot_part a ms out s")
  have boot: "\<exists>tr. v_acts s1 = v_acts s @ tr \<and> trace (vstep a) (if a_no_boot a then Setup else Down) tr Setup \<and>
      (case r1 of
         Inr u \<Rightarrow> if a_no_boot a then v_out s1 = v_out s
           else \<exists>k \<le> 8. 0 < k \<and> heard_42 (tag_of (drop (k - 1) (tags (v_board s)))) (inbound (v_board s)) \<and>
                  v_out s1 = v_out s @ encode (relink_text k (tags (v_board s)))
       | Inl e \<Rightarrow> True)"
    by (rule boot_part_course [OF b])
  show ?thesis
  proof (cases r1)
    case (Inl e)
    then show ?thesis using boot b by (auto simp: board_video_def)
  next
    case (Inr u)
    obtain r2 s2 where p: "setup_part forms s1 = (r2, s2)" by (cases "setup_part forms s1")
    note d = setup_part_did [OF p, of a]
    show ?thesis
    proof (cases r2)
      case (Inl e)
      then have "board_video a ms out forms s = (Inl e, s2)" using b p \<open>r1 = Inr u\<close> by (simp add: board_video_def)
      moreover have "did a Setup s1 s2 Setup" using d Inl by simp
      moreover obtain tr where tr: "v_acts s1 = v_acts s @ tr" "trace (vstep a) (if a_no_boot a then Setup else Down) tr Setup"
        using boot by blast
      ultimately show ?thesis using trace_append [OF _ tr(2)] tr(1) unfolding did_def by fastforce
    next
      case (Inr w)
      define s3 where "s3 = v_log ''=== BOARD-VIDEO DONE'' (fold (one_clip a) (a_clips a) s2)"
      have m: "board_video a ms out forms s = (Inr (), s3)" using b p \<open>r1 = Inr u\<close> Inr by (simp add: board_video_def s3_def)
      obtain v where v: "did a (Ready [] None) s2 (fold (one_clip a) (a_clips a) s2) (Ready (a_clips a) v)"
        using clips_did [of a "[]" None s2 "a_clips a"] by auto
      have "did a (Ready [] None) s2 s3 (Ready (a_clips a) v)"
        unfolding s3_def by (rule did_trans [OF v did_same]) simp
      then have "did a Setup s1 s3 (Ready (a_clips a) v)" using d Inr did_trans by auto
      then obtain tr' where tr': "v_out s3 = v_out s1" "v_acts s3 = v_acts s1 @ tr'" "trace (vstep a) Setup tr' (Ready (a_clips a) v)"
        unfolding did_def by blast
      obtain tr where tr: "v_acts s1 = v_acts s @ tr" "trace (vstep a) (if a_no_boot a then Setup else Down) tr Setup"
        using boot by blast
      have "trace (vstep a) (if a_no_boot a then Setup else Down) (tr @ tr') (Ready (a_clips a) v)"
        by (rule trace_append [OF tr'(3) tr(2)])
      then show ?thesis using boot \<open>r1 = Inr u\<close> tr(1) tr'(1,2) unfolding m
        by (intro case_prodI2 exI [of _ "tr @ tr'"] exI [of _ "Ready (a_clips a) v"]) (auto split: if_splits)
    qed
  qed
qed


text \<open>
  The recorder starts two seconds before \<open>t0\<close>, so the last \<open>play + 1000\<close> milliseconds of the recording up to
  \<open>t1\<close> begin at \<open>(t1 - (t0 - 2000)) - play - 1000\<close>; the code subtracts the two seconds instead of adding them.
\<close>

lemma trim_start_early:
  assumes "0 < trim_start t0 t1 play"
  shows "trim_start t0 t1 play = ((int t1 - (int t0 - 2000)) - play - 1000) - 4000"
  using assms by (simp add: trim_start_def)

text \<open>An answer of \<open>(rh-init)\<close> without a number raises instead of being called suspicious.\<close>

lemma suspicious_raises: "suspicious (Some ''()'') = Inl IndexError" "suspicious (Some ''NIL'') = Inl ValueError"
  by code_simp+

end
