(* ===== verification/DriverForms.thy ===== *)
theory DriverForms
  imports BoardRepl LispLevel
begin

text \<open>
  What the board reads from a serial driver: one form for every step that sends something.  \<open>step_ok\<close>
  checks a step, \<open>script_forms\<close> is the list of forms of a script, and \<open>script_read\<close> says that a script of
  checked steps is read as exactly that list.
\<close>

fun step_ok :: "step \<Rightarrow> bool" where
  "step_ok (Ev form w) = keeps_level form"
| "step_ok (Raw x settle) = (case x of c # g \<Rightarrow> c = lpar \<and> closes Code 1 g | [] \<Rightarrow> False)"
| "step_ok _ = True"

fun script_forms :: "step list \<Rightarrow> nat list \<Rightarrow> string list" where
  "script_forms [] ts = []"
| "script_forms (Ev form w # xs) ts = (''(list '' @ dec (tag_of ts) @ '' '' @ form @ '')'') # script_forms xs (tl ts)"
| "script_forms (Raw x settle # xs) ts = x # script_forms xs ts"
| "script_forms (_ # xs) ts = script_forms xs ts"

lemma level_dec: "level (dec n)"
  by (rule level_plain [OF dec_plain])

lemma tagged_balanced: "level form \<Longrightarrow> balanced (''(list '' @ dec t @ '' '' @ form @ '')'')"
proof -
  assume "level form"
  moreover have "level ''list ''" "level '' ''" by (rule level_plain, simp add: plain_def)+
  ultimately have "level (''list '' @ dec t @ '' '' @ form)" using level_dec by (intro level_append)
  from level_form [OF this] show ?thesis by simp
qed

lemma raw_balanced: "step_ok (Raw x w) \<Longrightarrow> balanced x"
  by (auto simp: balanced_def split: list.splits)

lemma script_text_lines: "script_text xs ts = concat (map (\<lambda>f. f @ [CHR 0x0D, nl]) (script_forms xs ts))"
  by (induction xs ts rule: script_forms.induct) (simp_all add: tagged_def)

lemma script_read: "list_all step_ok xs \<Longrightarrow> read_forms (script_text xs ts) = script_forms xs ts"
proof -
  assume "list_all step_ok xs"
  then have "list_all balanced (script_forms xs ts)"
    using raw_balanced tagged_balanced keeps_level
    by (induction xs ts rule: script_forms.induct) (auto simp del: append.simps)
  then show ?thesis unfolding script_text_lines by (rule read_forms_lines)
qed

end
