(* ===== verification/DisplayDrivers.thy ===== *)
theory DisplayDrivers
  imports DriverForms
begin

text \<open>
  The drivers that examine the display path of the board (\<open>serial-cmp.py\<close>, \<open>-copy\<close>, \<open>-cvac\<close>, \<open>-diff\<close>,
  \<open>-dlist\<close>, \<open>-fast\<close>, \<open>-grad\<close>, \<open>-lit\<close>, \<open>-lit-core\<close>, \<open>-lit2\<close>, \<open>-probe2\<close>, \<open>-pt\<close>, \<open>-static\<close>, \<open>-white\<close> and
  \<open>-win\<close>) as lists of steps; the forms that several of them send are named.  A camera command takes \<open>d\<close>
  milliseconds, and \<open>e\<close> is how long \<open>serial-fast.py\<close> waits for the recording at the end.
\<close>

unbundle bit_operations_syntax

section \<open>The words of a plane\<close>

text \<open>
  What the form \<open>words\<close> computes, which \<open>rh-yuv-plane\<close> and \<open>rh-yuv-words\<close> have inline, on Lisp's integers:
  the display list of a scaled plane.  \<open>expected_text\<close> is the list that \<open>serial-lit.py\<close> prints beside it.
\<close>

definition ppf :: "int \<Rightarrow> int \<Rightarrow> int" where
  "ppf s d = push_bit 30 1 OR push_bit 8 ((65536 * s) div d)"

definition hvs_words ::
  "int \<Rightarrow> int \<Rightarrow> int \<Rightarrow> int \<Rightarrow> int \<Rightarrow> int \<Rightarrow> int \<Rightarrow> int \<Rightarrow> int \<Rightarrow> int \<Rightarrow> int \<Rightarrow> int \<Rightarrow> int list" where
  "hvs_words dx dy dw dh sw sh p0 p1 p2 ys cs ks =
     [push_bit 30 1 OR push_bit 24 28 OR 8,
      0xFF000000 OR push_bit 12 dy OR dx,
      push_bit 16 dh OR dw,
      push_bit 30 1 OR push_bit 16 sh OR sw,
      0xC0C0C0C0,
      0xC0000000 OR p0, 0xC0000000 OR p1, 0xC0000000 OR p2,
      0xC0C0C0C0, 0xC0C0C0C0, 0xC0C0C0C0,
      ys, cs, cs,
      0x00F00000, 0xE73304A8, 0x00066604, 0,
      ppf (drop_bit 1 sw) dw, ppf (drop_bit 1 sh) dh, 0xC0C0C0C0,
      ppf sw dw, ppf sh dh, 0xC0C0C0C0,
      ks, ks, ks, ks, 0x80000000]"

definition expected_text :: string where
  "expected_text = ''1543503880 4278435840 70780800 1085538624 3233857728 3561250848 3561339920 3561364496 3233857728 3233857728 3233857728 384 192 192 15728640 3878880424 419332 0 1075139840 1075139840 3233857728 1076537856 1076537856 3233857728 2100 2100 2100 2100 2147483648''"

definition expected :: step where
  "expected = Say (''EXP ('' @ expected_text @ '')'')"

section \<open>The scripts\<close>

definition show_words :: step where
  "show_words =
     Ev ''(rh-yuv-words *pic* (first *rh-bufs*) 0 60 1920 1080)'' 120000"

definition relink_all :: step where
  "relink_all =
     Ev ''(jit-eager)'' 2400000"

definition check_defs :: step where
  "check_defs =
     Ev ''(list (fboundp (quote rh-yuv-plane)) (fboundp (quote rh-yuv-words)))'' 10000"

definition show_pic :: step where
  "show_pic =
     Ev ''(rh-yuv-plane *pic* (first *rh-bufs*) 0 60 1920 1080)'' 120000"

definition def_yuv_plane :: step where
  "def_yuv_plane =
     Raw ''(defun rh-yuv-plane (pic buf dx dy dw dh) (let* ((sw (reel.decode::picture-width pic)) (sh (reel.decode::picture-height pic)) (ys (reel.decode::picture-y-stride pic)) (cs (reel.decode::picture-uv-stride pic)) (ptrs (rh-copy-planes pic buf)) (ks *hvs-kernel-slot*) (ppf (lambda (s d) (logior (ash 1 30) (ash (floor (* 65536 s) d) 8)))) (words (list (logior (ash 1 30) (ash 28 24) 8) (logior #xFF000000 (ash dy 12) dx) (logior (ash dh 16) dw) (logior (ash 1 30) (ash sh 16) sw) #xC0C0C0C0 (logior #xC0000000 (first ptrs)) (logior #xC0000000 (second ptrs)) (logior #xC0000000 (third ptrs)) #xC0C0C0C0 #xC0C0C0C0 #xC0C0C0C0 ys cs cs #x00f00000 #xe73304a8 #x00066604 0 (funcall ppf (ash sw -1) dw) (funcall ppf (ash sh -1) dh) #xC0C0C0C0 (funcall ppf sw dw) (funcall ppf sh dh) #xC0C0C0C0 ks ks ks ks #x80000000)) (i 0)) (hvs-window-nc t) (hvs-upload-kernel) (dolist (w words) (hvs-slot-wr32 (+ *rh-plane* i) w) (setq i (+ i 1))) (setf (mem-ref (+ (hvs-base) #x24) :u32) *rh-plane*) (hvs-window-nc nil) (list sw sh ys cs 0)))'' 4000"

definition def_yuv_words :: step where
  "def_yuv_words =
     Raw ''(defun rh-yuv-words (pic buf dx dy dw dh) (let* ((sw (reel.decode::picture-width pic)) (sh (reel.decode::picture-height pic)) (ys (reel.decode::picture-y-stride pic)) (cs (reel.decode::picture-uv-stride pic)) (ptrs (rh-copy-planes pic buf)) (ks *hvs-kernel-slot*) (ppf (lambda (s d) (logior (ash 1 30) (ash (floor (* 65536 s) d) 8)))) (words (list (logior (ash 1 30) (ash 28 24) 8) (logior #xFF000000 (ash dy 12) dx) (logior (ash dh 16) dw) (logior (ash 1 30) (ash sh 16) sw) #xC0C0C0C0 (logior #xC0000000 (first ptrs)) (logior #xC0000000 (second ptrs)) (logior #xC0000000 (third ptrs)) #xC0C0C0C0 #xC0C0C0C0 #xC0C0C0C0 ys cs cs #x00f00000 #xe73304a8 #x00066604 0 (funcall ppf (ash sw -1) dw) (funcall ppf (ash sh -1) dh) #xC0C0C0C0 (funcall ppf sw dw) (funcall ppf sh dh) #xC0C0C0C0 ks ks ks ks #x80000000)) (i 0)) (list ptrs words)))'' 4000"

definition diff_done :: step where
  "diff_done =
     Say ''=== DIFF DONE ===''"

definition buffer_entry :: step where
  "buffer_entry =
     Ev ''(let* ((l1 (logand (mem-ref 458752 :u32) (lognot 4095))) (b (first *rh-bufs*)) (e (+ l1 (* (ash b -21) 8)))) (list :buf b :lo (mem-ref e :u32) :hi (mem-ref (+ e 4) :u32)))'' 30000"

definition def_pic0 :: step where
  "def_pic0 =
     Raw ''(defun rh-pic0 () (let* ((vd (reel:make-decoder)) (sz (rh-le32 *rh-ivf* 32))) (reel:decode-frame vd *rh-ivf* :start 44 :end (+ 44 sz))))'' 4000"

definition dump_kernel :: step where
  "dump_kernel =
     Ev ''(progn (hvs-window-nc nil) (let ((r nil)) (dotimes (i 11) (push (mem-ref (+ (hvs-base) 8192 (* (+ *hvs-kernel-slot* i) 4)) :u32) r)) (reverse r)))'' 60000"

definition hot_off :: step where
  "hot_off =
     Ev ''(setq *jit-hot-only* nil)'' 10000"

definition decode_pic :: step where
  "decode_pic =
     Ev ''(progn (setq *pic* (rh-pic0)) (list (reel.decode::picture-y-offset *pic*) (reel.decode::picture-uv-offset *pic*) (reel.decode::picture-y-stride *pic*)))'' 600000"

definition rh_init :: step where
  "rh_init =
     Ev ''(rh-init)'' 120000"

definition dump_plane :: step where
  "dump_plane =
     Ev ''(progn (hvs-window-nc nil) (let ((r nil)) (dotimes (i 29) (push (mem-ref (+ (hvs-base) 8192 (* (+ *rh-plane* i) 4)) :u32) r)) (reverse r)))'' 60000"

definition literals :: step where
  "literals =
     Ev ''(list #xC0C0C0C0 #xC0000000 #xFF000000 #x80000000 4278435840)'' 30000"

definition constvec_on :: step where
  "constvec_on =
     Ev ''(if (boundp (quote *aarch64-jit-constvec-p*)) *aarch64-jit-constvec-p* :unbound)'' 10000"

definition constvec_root :: step where
  "constvec_root =
     Ev ''(mem-ref 268439312 :u64)'' 10000"

definition def_words :: step where
  "def_words =
     Raw ''(defun words (dx dy dw dh sw sh p0 p1 p2 ys cs ks) (let ((ppf (lambda (s d) (logior (ash 1 30) (ash (floor (* 65536 s) d) 8))))) (list (logior (ash 1 30) (ash 28 24) 8) (logior #xFF000000 (ash dy 12) dx) (logior (ash dh 16) dw) (logior (ash 1 30) (ash sh 16) sw) #xC0C0C0C0 (logior #xC0000000 p0) (logior #xC0000000 p1) (logior #xC0000000 p2) #xC0C0C0C0 #xC0C0C0C0 #xC0C0C0C0 ys cs cs #x00f00000 #xe73304a8 #x00066604 0 (funcall ppf (ash sw -1) dw) (funcall ppf (ash sh -1) dh) #xC0C0C0C0 (funcall ppf sw dw) (funcall ppf sh dh) #xC0C0C0C0 ks ks ks ks #x80000000)))'' 4000"

definition run_words :: step where
  "run_words =
     Ev ''(words 0 60 1920 1080 320 180 340025376 340114448 340139024 384 192 2100)'' 60000"

definition serial_cmp :: "nat \<Rightarrow> step list" where
  "serial_cmp d =
    [hot_off,
     relink_all,
     def_yuv_plane,
     def_yuv_words,
     check_defs,
     rh_init,
     def_pic0,
     decode_pic,
     show_pic,
     Camera d,
     show_words,
     dump_plane,
     Ev ''(list :displist (hvs-displist) :active (hvs-active-channel) :plane *rh-plane* :kslot *hvs-kernel-slot*)'' 30000,
     dump_kernel,
     buffer_entry,
     Ev ''(let* ((b (first *rh-bufs*)) (y (reel.decode::picture-y *pic*)) (r nil)) (dolist (row (list 0 32 100 200)) (let ((o (* row 384))) (push (list row (mem-ref (+ b o 40) :u8) (aref y (+ o 40))) r))) (reverse r))'' 60000,
     Ev ''(let ((fw (hvs-rd (+ (hvs-base) 52)))) (list :fw fw (hvs-rd (+ (hvs-base) 8192 (* fw 4))) (hvs-rd (+ (hvs-base) 8192 (* (+ fw 1) 4)))))'' 30000,
     diff_done]"

definition serial_copy :: "step list" where
  "serial_copy =
    [hot_off,
     relink_all,
     Ev ''(list (rh-ceil64 98304) (rh-ceil64 24576) (rh-ceil64 100))'' 30000,
     rh_init,
     def_pic0,
     Ev ''(progn (setq *pic* (rh-pic0)) (length (reel.decode::picture-y *pic*)))'' 600000,
     Ev ''(let ((b (first *rh-bufs*))) (hvs-nfill-nc b 2097152 #x11111111) (list (mem-ref b :u8) (mem-ref (+ b 2000000) :u8)))'' 60000,
     Ev ''(rh-copy-planes *pic* (first *rh-bufs*))'' 120000,
     Ev ''(let* ((b (first *rh-bufs*)) (y (reel.decode::picture-y *pic*)) (r nil)) (dolist (row (list 0 32 60 100 150 200 240)) (let ((o (* row 384))) (push (list row (mem-ref (+ b o 40) :u8) (aref y (+ o 40))) r))) (reverse r))'' 60000,
     Ev ''(let* ((b (first *rh-bufs*)) (u (reel.decode::picture-u *pic*))) (list :u0 (mem-ref (+ b 98304) :u8) (aref u 0) :u3088 (mem-ref (+ b 98304 3088) :u8) (aref u 3088) :v3088 (mem-ref (+ b 98304 24576 3088) :u8)))'' 60000]"

definition serial_cvac :: "nat \<Rightarrow> step list" where
  "serial_cvac d =
    [hot_off,
     buffer_entry,
     show_pic,
     Camera d,
     Raw ''(defun rh-copy-planes (pic buf) (let* ((y (reel.decode::picture-y pic)) (u (reel.decode::picture-u pic)) (v (reel.decode::picture-v pic)) (ysz (rh-ceil64 (length y))) (usz (rh-ceil64 (length u)))) (hvs-ncopy buf (+ (%val->word y) 7) ysz) (hvs-ncopy (+ buf ysz) (+ (%val->word u) 7) usz) (hvs-ncopy (+ buf ysz usz) (+ (%val->word v) 7) usz) (list (+ buf (reel.decode::picture-y-offset pic)) (+ buf ysz (reel.decode::picture-uv-offset pic)) (+ buf ysz usz (reel.decode::picture-uv-offset pic)))))'' 4000,
     show_pic,
     Camera d,
     Ev ''(let* ((b (first *rh-bufs*)) (y (reel.decode::picture-y *pic*))) (list (mem-ref (+ b (* 100 384) 40) :u8) (aref y (+ (* 100 384) 40))))'' 30000,
     Say ''=== CVAC DONE ==='']"

definition serial_diff :: "nat \<Rightarrow> step list" where
  "serial_diff d =
    [hot_off,
     relink_all,
     def_yuv_plane,
     def_yuv_words,
     check_defs,
     rh_init,
     def_pic0,
     decode_pic,
     show_pic,
     Camera d,
     show_words,
     dump_plane,
     diff_done]"

definition serial_dlist :: "step list" where
  "serial_dlist =
    [hot_off,
     Ev ''modus-int::*jit-linkage-cells*'' 10000,
     relink_all,
     def_yuv_plane,
     rh_init,
     Ev ''(rh-first-frame)'' 600000,
     Ev ''(list *rh-plane* *hvs-kernel-slot* (hvs-displist) (hvs-active-channel))'' 30000,
     Ev ''(progn (hvs-window-nc nil) (let ((r nil)) (dotimes (i 30) (push (mem-ref (+ (hvs-base) 8192 (* (+ *rh-plane* i) 4)) :u32) r)) (reverse r)))'' 60000,
     dump_kernel,
     Ev ''(let ((ptrs (list 340025376 340114448 340139024))) (list (logior 3221225472 (first ptrs)) (logior 3221225472 (second ptrs))))'' 10000,
     Say ''=== DLIST DONE ==='']"

definition serial_fast :: "nat \<Rightarrow> nat \<Rightarrow> step list" where
  "serial_fast d e =
    [Ev ''(if (find-package \"REEL\") 1 0)'' 10000,
     hot_off,
     def_yuv_plane,
     Ev ''(if (fboundp (quote rh-yuv-plane)) 1 0)'' 10000,
     relink_all,
     rh_init,
     Ev ''(rh-first-frame)'' 600000,
     Camera d,
     Camera 0,
     Sleep 1000,
     Ev ''(rh-play nil)'' 900000,
     Camera e,
     Say ''=== FAST DONE ==='']"

definition serial_grad :: "nat \<Rightarrow> step list" where
  "serial_grad d =
    [hot_off,
     relink_all,
     def_yuv_plane,
     rh_init,
     def_pic0,
     Ev ''(progn (setq *pic* (rh-pic0)) (rh-yuv-plane *pic* (first *rh-bufs*) 0 60 1920 1080))'' 600000,
     Camera d,
     Ev ''(let* ((b (first *rh-bufs*)) (yp (+ b 12320)) (up (+ b 98304 3088)) (vp (+ b 98304 24576 3088))) (dotimes (r 180) (let ((v (floor (* r 255) 179))) (dotimes (c 320) (setf (mem-ref (+ yp (* r 384) c) :u8) v)))) (dotimes (r 90) (dotimes (c 160) (setf (mem-ref (+ up (* r 192) c) :u8) 128) (setf (mem-ref (+ vp (* r 192) c) :u8) 128))) (list (mem-ref yp :u8) (mem-ref (+ yp (* 179 384)) :u8)))'' 300000,
     Camera d,
     Ev ''(let* ((b (first *rh-bufs*)) (yp (+ b 12320))) (dotimes (r 180) (dotimes (c 320) (setf (mem-ref (+ yp (* r 384) c) :u8) (if (< c 160) 235 16)))) :ok)'' 300000,
     Camera d,
     Say ''=== GRAD DONE ==='']"

definition serial_lit :: "step list" where
  "serial_lit =
    [constvec_on,
     constvec_root,
     hot_off,
     def_words,
     run_words,
     literals,
     expected]"

definition serial_lit_core :: "step list" where
  "serial_lit_core =
    [constvec_on,
     constvec_root,
     hot_off,
     Ev ''(list :root-before (mem-ref 268439312 :u64) (mem-ref 268439064 :u64))'' 10000,
     def_words,
     run_words,
     literals,
     relink_all,
     Ev ''(list :root-after (mem-ref 268439312 :u64))'' 10000,
     Raw ''(defun words2 (a) (list #xC0C0C0C0 (logior #xC0000000 a) #xC0C0C0C0 #xFF000000 #x80000000 a))'' 4000,
     Ev ''(words2 340025376)'' 30000,
     run_words,
     expected]"

definition serial_lit2 :: "step list" where
  "serial_lit2 =
    [hot_off,
     Ev ''(hvs-mair-words 4096)'' 30000,
     Ev ''(cddr (hvs-blit-nc-words :copy 4096))'' 30000,
     Ev ''(list (hvs-ppf-word 0 -2 -6) (hvs-base) (list *hvs-attr* *hvs-blit-nc*))'' 30000,
     Ev ''(list (modus-int::%jit-fn-native-p \"HVS-MAIR-WORDS\") (modus-int::%jit-fn-native-p \"HVS-SLOT-WR32\") (modus-int::%jit-fn-native-p \"HVS-WINDOW-NC\"))'' 30000,
     Raw ''(defun hvs-mair-words-fresh (scr) (list (logior #xD2800003 (ash (logand scr #xFFFF) 5)) (logior #xF2A00003 (ash (logand (ash scr -16) #xFFFF) 5)) #xF9400060 #xD5033F9F #xD51CA200 #xD50C871F #xD5033F9F #xD5033FDF #xD65F03C0))'' 4000,
     Ev ''(hvs-mair-words-fresh 4096)'' 30000,
     relink_all,
     Ev ''(hvs-mair-words 4096)'' 30000]"

definition serial_probe2 :: "step list" where
  "serial_probe2 =
    [hot_off,
     Ev ''(list (car *hvs-blit-nc*) (cadr *hvs-blit-nc*) (cadddr *hvs-blit-nc*))'' 10000,
     Ev ''(let ((p (cadddr *hvs-blit-nc*)) (r nil)) (dotimes (i 15) (push (mem-ref (+ p (* i 4)) :u32) r)) (reverse r))'' 30000,
     Ev ''(cddr (hvs-blit-nc-words :copy (cadr *hvs-blit-nc*)))'' 30000,
     Ev ''(let ((w 2906981408)) (list w (logand w 4294967295)))'' 10000,
     Raw ''(defun rh-src () (let* ((vd (reel:make-decoder)) (sz (rh-le32 *rh-ivf* 32)) (pic (reel:decode-frame vd *rh-ivf* :start 44 :end (+ 44 sz)))) (+ (%val->word (reel.decode::picture-y pic)) 7)))'' 4000,
     Ev ''(setq *src* (rh-src))'' 600000,
     Ev ''(let ((a *src*) (r nil)) (dotimes (c 8) (push (mem-ref (+ a c) :u8) r)) (reverse r))'' 10000,
     Ev ''(let ((b (first *rh-bufs*)) (a *src*) (r nil)) (dotimes (c 64) (setf (mem-ref (+ b c) :u8) (mem-ref (+ a c) :u8))) (dotimes (c 8) (push (mem-ref (+ b c) :u8) r)) (list :memref-bytecopy (reverse r)))'' 60000,
     Ev ''(let ((b (first *rh-bufs*)) (r nil)) (hvs-ncopy b *src* 64) (dotimes (c 8) (push (mem-ref (+ b c) :u8) r)) (list :hvs-ncopy (reverse r)))'' 60000,
     Ev ''(let ((b (first *rh-bufs*)) (r nil)) (hvs-ncopy-nc b *src* 64) (dotimes (c 8) (push (mem-ref (+ b c) :u8) r)) (list :hvs-ncopy-nc (reverse r)))'' 60000]"

definition serial_pt :: "step list" where
  "serial_pt =
    [hot_off,
     rh_init,
     Ev ''(let* ((l1 (logand (mem-ref 458752 :u64) (lognot 4095))) (b (first *rh-bufs*)) (idx (ash b -21)) (e (mem-ref (+ l1 (* idx 8)) :u64))) (list :buf b :l1 l1 :idx idx :entry e :pa (logand e #xFFFFE00000) :attr (logand e #xFFF)))'' 30000,
     Ev ''(let* ((l1 (logand (mem-ref 458752 :u64) (lognot 4095))) (r nil)) (dolist (va (list #x00300000 #x14000000 #x14400000 #x14800000 #x18000000 #x30000000 #x3F400000)) (let ((e (mem-ref (+ l1 (* (ash va -21) 8)) :u64))) (push (list va (logand e #xFFFFE00000) (logand e #xFFF)) r))) (reverse r))'' 30000]"

definition serial_static :: "nat \<Rightarrow> step list" where
  "serial_static d =
    [hot_off,
     Ev ''(list (hvs-base) (hvs-displist) (hvs-active-channel))'' 30000,
     Ev ''(progn (hvs-window-nc t) (hvs-slot-wr32 3000 3235818718) (hvs-window-nc nil) (mem-ref (+ (hvs-base) 8192 (* 3000 4)) :u32))'' 30000,
     Ev ''(setq *bufs* (hvs-double-buffer))'' 60000,
     Ev ''(hvs-nfill-nc (first *bufs*) 921600 4278255360)'' 60000,
     Ev ''(let ((b (first *bufs*))) (list (mem-ref b :u32) (mem-ref (+ b 4) :u32) (mem-ref (+ b 921596) :u32)))'' 30000,
     Ev ''(hvs-scaled-plane (first *bufs*) 640 360 2560 1920 1080)'' 60000,
     Camera d,
     Say ''=== STATIC DONE ==='']"

definition serial_white :: "nat \<Rightarrow> step list" where
  "serial_white d =
    [hot_off,
     relink_all,
     def_yuv_plane,
     def_yuv_words,
     check_defs,
     rh_init,
     def_pic0,
     decode_pic,
     show_pic,
     Camera d,
     Ev ''(let* ((b (first *rh-bufs*)) (ysz (rh-ceil64 (* 384 244))) (usz (rh-ceil64 (* 192 122)))) (hvs-nfill-nc b ysz #xEBEBEBEB) (hvs-nfill-nc (+ b ysz) usz #x80808080) (hvs-nfill-nc (+ b ysz usz) usz #x80808080) (list ysz usz (mem-ref (+ b 12320) :u8) (mem-ref (+ b ysz 3088) :u8)))'' 60000,
     Camera d,
     Ev ''(let ((y (reel.decode::picture-y *pic*)) (u (reel.decode::picture-u *pic*))) (list (length y) (length u)))'' 30000,
     show_words,
     dump_plane,
     diff_done]"

definition serial_win :: "step list" where
  "serial_win =
    [hot_off,
     Ev ''(list (hvs-base) (mem-ref 458752 :u32) (mem-ref (+ (hvs-base) 8192 (* 3000 4)) :u32) (mem-ref (+ (hvs-base) 8192 (* 3001 4)) :u32))'' 30000,
     Ev ''(progn (hvs-window-nc t) (list *hvs-attr*))'' 60000,
     Ev ''(progn (hvs-slot-wr32 3000 #xC0C0C0C0) (hvs-slot-wr32 3001 #x12345678) (hvs-slot-wr32 3002 305419896) :written)'' 30000,
     Ev ''(list :read-under-nc (mem-ref (+ (hvs-base) 8192 (* 3000 4)) :u32) (mem-ref (+ (hvs-base) 8192 (* 3001 4)) :u32))'' 30000,
     Ev ''(progn (hvs-window-nc nil) (list :read-under-dev (mem-ref (+ (hvs-base) 8192 (* 3000 4)) :u32) (mem-ref (+ (hvs-base) 8192 (* 3001 4)) :u32) (mem-ref (+ (hvs-base) 8192 (* 3002 4)) :u32)))'' 30000,
     Ev ''(progn (setf (mem-ref (+ (hvs-base) 8192 (* 3003 4)) :u32) #xC0C0C0C0) (list :dev-store-readback (mem-ref (+ (hvs-base) 8192 (* 3003 4)) :u32)))'' 30000,
     Say ''EXPECT nc/dev readback 3233857728 305419896 305419896'']"

lemma expected_split: "split_ws expected_text =
  [''1543503880'', ''4278435840'', ''70780800'', ''1085538624'', ''3233857728'', ''3561250848'', ''3561339920'', ''3561364496'',
   ''3233857728'', ''3233857728'', ''3233857728'', ''384'', ''192'', ''192'', ''15728640'', ''3878880424'', ''419332'', ''0'',
   ''1075139840'', ''1075139840'', ''3233857728'', ''1076537856'', ''1076537856'', ''3233857728'', ''2100'', ''2100'', ''2100'',
   ''2100'', ''2147483648'']"
  by code_simp

lemma digit_vals:
  "digit_val 10 CHR ''0'' = Some 0" "digit_val 10 CHR ''1'' = Some 1" "digit_val 10 CHR ''2'' = Some 2"
  "digit_val 10 CHR ''3'' = Some 3" "digit_val 10 CHR ''4'' = Some 4" "digit_val 10 CHR ''5'' = Some 5"
  "digit_val 10 CHR ''6'' = Some 6" "digit_val 10 CHR ''7'' = Some 7" "digit_val 10 CHR ''8'' = Some 8"
  "digit_val 10 CHR ''9'' = Some 9"
  by code_simp+

lemma expected_words:
  "map (\<lambda>w. int (dec_val w)) (split_ws expected_text) = hvs_words 0 60 1920 1080 320 180 340025376 340114448 340139024 384 192 2100"
  unfolding expected_split by (simp add: dec_val_def digit_vals hvs_words_def ppf_def)

section \<open>What the words of a plane hold\<close>

text \<open>\<open>fits n x\<close>: the integer is an unsigned number of \<open>n\<close> bits.\<close>

definition fits :: "nat \<Rightarrow> int \<Rightarrow> bool" where
  "fits n x \<longleftrightarrow> 0 \<le> x \<and> x < 2 ^ n"

lemma fits_take_bit: "fits n x \<longleftrightarrow> take_bit n x = x"
  by (simp add: fits_def take_bit_int_eq_self_iff)

lemma fits_mono: "fits m x \<Longrightarrow> m \<le> n \<Longrightarrow> fits n x"
  unfolding fits_def using power_increasing [of m n "2 :: int"] by linarith

lemma fits_or: "fits n x \<Longrightarrow> fits n y \<Longrightarrow> fits n (x OR y)"
  by (simp add: fits_take_bit)

lemma fits_push: "fits m x \<Longrightarrow> m + k \<le> n \<Longrightarrow> fits n (push_bit k x)"
proof -
  assume "fits m x" "m + k \<le> n"
  then have "fits (n - k) x" "k \<le> n" by (auto intro: fits_mono)
  then show ?thesis by (simp add: fits_take_bit take_bit_push_bit)
qed

text \<open>The fields of a word: nothing of the upper one is below it, and nothing of the lower one above.\<close>

lemma push_fields: "take_bit n (push_bit n x) = (0 :: int)" "drop_bit n (push_bit n x) = x"
  by (simp_all add: take_bit_push_bit drop_bit_push_bit)

lemma fits_above: "fits n y \<Longrightarrow> drop_bit n y = 0"
  by (metis fits_take_bit drop_bit_take_bit diff_self_eq_0 take_bit_0)

lemma scale_fits: "0 \<le> s \<Longrightarrow> 0 < d \<Longrightarrow> s < 64 * d \<Longrightarrow> fits 22 ((65536 * s) div d)"
proof -
  assume s: "0 \<le> s" "0 < d" "s < 64 * d"
  then have "65536 * s < 4194304 * d" by simp
  moreover have "(65536 * s) div d * d \<le> 65536 * s" using s(2) by (simp flip: minus_mod_eq_div_mult)
  ultimately have "(65536 * s) div d * d < 4194304 * d" by linarith
  then have "(65536 * s) div d < 4194304" using s(2) by simp
  then show ?thesis using s by (simp add: fits_def pos_imp_zdiv_nonneg_iff)
qed

lemma ppf_field:
  assumes "0 \<le> s" "0 < d" "s < 64 * d"
  shows "fits 32 (ppf s d)" and "drop_bit 8 (take_bit 30 (ppf s d)) = (65536 * s) div d"
proof -
  note f = scale_fits [OF assms]
  show "fits 32 (ppf s d)"
    unfolding ppf_def using fits_push [OF f, of 8 32] by (intro fits_or) (simp_all add: fits_def)
  have "take_bit 30 (ppf s d) = push_bit 8 ((65536 * s) div d)"
    using fits_push [OF f, of 8 30] by (simp add: ppf_def fits_take_bit)
  then show "drop_bit 8 (take_bit 30 (ppf s d)) = (65536 * s) div d" by (simp add: drop_bit_push_bit)
qed

text \<open>
  C27: The words of a plane hold what was asked for.  A plane in a 4096 by 4096 screen, of at most 65535
  by 16383 pixels, shrunk less than 64 times, with buffers below 1 GiB, has 29 words of 32 bits, so that storing
  them loses nothing; position, sizes, addresses and the two scales, as 16.16 fractions rounded down,
  stand in their fields.  The list that \<open>serial-lit.py\<close> prints is what its form computes.
\<close>

theorem hvs_words_fields:
  assumes "fits 12 dx" "fits 12 dy" "fits 16 dw" "fits 16 dh" "fits 16 sw" "fits 14 sh"
    and "fits 30 p0" "fits 30 p1" "fits 30 p2" "fits 32 ys" "fits 32 cs" "fits 32 ks"
    and "0 < dw" "0 < dh" "sw < 64 * dw" "sh < 64 * dh"
  shows "let ws = hvs_words dx dy dw dh sw sh p0 p1 p2 ys cs ks in
    length ws = 29 \<and> list_all (fits 32) ws \<and>
    take_bit 12 (ws ! 1) = dx \<and> take_bit 12 (drop_bit 12 (ws ! 1)) = dy \<and>
    take_bit 16 (ws ! 2) = dw \<and> drop_bit 16 (ws ! 2) = dh \<and>
    take_bit 16 (ws ! 3) = sw \<and> take_bit 14 (drop_bit 16 (ws ! 3)) = sh \<and>
    map (take_bit 30) (take 3 (drop 5 ws)) = [p0, p1, p2] \<and>
    drop_bit 8 (take_bit 30 (ws ! 21)) = (65536 * sw) div dw \<and>
    drop_bit 8 (take_bit 30 (ws ! 22)) = (65536 * sh) div dh \<and>
    map (\<lambda>w. int (dec_val w)) (split_ws expected_text) = hvs_words 0 60 1920 1080 320 180 340025376 340114448 340139024 384 192 2100"
proof -
  have s: "0 \<le> sw" "0 \<le> sh" using assms(5,6) by (simp_all add: fits_def)
  have half: "0 \<le> drop_bit 1 x \<and> drop_bit 1 x < 64 * d" if "0 \<le> x" "x < 64 * d" for x d :: int
    using that by (simp add: drop_bit_eq_div)
  have p: "take_bit 30 (0xC0000000 OR x) = x" if "fits 30 x" for x using that by (simp add: fits_take_bit)
  have p32: "fits 32 (0xC0000000 OR x)" if "fits 30 x" for x
    using fits_mono [OF that, of 32] by (intro fits_or) (simp_all add: fits_def)
  have r: "fits 32 (0xFF000000 OR push_bit 12 dy OR dx)" "fits 32 (push_bit 16 dh OR dw)" "fits 32 (push_bit 30 1 OR push_bit 16 sh OR sw)"
  proof -
    note wide = fits_mono [of _ _ 32]
    have "fits 32 0xFF000000" "fits 32 (push_bit 30 1)" by (simp_all add: fits_def)
    then show "fits 32 (0xFF000000 OR push_bit 12 dy OR dx)" "fits 32 (push_bit 16 dh OR dw)" "fits 32 (push_bit 30 1 OR push_bit 16 sh OR sw)"
      using fits_push [OF assms(2), of 12 32] fits_push [OF assms(4), of 16 32] fits_push [OF assms(6), of 16 32]
        wide [OF assms(1)] wide [OF assms(3)] wide [OF assms(5)] by (intro fits_or; simp)+
  qed
  have ws: "list_all (fits 32) (hvs_words dx dy dw dh sw sh p0 p1 p2 ys cs ks)"
    unfolding hvs_words_def list.pred_inject using r p32 [OF assms(7)] p32 [OF assms(8)] p32 [OF assms(9)] assms(10-12)
      ppf_field(1) half s assms(13-16)
    by (intro conjI TrueI) (simp_all add: fits_def)
  have e: "map (\<lambda>w. int (dec_val w)) (split_ws expected_text) = hvs_words 0 60 1920 1080 320 180 340025376 340114448 340139024 384 192 2100"
    by (rule expected_words)
  have low: "take_bit 12 dx = dx" "take_bit 12 dy = dy" "take_bit 16 dw = dw" "take_bit 16 sw = sw" "take_bit 14 sh = sh"
    using assms(1-6) by (simp_all add: fits_take_bit)
  show ?thesis
    unfolding Let_def using ws e p [OF assms(7)] p [OF assms(8)] p [OF assms(9)] low
      fits_above [OF assms(1)] fits_above [OF assms(3)] fits_above [OF assms(5)]
      ppf_field(2) [OF s(1) assms(13,15)] ppf_field(2) [OF s(2) assms(14,16)]
    by (simp add: hvs_words_def push_fields)
qed

lemma hvs_words_fields_witness:
  "list_all (fits 32) (hvs_words 0 60 1920 1080 320 180 340025376 340114448 340139024 384 192 2100) \<and>
   map (\<lambda>w. int (dec_val w)) (split_ws expected_text) ! 1 = push_bit 12 60 OR 0xFF000000"
  using hvs_words_fields [of 0 60 1920 1080 320 180 340025376 340114448 340139024 384 192 2100]
  by (simp add: fits_def Let_def) (simp add: hvs_words_def)

section \<open>Every step is one form\<close>

definition display_scripts :: "nat \<Rightarrow> nat \<Rightarrow> step list list" where
  "display_scripts d e =
     [serial_cmp d, serial_copy, serial_cvac d, serial_diff d, serial_dlist, serial_fast d e, serial_grad d, serial_lit,
      serial_lit_core, serial_lit2, serial_probe2, serial_pt, serial_static d, serial_white d, serial_win]"

text \<open>The named steps first; the scripts then need only their own.\<close>

lemma shared_ok: "list_all step_ok
   [show_words, relink_all, check_defs, show_pic, def_yuv_plane, def_yuv_words, diff_done, buffer_entry, def_pic0, dump_kernel,
    hot_off, decode_pic, rh_init, dump_plane, literals, constvec_on, constvec_root, def_words, run_words, expected]"
  unfolding list.pred_inject step_ok.simps list.case
    show_words_def relink_all_def check_defs_def show_pic_def def_yuv_plane_def def_yuv_words_def
    diff_done_def buffer_entry_def def_pic0_def dump_kernel_def hot_off_def decode_pic_def rh_init_def
    dump_plane_def literals_def constvec_on_def constvec_root_def def_words_def run_words_def expected_def
  by (intro conjI TrueI; code_simp)

lemmas display_defs =
    serial_cmp_def serial_copy_def serial_cvac_def serial_diff_def serial_dlist_def serial_fast_def
    serial_grad_def serial_lit_def serial_lit_core_def serial_lit2_def serial_probe2_def serial_pt_def
    serial_static_def serial_white_def serial_win_def

lemma display_ok: "list_all (list_all step_ok) (display_scripts d e)"
  unfolding display_scripts_def display_defs list.pred_inject
  by (simp only: shared_ok [unfolded list.pred_inject] step_ok.simps list.case simp_thms) (intro conjI; code_simp)

end
