(* ===== verification/ProbeDrivers.thy ===== *)
theory ProbeDrivers
  imports DisplayDrivers
begin

text \<open>
  The drivers that print a value of the board once more in a line of their own: \<open>serial-check.py\<close>,
  \<open>serial-measure.py\<close>, \<open>serial-probe.py\<close>, \<open>serial-probe3.py\<close> and \<open>serial-probe4.py\<close>.  Their statements are
  those of \<open>BoardRepl\<close> and two more; \<open>secs k ms\<close> stands for the format of a time with \<open>k\<close> decimals.
\<close>

section \<open>The statements\<close>

text \<open>
  \<open>Report\<close> is an acknowledged form whose value and duration go into a line of output, \<open>Tail t n\<close> a drain of
  which the last \<open>n\<close> characters are printed.
\<close>

datatype stmt =
    Do step
  | Report string nat "string option \<Rightarrow> nat \<Rightarrow> string"
  | Tail nat nat

fun run_stmt :: "stmt \<Rightarrow> board \<Rightarrow> board" where
  "run_stmt (Do c) s = run_step c s"
| "run_stmt (Report form w line) s = (let (v, s') = ev form w s in display (line v (clock s' - clock s)) s')"
| "run_stmt (Tail t n) s = (let (out, s') = rd_until never t s in display (last_n n out) s')"

definition drive_stmts :: "stmt list \<Rightarrow> board \<Rightarrow> nat \<times> board" where
  "drive_stmts script s =
     (let s = reset_input_buffer s; (ok, s) = ready 5 s
      in if \<not> ok then (1, display ''SERIAL REPL NOT READY'' s)
         else (0, fold run_stmt script (display ''SERIAL READY'' s)))"

section \<open>The scripts\<close>

definition serial_check :: "(nat \<Rightarrow> nat \<Rightarrow> string) \<Rightarrow> stmt list" where
  "serial_check secs =
     [Do hot_off,
      Do (Raw ''(defun pstats (pic) (let* ((w (reel.decode::picture-width pic)) (h (reel.decode::picture-height pic)) (y (reel.decode::picture-y pic)) (ys (reel.decode::picture-y-stride pic)) (yo (reel.decode::picture-y-offset pic)) (u (reel.decode::picture-u pic)) (cs (reel.decode::picture-uv-stride pic)) (co (reel.decode::picture-uv-offset pic)) (sy 0) (su 0) (f8 nil)) (dotimes (r h) (dotimes (c w) (setq sy (+ sy (aref y (+ yo (* r ys) c)))))) (dotimes (r (ash h -1)) (dotimes (c (ash w -1)) (setq su (+ su (aref u (+ co (* r cs) c)))))) (dotimes (c 8) (push (aref y (+ yo c)) f8)) (list w h sy su (reverse f8))))'' 4000),
      Do (Raw ''(defun rh-stats () (let* ((vd (reel:make-decoder)) (sz (rh-le32 *rh-ivf* 32)) (pic (reel:decode-frame vd *rh-ivf* :start 44 :end (+ 44 sz)))) (pstats pic)))'' 4000),
      Do (Ev ''(if (fboundp (quote rh-stats)) 1 0)'' 10000),
      Report ''(rh-stats)'' 900000 (\<lambda>v ms. ''  BOARD0 '' @ none_text v @ ''  ('' @ secs 1 ms @ ''s)'')]"

definition serial_measure :: "(nat \<Rightarrow> nat \<Rightarrow> string) \<Rightarrow> nat \<Rightarrow> nat \<Rightarrow> stmt list" where
  "serial_measure secs d e =
     [Do (Ev ''(if (find-package \"REEL\") 1 0)'' 10000),
      Do (Ev ''(if (fboundp (quote reel-demo-pass)) 1 0)'' 10000),
      Do (Ev ''(if (boundp (quote *demo-ivf*)) *demo-len* -1)'' 10000),
      Do hot_off,
      Do (Ev ''(init)'' 180000),
      Do (Say ''=== jit-eager (long) ===''),
      Report ''(jit-eager)'' 2400000 (\<lambda>v ms. ''  jit-eager took '' @ secs 0 ms @ ''s''),
      Do (Say ''=== DECODE (NEON, native) ==='')] @
     replicate 3 (Do (Ev ''(reel-demo-pass 4)'' 900000)) @
     [Do (Say ''=== FAST HVS ===''),
      Do (Ev ''(rh-init)'' 120000),
      Do (Ev ''(rh-first-frame)'' 600000),
      Do (Camera d),
      Do (Camera 0),
      Do (Sleep 1000),
      Do (Ev ''(rh-play nil)'' 900000),
      Do (Camera e),
      Do (Say ''=== ALL DONE ==='')]"

definition serial_probe :: "stmt list" where
  "serial_probe =
     [Do hot_off,
      Do (Ev ''(list (first *rh-bufs*) (second *rh-bufs*))'' 10000),
      Do (Raw ''(defun rh-probe () (let* ((vd (reel:make-decoder)) (sz (rh-le32 *rh-ivf* 32)) (pic (reel:decode-frame vd *rh-ivf* :start 44 :end (+ 44 sz))) (ptrs (rh-copy-planes pic (first *rh-bufs*))) (y (reel.decode::picture-y pic)) (yo (reel.decode::picture-y-offset pic)) (b (first *rh-bufs*)) (r nil)) (dotimes (c 8) (push (mem-ref (+ b c) :u8) r)) (list ptrs (list (aref y yo) (aref y (+ yo 1)) (aref y (+ yo 2))) (reverse r))))'' 4000),
      Do (Ev ''(if (fboundp (quote rh-probe)) 1 0)'' 10000),
      Report ''(rh-probe)'' 600000 (\<lambda>v ms. ''  PROBE '' @ none_text v)]"

definition serial_probe3 :: "stmt list" where
  "serial_probe3 =
     [Do hot_off,
      Do (Raw ''(defun rh-vis () (let* ((vd (reel:make-decoder)) (sz (rh-le32 *rh-ivf* 32)) (pic (reel:decode-frame vd *rh-ivf* :start 44 :end (+ 44 sz))) (ptrs (rh-copy-planes pic (first *rh-bufs*))) (y (reel.decode::picture-y pic)) (yo (reel.decode::picture-y-offset pic)) (p (first ptrs)) (a nil) (b nil)) (dotimes (c 8) (push (aref y (+ yo c)) a) (push (mem-ref (+ p c) :u8) b)) (list (reverse a) (reverse b))))'' 4000),
      Report ''(rh-vis)'' 600000 (\<lambda>v ms. ''  VIS aref-vs-NCbuf '' @ none_text v),
      Do (Ev ''(let ((ppf (lambda (s d) (logior (ash 1 30) (ash (floor (* 65536 s) d) 8))))) (list (funcall ppf 320 1920) (funcall ppf 180 1080)))'' 30000),
      Do (Raw ''(defun fnv4k () (let ((h 2166136261) (i 0)) (loop (when (>= i 4096) (return h)) (setq h (logand (* (logxor h (aref *rh-ivf* i)) 16777619) #xFFFFFFFF)) (setq i (+ i 1)))))'' 4000),
      Do (Ev ''(fnv4k)'' 120000)]"

definition serial_probe4 :: "stmt list" where
  "serial_probe4 =
     [Do (Ev ''(if (fboundp (quote %net-fnv1a)) 1 0)'' 10000),
      Do (Ev ''(modus-int::%net-fnv1a *rh-ivf* 4096)'' 120000),
      Do (Ev ''(modus-int::%net-fnv1a *rh-ivf* 65536)'' 300000),
      Do (Ev ''(modus-int::%net-fnv1a *rh-ivf* 151295)'' 600000),
      Do (Say ''--- serial tail after full run ---''),
      Tail 3000 300]"

section \<open>A statement refines a step\<close>

text \<open>Apart from what is printed, a statement is one of the steps.\<close>

fun the_step :: "stmt \<Rightarrow> step" where
  "the_step (Do c) = c"
| "the_step (Report form w line) = Ev form w"
| "the_step (Tail t n) = Drain t"

lemma run_stmt_step: "run_stmt c s = (run_step (the_step c) s)\<lparr>shown := shown (run_stmt c s)\<rparr>"
  by (cases c) (simp_all add: display_def case_prod_beta)

interpretation stmts: timed_runner run_stmt the_step
proof
  fix c s xs
  have eq: "outbound (run_stmt c s) = outbound (run_step (the_step c) s)" "tags (run_stmt c s) = tags (run_step (the_step c) s)"
    "inbound (run_stmt c s) = inbound (run_step (the_step c) s)" "clock (run_stmt c s) = clock (run_step (the_step c) s)"
    by (subst run_stmt_step, simp)+
  show "outbound (run_stmt c s) @ encode (script_text xs (tags (run_stmt c s)))
      = outbound s @ encode (script_text (the_step c # xs) (tags s))"
    unfolding eq by (rule run_step_wire)
  show "tags (run_stmt c s) = (if is_Ev (the_step c) then tl (tags s) else tags s)" unfolding eq by (rule run_step_tags)
  show "\<exists>a. inbound s = a @ inbound (run_stmt c s)" unfolding eq by (rule run_step_inbound)
  show "clock (run_stmt c s) \<le> clock s + step_time (the_step c)" unfolding eq by (rule run_step_time)
qed

text \<open>Without the two new statements this is \<open>drive\<close>.\<close>

lemma drive_stmts_Do: "drive_stmts (map Do script) = drive script"
proof -
  have "fold run_stmt (map Do xs) s = fold run_step xs s" for xs s by (induction xs arbitrary: s) simp_all
  then show ?thesis by (simp add: drive_stmts_def [abs_def] drive_def [abs_def] cong: if_cong)
qed

text \<open>
  The wire and the time of these drivers: as for the others, the bytes are fixed by the script and the tags,
  whatever is printed.
\<close>

lemma drive_stmts_wire:
  "case drive_stmts script s of (st, s') \<Rightarrow>
     clock s' \<le> clock s + 25790 + sum_list (map (\<lambda>c. step_time (the_step c)) script) \<and>
     (\<exists>k \<le> 5. if st = 0
       then outbound s' = outbound s @ encode (handshake k (tags s) @ script_text (map the_step script) (drop k (tags s)))
            \<and> 0 < k \<and> heard_42 (tag_of (drop (k - 1) (tags s))) (inbound s)
       else st = 1 \<and> k = 5 \<and> outbound s' = outbound s @ encode (handshake 5 (tags s)))"
proof -
  obtain ok s1 where r: "ready 5 (reset_input_buffer s) = (ok, s1)"
    by (cases "ready 5 (reset_input_buffer s)")
  moreover have "clock s1 \<le> clock s + 25790" using serial_ready.loop_time [of 5 "reset_input_buffer s"] r by simp
  ultimately show ?thesis
    using serial_ready.opened [OF r] stmts.script_wire [of script "display ''SERIAL READY'' s1"]
      stmts.script_time [of script "display ''SERIAL READY'' s1"]
    by (cases ok) (auto simp: drive_stmts_def Let_def)
qed

definition probe_scripts :: "(nat \<Rightarrow> nat \<Rightarrow> string) \<Rightarrow> nat \<Rightarrow> nat \<Rightarrow> stmt list list" where
  "probe_scripts secs d e =
     [serial_check secs, serial_measure secs d e, serial_probe, serial_probe3, serial_probe4]"

lemmas probe_defs = serial_check_def serial_measure_def serial_probe_def serial_probe3_def serial_probe4_def

lemma probes_ok: "list_all (\<lambda>xs. list_all step_ok (map the_step xs)) (probe_scripts secs d e)"
  unfolding probe_scripts_def probe_defs list.pred_inject list.map the_step.simps list.map replicate.simps numeral_3_eq_3
    append.simps
  by (simp only: shared_ok [unfolded list.pred_inject] step_ok.simps list.case simp_thms) (intro conjI; code_simp)

end
