(* ===== verification/DriverReading.thy ===== *)
theory DriverReading
  imports ProbeDrivers DecodeDrivers PmuEl3 RhCore
begin

text \<open>
  All serial drivers with a fixed script: what the board reads from the whole of it is one form for every
  step that sends something, under its tag where the step has one.
\<close>

lemma lex_run_dec [simp]: "lex_run (Code, k) (dec n @ y) = lex_run (Code, k) y"
  by (simp add: lex_run_append lex_run_plain [OF dec_plain])

lemma lex_run_plain_name: "list_all plain x \<Longrightarrow> lex_run (Code, k) (x @ y) = lex_run (Code, k) y"
  by (simp add: lex_run_append lex_run_plain)

text \<open>The forms around a stub are closed whatever its words are.\<close>

lemma lex_run_words: "lex_run (Code, k) (join '' '' (map (\<lambda>w. dec (unat w)) ws) @ y) = lex_run (Code, k) y"
proof -
  have "list_all plain (join '' '' (map (\<lambda>w. dec (unat w)) ws))"
  proof (induction ws)
    case (Cons w ws)
    then show ?case using dec_plain [of "unat w"] by (cases ws) (simp_all add: plain_def [of "CHR '' ''"])
  qed simp
  then show ?thesis by (rule lex_run_plain_name)
qed

lemma lex_closes: "lex_run (Code, 0) x = Some (Code, 0) \<Longrightarrow> closes Code 1 (x @ [rpar])"
  using lex_run_sound [of Code 0 x Code 0 1 "[rpar]"] by simp

lemma lex_run_stub_body: "lex_run (Code, k) (stub_body ws @ y) = lex_run (Code, k) y"
  unfolding stub_body_def by (simp add: lex_run_words)

lemma stub_ok: "list_all plain name \<Longrightarrow> step_ok (Raw (stub name ws) t)"
proof -
  assume "list_all plain name"
  then have "lex_run (Code, 0) (''defun '' @ name @ '' () '' @ stub_body ws) = Some (Code, 0)"
    using lex_run_stub_body [of 0 ws "[]"] by (simp add: lex_run_plain_name)
  from lex_closes [OF this] show ?thesis by (simp add: stub_def)
qed

lemma send_stubs_ok: "list_all (\<lambda>(name, ws). list_all plain name) xs \<Longrightarrow> list_all step_ok (send_stubs xs)"
  unfolding send_stubs_def by (induction xs) (auto simp: stub_ok simp del: step_ok.simps)

lemma stub_names:
  "list_all (\<lambda>(name, ws). list_all plain name) (base_stubs @ debug_stubs @ event_stubs @ id_stubs @ readback_stubs @ pmu_stubs @ el3_stubs)"
  by (simp add: base_stubs_def debug_stubs_def event_stubs_def id_stubs_def readback_stubs_def pmu_stubs_def el3_stubs_def plain_def)


lemma send_ok:
  "list_all step_ok (send_stubs base_stubs)" "list_all step_ok (send_stubs debug_stubs)"
  "list_all step_ok (send_stubs event_stubs)" "list_all step_ok (send_stubs id_stubs)"
  "list_all step_ok (send_stubs pmu_stubs)" "list_all step_ok (send_stubs el3_stubs)"
  "list_all step_ok (send_stubs (take 4 pmu_stubs))" "list_all step_ok (send_stubs (drop 4 pmu_stubs))"
  using stub_names by (auto intro!: send_stubs_ok simp: pmu_stubs_def)

lemma readback_ok: "list_all plain (fst s) \<Longrightarrow> step_ok (send_readback s)"
proof -
  assume "list_all plain (fst s)"
  then have "lex_run (Code, 1) (stub (fst s) (snd s) @ y) = lex_run (Code, 1) y" for y
    unfolding stub_def by (simp add: lex_run_plain_name lex_run_stub_body)
  then show ?thesis using \<open>list_all plain (fst s)\<close> by (simp add: send_readback_def keeps_level_def lex_run_plain_name)
qed

lemma send_stubs_append: "send_stubs (xs @ ys) = send_stubs xs @ send_stubs ys"
  by (simp add: send_stubs_def)

lemma common_ok: "step_ok jit_all" "step_ok def_addloop"
  by (simp_all add: jit_all_def def_addloop_def keeps_level_def)

lemma measure_ok: "list_all plain (snd m) \<Longrightarrow> step_ok (measure_event m)"
  by (simp add: measure_event_def keeps_level_def lex_run_plain_name)

lemma memory_ok: "list_all plain (fst m) \<Longrightarrow> step_ok (Raw (memory_stub m) t)"
proof -
  assume n: "list_all plain (fst m)"
  define x where "x = butlast (tl (memory_stub m))"
  have "memory_stub m = lpar # x @ [rpar]" by (simp add: x_def memory_stub_def butlast_append)
  moreover have "lex_run (Code, 0) x = Some (Code, 0)"
    using n by (simp add: x_def memory_stub_def butlast_append lex_run_plain_name)
  ultimately show ?thesis using lex_closes [of x] by (simp only: step_ok.simps list.case simp_thms)
qed

lemma pmu_scripts_ok:
  "list_all step_ok serial_pmu4" "list_all step_ok serial_pmu5" "list_all step_ok serial_pmu6" "list_all step_ok serial_id"
  "list_all step_ok serial_idm"
proof -
  have m: "list_all step_ok (map measure_event measured_events)"
    using measure_ok by (auto simp: measured_events_def plain_def)
  have i: "list_all step_ok (map (\<lambda>m. Raw (memory_stub m) 3000) memory_stubs)"
    using memory_ok by (auto simp: memory_stubs_def plain_def simp del: step_ok.simps)
  show "list_all step_ok serial_pmu4" "list_all step_ok serial_pmu5" "list_all step_ok serial_pmu6" "list_all step_ok serial_id"
    "list_all step_ok serial_idm"
    unfolding serial_pmu4_def serial_pmu5_def serial_pmu6_def serial_id_def serial_idm_def
    by (simp_all add: send_ok m i common_ok send_stubs_append keeps_level_def)
qed

lemma pmu_readback_ok: "list_all step_ok serial_pmu2" "list_all step_ok serial_pmu"
proof -
  have "list_all (\<lambda>s. list_all plain (fst s)) readback_stubs" by (simp add: readback_stubs_def plain_def)
  then have r: "list_all step_ok (map send_readback readback_stubs)" using readback_ok by (auto simp: list_all_iff)
  show "list_all step_ok serial_pmu2" "list_all step_ok serial_pmu"
    unfolding serial_pmu2_def serial_pmu_def
    by (simp_all add: send_ok r common_ok keeps_level_def)
qed

lemma el_script_ok: "list_all step_ok (el_script el)"
proof -
  have "step_ok (Raw (stub ''cur-el'' (reader 3577233984)) 3000)" by (rule stub_ok) (simp add: plain_def)
  then have a: "list_all step_ok ask_el" using common_ok(1) by (simp add: ask_el_def del: step_ok.simps)
  have e: "list_all step_ok el3_steps" by (simp add: el3_steps_def send_ok keeps_level_def)
  have f: "step_ok (Ev el_form 10000)" by (simp add: el_form_def keeps_level_def)
  have "serial_pmu \<noteq> []" by (simp add: serial_pmu_def)
  then have "list_all step_ok (tl serial_pmu)" using pmu_readback_ok(2) by (auto simp: list_all_iff list.set_sel(2))
  then show ?thesis unfolding el_script_def by (simp only: list_all_append list.pred_inject a e f simp_thms split: if_split)
qed

lemma rh_script_ok: "list_all step_ok (rh_checks @ [Ev arena_form t] @ rh_play d)"
  by (simp add: rh_checks_def arena_form_def rh_play_def keeps_level_def)

definition plain_stage :: "stage \<Rightarrow> bool" where
  "plain_stage s \<longleftrightarrow> (case s of (key, fn, args) \<Rightarrow> list_all plain key \<and> list_all plain fn \<and> list_all plain args)"

lemma plain_stages: "list_all plain_stage (bisect2_stages @ prof_stages)"
  unfolding bisect2_stages_def prof_stages_def stage_loopf_def stage_residue_def stage_mbloop_def stage_luma16_def
    stage_bpred_def stage_chroma_def stage_interpred_def stage_interres_def stage_mbmodes_def stage_intermodes_def
    stage_intramodes_def stage_lfparams_def stage_refcopy_def
  by (simp add: plain_stage_def plain_def)

lemma stage_ok: "plain_stage s \<Longrightarrow> step_ok (save_original s) \<and> step_ok (wrap_stage s)"
  by (cases s) (simp add: plain_stage_def save_original_def wrap_stage_def keeps_level_def lex_run_plain_name)

lemma lex_run_stage_ms: "list_all plain k \<Longrightarrow> lex_run (Code, n) (stage_ms k @ y) = lex_run (Code, n) y"
  by (simp add: stage_ms_def lex_run_plain_name)

lemma pass_ok: "list_all plain label \<Longrightarrow> list_all plain k \<Longrightarrow> step_ok (measure_pass label k)"
  by (simp add: measure_pass_def keeps_level_def lex_run_plain_name lex_run_stage_ms)

lemma bisect_ok: "list_all plain label \<Longrightarrow> plain_stage s \<Longrightarrow> list_all step_ok (bisect_stage label s)"
  using stage_ok [of s] pass_ok [of label "fst s"] by (auto simp: bisect_stage_def plain_stage_def)

lemma relink_ok: "list_all step_ok relink"
  by (simp add: relink_def keeps_level_def)

lemma resets_ok:
  "list_all (list_all plain) ks \<Longrightarrow>
     lex_run (Code, n) (concat (map (\<lambda>k. ''(setq reel.decode::*t-'' @ k @ ''* 0) '') ks) @ y) = lex_run (Code, n) y"
  by (induction ks) (simp_all add: lex_run_plain_name)

lemma reports_ok:
  "list_all (list_all plain) ks \<Longrightarrow>
     lex_run (Code, n) (join '' '' (map (\<lambda>k. ''(list :'' @ k @ '' '' @ stage_ms k @ '')'') ks) @ y) = lex_run (Code, n) y"
proof (induction ks)
  case (Cons k ks)
  then show ?case by (cases ks) (simp_all add: lex_run_plain_name lex_run_stage_ms)
qed simp

lemma bisect_scripts_ok: "list_all step_ok serial_bisect" "list_all step_ok serial_bisect2"
proof -
  have s: "plain_stage stage_loopf" "plain_stage stage_residue" "plain_stage stage_mbloop"
    using plain_stages by (simp_all add: bisect2_stages_def)
  have p: "list_all plain ''loopf''" "list_all plain ''one-wrapper''" "list_all plain ''two-wrappers''" "list_all plain ''three-wrappers''"
    by (simp_all add: plain_def)
  have m: "step_ok (measure_pass ''one-wrapper'' ''loopf'')" by (rule pass_ok [OF p(2,1)])
  have f: "list_all step_ok (concat (map (\<lambda>s. bisect_stage (f s) s) xs))"
    if "\<And>s. plain_stage s \<Longrightarrow> list_all plain (f s)" "list_all plain_stage xs" for f xs
    using that(2) bisect_ok [OF that(1)] by (induction xs) simp_all
  have "list_all plain (''after-'' @ fst s)" if "plain_stage s" for s
    using that by (auto simp: plain_stage_def plain_def split: prod.splits)
  note a = f [where f = "\<lambda>s. ''after-'' @ fst s", OF this]
  have "list_all step_ok (concat (map (\<lambda>s. bisect_stage (''after-'' @ fst s) s) bisect2_stages))"
    by (rule a) (use plain_stages in simp_all)
  then show "list_all step_ok serial_bisect" "list_all step_ok serial_bisect2"
    unfolding serial_bisect_def serial_bisect2_def
    using bisect_ok [OF p(3) s(2)] bisect_ok [OF p(4) s(3)] stage_ok [OF s(1)] m relink_ok
    by (simp_all add: keeps_level_def)
qed

lemma prof_script_ok: "list_all step_ok serial_prof"
proof -
  have k: "list_all (list_all plain) reset_keys" "list_all (list_all plain) report_keys"
    by (simp_all add: reset_keys_def report_keys_def plain_def)
  have r: "keeps_level (''(progn '' @ concat (map (\<lambda>k. ''(setq reel.decode::*t-'' @ k @ ''* 0) '') reset_keys) @ '':reset)'')"
    using resets_ok [OF k(1)] by (simp add: keeps_level_def)
  have l: "keeps_level (''(list '' @ join '' '' (map (\<lambda>k. ''(list :'' @ k @ '' '' @ stage_ms k @ '')'') report_keys) @ '')'')"
    using reports_ok [OF k(2)] by (simp add: keeps_level_def)
  have "list_all step_ok (concat (map (\<lambda>s. [save_original s, wrap_stage s]) xs))" if "list_all plain_stage xs" for xs
    using that stage_ok by (induction xs) simp_all
  then have w: "list_all step_ok (concat (map (\<lambda>s. [save_original s, wrap_stage s]) prof_stages))" using plain_stages by simp
  have "step_ok (Ev ''(list (fboundp (quote reel.decode::decode-residue)) reel.decode::*t-residue*)'' 30000)"
    "step_ok (Ev ''(progn (reel-demo-pass 1) :warm)'' 900000)" "step_ok (Ev ''(reel-demo-pass 1)'' 900000)"
    by (simp_all add: keeps_level_def)
  then show ?thesis unfolding serial_prof_def
    by (simp only: list_all_append list.pred_inject w r l relink_ok step_ok.simps simp_thms)
qed

section \<open>Property\<close>

definition driver_scripts :: "(nat \<Rightarrow> nat \<Rightarrow> string) \<Rightarrow> nat \<Rightarrow> nat \<Rightarrow> int \<Rightarrow> step list list" where
  "driver_scripts secs d e el =
     display_scripts d e @ map (map the_step) (probe_scripts secs d e) @
     [serial_bisect, serial_bisect2, serial_prof, serial_pmu, serial_pmu2, el_script el, serial_pmu4, serial_pmu5,
      serial_pmu6, serial_id, serial_idm, rh_checks @ [Ev arena_form 8000] @ rh_play d]"

text \<open>
  C17: What a driver types is what it means to say.  The whole text that a driver with a fixed script sends after the handshake, for
  all its tags, is read by the repository's own form reader as exactly the forms of its steps, in order: each
  acknowledged form alone in the list that carries its tag, each definition as it is written.  So no form of
  the drivers is left open, and none can swallow the next one or its tag.
\<close>

theorem drivers_read:
  "list_all (\<lambda>script. read_forms (script_text script ts) = script_forms script ts) (driver_scripts secs d e el)"
proof -
  have p: "list_all (list_all step_ok) (map (map the_step) (probe_scripts secs d e))"
    using probes_ok [of secs d e] by (simp add: list.pred_map comp_def)
  have "list_all (list_all step_ok) (driver_scripts secs d e el)"
    unfolding driver_scripts_def list_all_append [of "list_all step_ok"] list.pred_inject(2) [of "list_all step_ok"]
    using display_ok p bisect_scripts_ok prof_script_ok pmu_scripts_ok pmu_readback_ok el_script_ok rh_script_ok
    by (simp only: list.pred_inject(1) simp_thms)
  then show ?thesis using script_read by (induction "driver_scripts secs d e el") (auto simp: list_all_iff)
qed

end
