(* ===== verification/Spec2Isabelle.thy ===== *)
theory Spec2Isabelle
  imports MakeUki FnDiff RelocProof LispForms ArchLadder HostedLadder DeployKernel NetbootGz PmuDrivers DecodeDrivers QemuRepl NetbootLinux BarePerf BarePerfTables PmuAnnotate LadderDiff SelfHost
    PmuEl3 RhCore BoardVideo DisplayDrivers DriverReading
begin

text \<open>
  The Python tools of Modus, modelled and verified.

  Modus is a Common Lisp system that compiles itself to native code and boots on bare metal, under emulators
  and as a hosted program.  The system is Lisp; the tools around it are Python, and they carry the decisions
  that a release rests on: whether two builds have the same code, whether a rung of a ladder passed, what was
  uploaded to a board, whether a board may be started, what a measurement on it means.  This development
  models those tools.  There are five groups, which interact through files, serial lines and sockets.

  The build and its images.  \<open>MakeUki\<close> is \<open>scripts/make-uki.py\<close>, which adds sections to a PE image.
  \<open>SymMap\<close>, \<open>FnDiff\<close> and \<open>RelocProof\<close> are \<open>scripts/fndiff.py\<close> and \<open>scripts/reloproof.py\<close>, which read the
  symbol maps that the build writes and compare the native code of two builds function by function.
  \<open>SelfHost\<close> is \<open>scripts/self-host-gen1.py\<close>, which lets an image build its successor in an emulator and saves
  it from the emulator's memory.

  The ladders.  \<open>ArchLadder\<close> and \<open>HostedLadder\<close> are \<open>scripts/arch-ladder.py\<close> and \<open>scripts/hosted-ladder.py\<close>:
  a rung is compiled into a payload, run, and its answer read from guest memory or from the output.
  \<open>LadderDiff\<close> is \<open>tools/ladder-diff.py\<close>, the comparison of two runs of the library ladder.  \<open>PyJson\<close> holds
  what the first of them uses of JSON.

  Lisp text.  \<open>LispForms\<close> has the three readers of Lisp text, \<open>forms\<close> of \<open>scripts/push-serial.py\<close> and
  \<open>read_forms\<close> and \<open>split_toplevel\<close> of \<open>gen-flet-battery.py\<close>, with the two scripts around them.  \<open>LispLevel\<close>
  has what makes generated text readable by them; \<open>BarePerfTables\<close>, \<open>net/bare-perf-names.py\<close> and
  \<open>net/bare-perf-gen.py\<close>, generates such text, which \<open>push-serial.py\<close> then sends.

  Booting a board.  \<open>Serial\<close> is the port as the boot scripts see it, a list of what each read returns.
  \<open>DeployKernel\<close> is \<open>devices/pi-zero-2-w/deploy-kernel.py\<close>, the upload to the UART bootloader; \<open>NetbootGz\<close>,
  \<open>NetbootPlain\<close> and \<open>NetbootLinux\<close> are \<open>scripts/netboot-core-gz.py\<close>, \<open>scripts/netboot-core.py\<close> with the four
  \<open>docs/reel-on-zero/zlinux/go-*.py\<close>, and \<open>docs/reel-on-zero/zlinux/netboot-linux.py\<close>: dialogues with U-Boot.

  Driving a board.  \<open>ReplReply\<close> is the regular expression by which the drivers of \<open>docs/reel-on-zero\<close> find a
  reply, \<open>ReplChannel\<close> the line with its time, and \<open>BoardRepl\<close> the functions that open all \<open>serial-*.py\<close>.  The
  drivers themselves are lists of steps: \<open>DecodeDrivers\<close>, \<open>PmuDrivers\<close> (whose machine code is in \<open>PmuStubs\<close>),
  \<open>DisplayDrivers\<close> and \<open>ProbeDrivers\<close>; \<open>PmuEl3\<close> (\<open>serial-pmu3.py\<close>) and \<open>RhCore\<close> (\<open>rh_core3.py\<close>) branch on
  what the board says.  \<open>DriverForms\<close> and \<open>DriverReading\<close> read all of them back with the form reader.
  \<open>BoardVideo\<close> is \<open>board-video.py\<close>, a whole session of netboot, serial line, ssh and camera.  \<open>QemuRepl\<close> is
  \<open>qinstall.py\<close>, \<open>qsave.py\<close> and \<open>qcore.py\<close>, the same dialogue over the socket of an emulator.  \<open>BarePerf\<close>
  (\<open>net/bare-perf-report.py\<close>) and \<open>PmuAnnotate\<close> (\<open>scripts/pmu-annotate.py\<close>) evaluate what the boards print.

  How the code is translated.  \<open>PyPrelude\<close> and \<open>PyText\<close> are the part of Python that is used: bytes as
  \<open>8 word list\<close>, text as \<open>string\<close>, dictionaries as association lists in insertion order, integers as \<open>int\<close>
  or, where they cannot be negative, \<open>nat\<close>, slices with their clipping, \<open>struct\<close> with its range checks.  An
  exception or an exit is a value: \<open>py_error + 'a\<close>, written \<open>'a res\<close>, with \<open>res_bind\<close> for the sequence of
  statements; \<open>SystemExit n\<close> carries the status.  A script with side effects passes a record: \<open>port\<close> (the
  windows to come, what was written and printed), \<open>board\<close> (the clock in milliseconds, the bytes to arrive with
  their times, the bytes sent, the random tags, the lines shown), \<open>session\<close> and the guest of \<open>SelfHost\<close> (the
  same and the actions done outside).  What is not Python code of the repository is an argument: the contents
  of files, the build and the emulator of the ladders (records of functions), the output of \<open>objdump\<close>,
  \<open>nm\<close> and the assembler, what a board prints and when.  No property assumes anything of these arguments
  that it does not state; those about errors, bounds and safety quantify over all of them.

  A definition has the name of its function; where two scripts share a name a prefix tells them apart (\<open>fn_load\<close>
  and \<open>rp_load\<close>, \<open>gz_tftp\<close> and \<open>lx_tftp\<close>, \<open>rh_ev\<close>), and a piece of a module body is named after what it
  does.  A fixed driver is \<open>serial_\<close> and the rest of its file name.

  Loops.  Every loop is total here.  The scanners recurse on their text, and the rest have a measure: the reads
  of a serial port have the time to the deadline plus the bytes still to come (\<open>rd_loop\<close>, \<open>q_loop\<close>), the loop
  of \<open>rh_core3.py\<close>, whose deadline moves, first the bytes and then the time, the wait for the REPL in \<open>qinstall.py\<close> its own
  ninety minutes.  No function has fuel; a number of attempts is the code's own
  (five handshakes, \<open>--tftp-tries\<close>, three queries).

  The interfaces.  \<open>transmitter\<close> is a device with a write and a read, on which the bytes sent are the
  concatenation of the writes: the port (\<open>uart\<close>) and the board's line (\<open>line\<close>).  \<open>timed_reader\<close> is a read with a timeout
  and the loop around it, \<open>reply_channel\<close> the \<open>rd_until\<close> that results: the serial line and the socket are
  instances of both, so the theorems about replies are proved once.  \<open>script_runner\<close> and \<open>timed_runner\<close> are
  ways of running the statements of a driver (plain, with a report, with the \<open>ev\<close> of \<open>rh_core3.py\<close>), \<open>prober\<close>
  and \<open>timed_prober\<close> the loops that reach the REPL (three of them).  \<open>Traces\<close> has the runs of a step relation,
  against which \<open>SelfHost\<close> and \<open>BoardVideo\<close> are checked.

  What is proved.
  Comparison: the exit status of \<open>reloproof.py\<close> is 0 exactly when every difference lies in a relocated field,
  and then each such field reaches the same function in both builds; \<open>fndiff.py\<close> and \<open>ladder-diff.py\<close> report a
  difference exactly when there is one by their own notion of it.
  Images: \<open>make-uki.py\<close> keeps every old byte and section, its new sections are aligned, apart and inside
  \<open>SizeOfImage\<close>, and it succeeds whenever the header has room.
  Ladders: a memory dump is never judged against its content, at no moment of the payload's run can a reader
  see the magic word with a wrong answer, and the exit status says that every cell passed.
  Readers: each returns exactly the balanced forms of a text; generated and typed text is read back form by
  form, so that no driver leaves a form open.
  Uploads and boots: what is on the wire decodes to the image; no boot command goes out before the transfers
  it needs were reported (or, for \<open>netboot-core.py\<close>, the dialogue is fixed whatever is reported).
  Drivers: a value is believed only if it is a reply to the tag of that question that arrived after it was
  asked; what is sent is fixed by the script; a session ends in a stated time; forms that need a privilege, an
  address range or a working REPL are sent only if the board said so; the stubs are decoded and run, return
  for all register contents and select the events their table names.
  Sessions: whatever the outside does, the actions are a run of the life-cycle, with every recording stopped
  and an image saved only with the size the guest reported.
  Reports: the accumulated profile is the profile of the printed samples, the table is its largest rows, and
  the folded file can be read back.

  Not modelled.  Output on the terminal where a theory says so (echo of the port, percentages, the format of
  seconds), argument parsing beyond the record of its results, opening and closing of files and devices,
  processes, sleeping apart from the clock, and text outside Latin-1.  \<open>serial-tap.py\<close> copies the port to a file for ever
  and \<open>serial-ssh-diag.py\<close> prints what arrives beside an ssh command: both are input and output only.  The
  functions at the head of each serial driver are one text in thirty-one files and are translated once, from
  \<open>serial-bisect2.py\<close>.  What the boards do with the forms (the Lisp system: \<open>boot\<close>, \<open>mvm\<close>, \<open>net\<close>, \<open>lib\<close>,
  \<open>crypto\<close>, \<open>runtime\<close>) is Lisp and not part of this development, nor are the host ports in C, Swift and
  Objective-C, the shell scripts, the browser pages, the vendored libraries, and the Python programs under
  \<open>test\<close> and \<open>tests\<close>, which are clients and generators for tests of that system.
\<close>

end
